(* ===== verification/Prelude.thy ===== *)
theory Prelude
  imports Main "HOL-Library.Word" "HOL-Library.Monad_Syntax"
begin

text \<open>
  What every component shares: the ranges of the C integer types, checked signed
  arithmetic (\<open>None\<close> is an overflow, which C leaves undefined), the contract of a
  transition system with an invariant, and generic lemmas on lists, options and words.
\<close>

section \<open>C integers\<close>

text \<open>
  The module is built for LP64 (Linux on x86-64 or arm64): \<open>int\<close> has 32 bits, \<open>long\<close>,
  \<open>size_t\<close> and \<open>time_t\<close> have 64. Signed values are kept as \<open>int\<close> and their range is
  part of the properties; \<open>size_t\<close> is \<open>64 word\<close>, which wraps as C requires.
\<close>

abbreviation INT_MAX :: int where "INT_MAX \<equiv> 2147483647"
abbreviation INT_MIN :: int where "INT_MIN \<equiv> -2147483648"
abbreviation LONG_MAX :: int where "LONG_MAX \<equiv> 9223372036854775807"
abbreviation LONG_MIN :: int where "LONG_MIN \<equiv> -9223372036854775808"

type_synonym size_t = "64 word"

definition in_int :: "int \<Rightarrow> bool" where
  "in_int n \<longleftrightarrow> INT_MIN \<le> n \<and> n \<le> INT_MAX"

text \<open>Signed addition and multiplication on \<open>int\<close>: \<open>None\<close> where C's result is undefined.\<close>

definition int_add :: "int \<Rightarrow> int \<Rightarrow> int option" where
  "int_add a b = (if in_int (a + b) then Some (a + b) else None)"

definition int_mul :: "int \<Rightarrow> int \<Rightarrow> int option" where
  "int_mul a b = (if in_int (a * b) then Some (a * b) else None)"

section \<open>Collections of lemmas\<close>

named_theorems pod_simps \<open>definitions of the sections that give up a reference\<close>
named_theorems module_simps \<open>what a module that has been stopped consists of\<close>

section \<open>The log\<close>

text \<open>A call of \<open>RedisModule_Log\<close>: the level and the text after formatting.\<close>

datatype log_level = Log_debug | Log_verbose | Log_notice | Log_warning

type_synonym log_line = "log_level \<times> string"

section \<open>Transition systems\<close>

text \<open>
  The contract that every concurrent component below is an instance of: an initial
  predicate, a step relation and an invariant that holds at the start and that every
  step keeps. The conclusion is the rule the components rest on: the invariant holds in
  every reachable state.
\<close>

inductive reach :: "('s \<Rightarrow> bool) \<Rightarrow> ('s \<Rightarrow> 's \<Rightarrow> bool) \<Rightarrow> 's \<Rightarrow> bool"
  for init :: "'s \<Rightarrow> bool" and step :: "'s \<Rightarrow> 's \<Rightarrow> bool" where
  reach_init: "init s \<Longrightarrow> reach init step s"
| reach_step: "reach init step s \<Longrightarrow> step s t \<Longrightarrow> reach init step t"

locale invariant_system =
  fixes init :: "'s \<Rightarrow> bool"
    and step :: "'s \<Rightarrow> 's \<Rightarrow> bool"
    and inv :: "'s \<Rightarrow> bool"
  assumes init_inv: "init s \<Longrightarrow> inv s"
    and step_inv: "step s t \<Longrightarrow> inv s \<Longrightarrow> inv t"
begin

lemma reachable_inv: "reach init step s \<Longrightarrow> inv s"
  by (induction rule: reach.induct) (auto intro: init_inv step_inv)

lemma steps_inv: "step\<^sup>*\<^sup>* s t \<Longrightarrow> inv s \<Longrightarrow> inv t"
  by (induction rule: rtranclp_induct) (auto intro: step_inv)

end

lemma reach_steps: "step\<^sup>*\<^sup>* s t \<Longrightarrow> reach init step s \<Longrightarrow> reach init step t"
  by (induction rule: rtranclp_induct) (auto intro: reach_step)

section \<open>Lists and options\<close>

lemma remdups_adj_snoc:
  "remdups_adj (xs @ [x]) =
     (if xs \<noteq> [] \<and> last xs = x then remdups_adj xs else remdups_adj xs @ [x])"
  by (induction xs rule: remdups_adj.induct) auto

lemma takeWhile_stop: "\<not> P y \<Longrightarrow> \<forall>x\<in>set xs. P x \<Longrightarrow> takeWhile P (xs @ y # ys) = xs"
  by simp

lemma dropWhile_stop:
  "\<not> P y \<Longrightarrow> \<forall>x\<in>set xs. P x \<Longrightarrow> dropWhile P (xs @ y # ys) = y # ys"
  by simp

lemma takeWhile_until:
  "n < length d \<Longrightarrow> \<not> P (d ! n) \<Longrightarrow> takeWhile P d = takeWhile P (take n d)"
proof (induction d arbitrary: n)
  case (Cons x d)
  then show ?case by (cases n) auto
qed simp

lemma length_dropWhile_less: "xs \<noteq> [] \<Longrightarrow> P (hd xs) \<Longrightarrow> length (dropWhile P xs) < length xs"
  by (cases xs) (auto simp: le_imp_less_Suc length_dropWhile_le)

lemma dropWhile_id: "xs = [] \<or> \<not> P (hd xs) \<Longrightarrow> dropWhile P xs = xs"
  by (cases xs) auto

end
