(* ===== verification/C_Strings.thy ===== *)
theory C_Strings
  imports Prelude "HOL-Library.List_Lexorder"
begin

text \<open>
  The string functions of the C library that the module calls, on C strings (the bytes
  before the terminating NUL, as a HOL \<open>string\<close>): decimal printing and \<open>strtol\<close>,
  \<open>strcmp\<close>, \<open>strncmp\<close>, \<open>strcasecmp\<close>, \<open>strtok\<close>, \<open>strspn\<close> and a bounded
  \<open>snprintf\<close>. The lemmas are the facts the components rest on: printing and reading a
  number, splitting and joining at a separator, and the order \<open>strcmp\<close> decides.
\<close>

section \<open>Characters\<close>

definition ch_nul :: char where "ch_nul = CHR 0x00"
definition ch_tab :: char where "ch_tab = CHR 0x09"
definition ch_nl :: char where "ch_nl = CHR 0x0A"
definition ch_cr :: char where "ch_cr = CHR 0x0D"

lemmas ch_defs = ch_nul_def ch_tab_def ch_nl_def ch_cr_def

definition is_digit :: "char \<Rightarrow> bool" where
  "is_digit c \<longleftrightarrow> (48::nat) \<le> of_char c \<and> of_char c \<le> (57::nat)"

definition digit_val :: "char \<Rightarrow> nat" where
  "digit_val c = of_char c - 48"

definition digit_char :: "nat \<Rightarrow> char" where
  "digit_char d = char_of (48 + d)"

text \<open>\<open>isspace\<close> in the C locale: blank, tab, newline, vertical tab, form feed, return.\<close>

definition is_space :: "char \<Rightarrow> bool" where
  "is_space c \<longleftrightarrow> (let n = (of_char c :: nat) in n = 32 \<or> (9 \<le> n \<and> n \<le> 13))"

lemma digit_char_props [simp]:
  assumes "d < 10"
  shows "is_digit (digit_char d)" and "digit_val (digit_char d) = d"
  using assms by (simp_all add: is_digit_def digit_val_def digit_char_def)

lemma digit_char_val [simp]: "is_digit c \<Longrightarrow> digit_char (digit_val c) = c"
  by (simp add: is_digit_def digit_val_def digit_char_def)

lemma digit_val_less: "is_digit c \<Longrightarrow> digit_val c < 10"
  by (auto simp: is_digit_def digit_val_def)

lemma digit_char_0: "digit_char 0 = CHR ''0''"
  by code_simp

lemma digit_not_space [simp]: "is_digit c \<Longrightarrow> \<not> is_space c"
  by (auto simp: is_digit_def is_space_def Let_def)

lemma is_digit_consts [simp]:
  "\<not> is_digit CHR ''-''" "\<not> is_digit CHR ''+''" "\<not> is_digit CHR ''.''" "\<not> is_digit CHR '':''"
  "\<not> is_digit ch_tab" "\<not> is_digit ch_nul" "is_digit CHR ''0''"
  "\<not> is_space CHR ''-''" "\<not> is_space CHR ''+''"
  by (simp_all add: is_digit_def is_space_def ch_defs)

section \<open>Decimal numbers\<close>

definition decimal :: "string \<Rightarrow> nat" where
  "decimal ds = foldl (\<lambda>n c. 10 * n + digit_val c) 0 ds"

fun dec_nat :: "nat \<Rightarrow> string" where
  "dec_nat n = (if n < 10 then [digit_char n] else dec_nat (n div 10) @ [digit_char (n mod 10)])"

declare dec_nat.simps [simp del]

text \<open>The conversions \<open>%d\<close> and \<open>%ld\<close>.\<close>

definition show_int :: "int \<Rightarrow> string" where
  "show_int n = (if n < 0 then CHR ''-'' # dec_nat (nat (- n)) else dec_nat (nat n))"

lemma decimal_Nil [simp]: "decimal [] = 0"
  by (simp add: decimal_def)

lemma decimal_snoc [simp]: "decimal (ds @ [c]) = 10 * decimal ds + digit_val c"
  by (simp add: decimal_def)

lemma dec_nat_digits: "c \<in> set (dec_nat n) \<Longrightarrow> is_digit c"
proof (induction n rule: dec_nat.induct)
  case (1 n)
  then show ?case by (cases "n < 10") (auto simp: dec_nat.simps [of n])
qed

lemma dec_nat_nonempty [simp]: "dec_nat n \<noteq> []"
  by (subst dec_nat.simps) simp

lemma decimal_dec_nat [simp]: "decimal (dec_nat n) = n"
proof (induction n rule: dec_nat.induct)
  case (1 n)
  show ?case
  proof (cases "n < 10")
    case True
    then show ?thesis
      using decimal_snoc [of "[]" "digit_char n"] by (simp add: dec_nat.simps [of n])
  next
    case False
    with 1 show ?thesis by (simp add: dec_nat.simps [of n])
  qed
qed

lemma dec_nat_length: "n < 10 ^ k \<Longrightarrow> 0 < k \<Longrightarrow> length (dec_nat n) \<le> k"
proof (induction k arbitrary: n)
  case 0
  then show ?case by simp
next
  case (Suc k)
  show ?case
  proof (cases "n < 10")
    case True
    then show ?thesis by (simp add: dec_nat.simps [of n])
  next
    case False
    with Suc.prems have "n div 10 < 10 ^ k" and "0 < k" by (auto intro: gr0I)
    then have "length (dec_nat (n div 10)) \<le> k" by (rule Suc.IH)
    with False show ?thesis by (simp add: dec_nat.simps [of n])
  qed
qed

lemma decimal_ge: "ds \<noteq> [] \<Longrightarrow> hd ds \<noteq> CHR ''0'' \<Longrightarrow> \<forall>c\<in>set ds. is_digit c \<Longrightarrow> 0 < decimal ds"
proof (induction ds rule: rev_induct)
  case Nil
  then show ?case by simp
next
  case (snoc c ds)
  show ?case
  proof (cases "ds = []")
    case True
    with snoc.prems have "is_digit c" and "c \<noteq> CHR ''0''" by auto
    then have "digit_val c \<noteq> 0" using digit_char_val [of c] digit_char_0 by metis
    with True show ?thesis using decimal_snoc [of "[]" c] by simp
  next
    case False
    with snoc show ?thesis by simp
  qed
qed

text \<open>A digit string without a leading zero is what printing its value gives back.\<close>

lemma dec_nat_decimal:
  "ds \<noteq> [] \<Longrightarrow> \<forall>c\<in>set ds. is_digit c \<Longrightarrow> hd ds \<noteq> CHR ''0'' \<or> length ds = 1 \<Longrightarrow>
     dec_nat (decimal ds) = ds"
proof (induction ds rule: rev_induct)
  case Nil
  then show ?case by simp
next
  case (snoc c ds)
  from snoc.prems have c: "is_digit c" by simp
  then have d: "digit_val c < 10" by (rule digit_val_less)
  show ?case
  proof (cases "ds = []")
    case True
    with c d show ?thesis
      using decimal_snoc [of "[]" c] by (simp add: dec_nat.simps [of "digit_val c"])
  next
    case False
    with snoc.prems have "hd ds \<noteq> CHR ''0''" "\<forall>c\<in>set ds. is_digit c" by auto
    with False snoc.IH have eq: "dec_nat (decimal ds) = ds" and pos: "0 < decimal ds"
      by (auto intro: decimal_ge)
    from pos d c eq show ?thesis
      by (simp add: dec_nat.simps [of "10 * decimal ds + digit_val c"])
  qed
qed

lemma show_int_chars: "c \<in> set (show_int n) \<Longrightarrow> is_digit c \<or> c = CHR ''-''"
  by (auto simp: show_int_def dest: dec_nat_digits split: if_splits)

lemma show_int_nonempty [simp]: "show_int n \<noteq> []"
  by (simp add: show_int_def)

lemma show_int_length: "in_int n \<Longrightarrow> length (show_int n) \<le> 11"
  using dec_nat_length [of "nat (- n)" 10] dec_nat_length [of "nat n" 11]
  by (auto simp: show_int_def in_int_def nat_less_iff)

section \<open>strtol\<close>

text \<open>
  \<open>strtol (buff, &end, 10)\<close>: blanks are skipped, a sign is optional, then the longest run
  of digits is converted; out of range the result is clamped and \<open>errno\<close> is \<open>ERANGE\<close>.
  Without a digit nothing is converted and \<open>end == buff\<close>. The second component is
  \<open>end - buff\<close>, the third whether \<open>errno == ERANGE\<close>.
\<close>

definition strtol_sign :: "string \<Rightarrow> bool \<times> string" where
  "strtol_sign s = (case s of
       c # cs \<Rightarrow> if c = CHR ''-'' then (True, cs) else if c = CHR ''+'' then (False, cs) else (False, s)
     | [] \<Rightarrow> (False, s))"

definition strtol :: "string \<Rightarrow> int \<times> nat \<times> bool" where
  "strtol buff =
     (let s1 = dropWhile is_space buff;
          (neg, s2) = strtol_sign s1;
          ds = takeWhile is_digit s2;
          consumed = length buff - length s2 + length ds;
          v = (if neg then - int (decimal ds) else int (decimal ds))
      in if ds = [] then (0, 0, False)
         else if v > LONG_MAX then (LONG_MAX, consumed, True)
         else if v < LONG_MIN then (LONG_MIN, consumed, True)
         else (v, consumed, False))"

text \<open>The grammar of what is read completely: blanks, an optional sign, digits.\<close>

definition sign_text :: "bool \<Rightarrow> string \<Rightarrow> bool" where
  "sign_text neg sg \<longleftrightarrow> (if neg then sg = ''-'' else sg = [] \<or> sg = ''+'')"

definition signed_value :: "bool \<Rightarrow> string \<Rightarrow> int" where
  "signed_value neg ds = (if neg then - int (decimal ds) else int (decimal ds))"

definition int_literal :: "string \<Rightarrow> bool \<Rightarrow> string \<Rightarrow> bool" where
  "int_literal s neg ds \<longleftrightarrow>
     (\<exists>ws sg. s = ws @ sg @ ds \<and> (\<forall>c\<in>set ws. is_space c) \<and> sign_text neg sg \<and>
        ds \<noteq> [] \<and> (\<forall>c\<in>set ds. is_digit c))"

lemma strtol_sign_text:
  "sign_text neg sg \<Longrightarrow> ds \<noteq> [] \<Longrightarrow> is_digit (hd ds) \<Longrightarrow> strtol_sign (sg @ ds) = (neg, ds)"
  by (cases ds) (auto simp: sign_text_def strtol_sign_def split: if_splits)

lemma strtol_sign_split: "strtol_sign s = (neg, s2) \<Longrightarrow> \<exists>sg. s = sg @ s2 \<and> sign_text neg sg"
  by (cases s) (auto simp: strtol_sign_def sign_text_def split: if_splits)

lemma dropWhile_space_literal:
  assumes "\<forall>c\<in>set ws. is_space c" and "sign_text neg sg" and "ds \<noteq> []" and "is_digit (hd ds)"
  shows "dropWhile is_space (ws @ sg @ ds) = sg @ ds"
proof -
  have "\<not> is_space (hd (sg @ ds))" and "sg @ ds \<noteq> []"
    using assms(2-4) by (auto simp: sign_text_def hd_append split: if_splits)
  with assms(1) show ?thesis by (simp add: dropWhile_id)
qed

lemma strtol_literal:
  assumes "int_literal s neg ds"
  shows "strtol s =
    (if signed_value neg ds > LONG_MAX then (LONG_MAX, length s, True)
     else if signed_value neg ds < LONG_MIN then (LONG_MIN, length s, True)
     else (signed_value neg ds, length s, False))"
proof -
  from assms obtain ws sg where s: "s = ws @ sg @ ds" and ws: "\<forall>c\<in>set ws. is_space c"
    and sg: "sign_text neg sg" and ds: "ds \<noteq> []" "\<forall>c\<in>set ds. is_digit c"
    by (auto simp: int_literal_def)
  from ds have h: "is_digit (hd ds)" by simp
  have dw: "dropWhile is_space s = sg @ ds"
    unfolding s by (rule dropWhile_space_literal [OF ws sg ds(1) h])
  have ss: "strtol_sign (sg @ ds) = (neg, ds)" by (rule strtol_sign_text [OF sg ds(1) h])
  have tw: "takeWhile is_digit ds = ds" using ds(2) by simp
  have len: "length s - length ds + length ds = length s" by (simp add: s)
  show ?thesis using ds(1) by (simp add: strtol_def Let_def signed_value_def dw ss tw len)
qed

text \<open>Conversely, a conversion that stops at the end of the buffer has read a literal.\<close>

lemma strtol_complete:
  assumes "strtol s = (v, n, r)" and "n \<noteq> 0" and "n = length s"
  shows "\<exists>neg ds. int_literal s neg ds"
proof -
  obtain neg s2 where sg: "strtol_sign (dropWhile is_space s) = (neg, s2)" by fastforce
  then obtain sg where split: "dropWhile is_space s = sg @ s2" and st: "sign_text neg sg"
    by (auto dest: strtol_sign_split)
  let ?ds = "takeWhile is_digit s2"
  have s: "s = takeWhile is_space s @ sg @ s2"
    using takeWhile_dropWhile_id [of is_space s] split by simp
  have ne: "?ds \<noteq> []" and n: "n = length s - length s2 + length ?ds"
    using assms(1,2) sg by (auto simp: strtol_def Let_def split: if_splits)
  have "length s2 \<le> length s" by (subst s) simp
  with n assms(3) have "length ?ds = length s2" by simp
  then have "?ds = s2"
    by (metis append_Nil2 length_append length_0_conv add_cancel_right_right takeWhile_dropWhile_id)
  with s st ne have "int_literal s neg s2" unfolding int_literal_def
    by (metis set_takeWhileD)
  then show ?thesis by blast
qed

lemma show_int_literal: "int_literal (show_int n) (n < 0) (dec_nat (nat \<bar>n\<bar>))"
  unfolding int_literal_def
  by (rule exI [of _ "[]"], rule exI [of _ "if n < 0 then ''-'' else []"])
     (auto simp: show_int_def sign_text_def dest: dec_nat_digits)

lemma show_int_value [simp]: "signed_value (n < 0) (dec_nat (nat \<bar>n\<bar>)) = n"
  by (simp add: signed_value_def)

section \<open>Comparisons\<close>

text \<open>
  C fixes only the sign of \<open>strcmp\<close>'s result; the model returns -1, 0 or 1. Bytes
  compare as unsigned values, and a proper prefix is smaller (its NUL is below any byte).
\<close>

fun strcmp :: "string \<Rightarrow> string \<Rightarrow> int" where
  "strcmp [] [] = 0"
| "strcmp [] (_ # _) = -1"
| "strcmp (_ # _) [] = 1"
| "strcmp (x # xs) (y # ys) =
     (if (of_char x :: nat) < of_char y then -1
      else if (of_char y :: nat) < of_char x then 1
      else strcmp xs ys)"

text \<open>\<open>strncmp a b n\<close>: at most \<open>n\<close> bytes, and none past a NUL.\<close>

fun strncmp :: "string \<Rightarrow> string \<Rightarrow> nat \<Rightarrow> int" where
  "strncmp a b 0 = 0"
| "strncmp [] [] (Suc n) = 0"
| "strncmp [] (_ # _) (Suc n) = -1"
| "strncmp (_ # _) [] (Suc n) = 1"
| "strncmp (x # xs) (y # ys) (Suc n) =
     (if (of_char x :: nat) < of_char y then -1
      else if (of_char y :: nat) < of_char x then 1
      else strncmp xs ys n)"

text \<open>\<open>tolower\<close> in the C locale, and the comparison modulo it.\<close>

definition to_lower :: "char \<Rightarrow> char" where
  "to_lower c = (let n = (of_char c :: nat) in if 65 \<le> n \<and> n \<le> 90 then char_of (n + 32) else c)"

definition strcasecmp :: "string \<Rightarrow> string \<Rightarrow> int" where
  "strcasecmp a b = strcmp (map to_lower a) (map to_lower b)"

lemma of_char_linear:
  fixes x y :: char
  obtains "(of_char x :: nat) < of_char y" | "(of_char y :: nat) < of_char x" | "x = y"
  by (metis linorder_less_linear of_char_eq_iff)

lemma strcmp_eq_0 [simp]: "strcmp a b = 0 \<longleftrightarrow> a = b"
proof (induction a b rule: strcmp.induct)
  case (4 x xs y ys)
  show ?case
  proof (cases x y rule: of_char_linear)
    case 1
    then show ?thesis by force
  next
    case 2
    then show ?thesis by force
  next
    case 3
    with "4.IH" show ?thesis by simp
  qed
qed simp_all

lemma strcmp_sgn: "strcmp a b \<in> {-1, 0, 1}"
  by (induction a b rule: strcmp.induct) auto

text \<open>
  The order \<open>strcmp\<close> decides is the lexicographic order of the byte values, which the
  library has as the order of \<open>nat list\<close>.
\<close>

abbreviation bytes :: "string \<Rightarrow> nat list" where
  "bytes s \<equiv> map of_char s"

lemma strcmp_less: "strcmp a b < 0 \<longleftrightarrow> bytes a < bytes b"
proof (induction a b rule: strcmp.induct)
  case (4 x xs y ys)
  then show ?case by (cases x y rule: of_char_linear) auto
qed simp_all

lemma bytes_inj [simp]: "bytes a = bytes b \<longleftrightarrow> a = b"
  by (rule inj_map_eq_map) (rule inj_of_char)

lemma strcmp_le: "strcmp a b \<le> 0 \<longleftrightarrow> bytes a \<le> bytes b"
  unfolding order.order_iff_strict strcmp_less by simp

lemma strcmp_swap: "strcmp b a < 0 \<longleftrightarrow> 0 < strcmp a b"
  using strcmp_le [of a b] strcmp_less [of b a] by (simp add: linorder_not_le [symmetric])

lemma strcmp_trans: "strcmp a b \<le> 0 \<Longrightarrow> strcmp b c \<le> 0 \<Longrightarrow> strcmp a c \<le> 0"
  unfolding strcmp_le by (rule order.trans)

lemma strncmp_prefix: "strncmp a b (length b) = 0 \<longleftrightarrow> take (length b) a = b"
proof (induction b arbitrary: a)
  case Nil
  then show ?case by simp
next
  case (Cons y ys)
  show ?case
  proof (cases a)
    case (Cons x xs)
    with \<open>\<And>a. strncmp a ys (length ys) = 0 \<longleftrightarrow> take (length ys) a = ys\<close> show ?thesis
      by (cases x y rule: of_char_linear) auto
  qed simp
qed

section \<open>strtok, strspn, splitting and joining\<close>

text \<open>
  One call of \<open>strtok\<close>: leading delimiters are skipped, the token runs to the next
  delimiter, which is overwritten; what follows it is kept for the next call.
\<close>

definition strtok :: "string \<Rightarrow> string \<Rightarrow> (string \<times> string) option" where
  "strtok delims s =
     (let s1 = dropWhile (\<lambda>c. c \<in> set delims) s
      in if s1 = [] then None
         else Some (takeWhile (\<lambda>c. c \<notin> set delims) s1,
                    drop 1 (dropWhile (\<lambda>c. c \<notin> set delims) s1)))"

definition strspn :: "string \<Rightarrow> string \<Rightarrow> nat" where
  "strspn s accept = length (takeWhile (\<lambda>c. c \<in> set accept) s)"

lemma strtok_rest_shorter: "strtok d s = Some (t, r) \<Longrightarrow> length r < length s"
proof -
  assume a: "strtok d s = Some (t, r)"
  let ?s1 = "dropWhile (\<lambda>c. c \<in> set d) s"
  from a have ne: "?s1 \<noteq> []" and r: "r = drop 1 (dropWhile (\<lambda>c. c \<notin> set d) ?s1)"
    by (auto simp: strtok_def Let_def split: if_splits)
  have "hd ?s1 \<notin> set d" using ne by (rule hd_dropWhile)
  with ne have "length (dropWhile (\<lambda>c. c \<notin> set d) ?s1) < length ?s1"
    by (rule length_dropWhile_less)
  with r show ?thesis using length_dropWhile_le [of "\<lambda>c. c \<in> set d" s] by simp
qed

lemma strtok_token:
  assumes "strtok d s = Some (t, r)"
  shows "t \<noteq> []" and "\<forall>c\<in>set t. c \<notin> set d"
proof -
  let ?s1 = "dropWhile (\<lambda>c. c \<in> set d) s"
  from assms have ne: "?s1 \<noteq> []" and t: "t = takeWhile (\<lambda>c. c \<notin> set d) ?s1"
    by (auto simp: strtok_def Let_def split: if_splits)
  from ne have "hd ?s1 \<notin> set d" by (rule hd_dropWhile)
  with ne show "t \<noteq> []" unfolding t by (cases ?s1) auto
  show "\<forall>c\<in>set t. c \<notin> set d" unfolding t by (auto dest: set_takeWhileD)
qed

lemma strspn_all: "strspn s a = length s \<longleftrightarrow> (\<forall>c\<in>set s. c \<in> set a)"
  by (metis strspn_def takeWhile_eq_all_conv takeWhile_eq_take take_all_iff order_refl
      length_takeWhile_le take_all)

text \<open>Fields between separators, as a reader of the datagram splits it.\<close>

fun split_on :: "char \<Rightarrow> string \<Rightarrow> string list" where
  "split_on c [] = [[]]"
| "split_on c (x # xs) =
     (if x = c then [] # split_on c xs
      else (case split_on c xs of [] \<Rightarrow> [[x]] | f # fs \<Rightarrow> (x # f) # fs))"

fun join_on :: "char \<Rightarrow> string list \<Rightarrow> string" where
  "join_on c [] = []"
| "join_on c [f] = f"
| "join_on c (f # fs) = f @ c # join_on c fs"

lemma split_on_nonempty [simp]: "split_on c s \<noteq> []"
  by (induction s) (auto split: list.splits)

lemma split_on_field: "c \<notin> set f \<Longrightarrow> split_on c f = [f]"
  by (induction f) auto

lemma split_on_append: "c \<notin> set f \<Longrightarrow> split_on c (f @ c # s) = f # split_on c s"
  by (induction f) auto

lemma split_join: "fs \<noteq> [] \<Longrightarrow> \<forall>f\<in>set fs. c \<notin> set f \<Longrightarrow> split_on c (join_on c fs) = fs"
  by (induction c fs rule: join_on.induct) (auto simp: split_on_field split_on_append)

lemma join_split [simp]: "join_on c (split_on c s) = s"
proof (induction s)
  case (Cons x xs)
  show ?case
  proof (cases "split_on c xs")
    case Nil
    then show ?thesis by simp
  next
    case (Cons f fs)
    with Cons.IH show ?thesis by (cases fs) auto
  qed
qed simp

lemma split_on_fields: "f \<in> set (split_on c s) \<Longrightarrow> c \<notin> set f"
  by (induction s arbitrary: f) (auto split: if_splits list.splits)

section \<open>snprintf into a buffer of n bytes\<close>

text \<open>At most \<open>n - 1\<close> bytes are stored, then the NUL; a buffer of size 0 is never passed.\<close>

definition snprintf :: "nat \<Rightarrow> string \<Rightarrow> string" where
  "snprintf n s = take (n - 1) s"

lemma snprintf_fits: "length s < n \<Longrightarrow> snprintf n s = s"
  by (simp add: snprintf_def)

lemma snprintf_length: "0 < n \<Longrightarrow> length (snprintf n s) < n"
  by (simp add: snprintf_def)

end
