(* ===== verification/Settings.thy ===== *)
theory Settings
  imports C_Strings
begin

text \<open>
  \<^verbatim>\<open>settings.c\<close>: the module's settings, read from the process environment. The
  environment is the function \<open>getenv\<close> (\<open>None\<close> is a variable that is not set), an
  argument of every getter because it can change between two calls.
\<close>

type_synonym environ = "string \<Rightarrow> string option"

section \<open>parse_int\<close>

text \<open>
  The four disjuncts of the rejection test of the source, in its order: nothing was
  converted, characters are left over, \<open>long\<close> overflowed, the value is no \<open>int\<close>.
\<close>

definition parse_int :: "string \<Rightarrow> int" where
  "parse_int buff =
     (case strtol buff of (sl, end_off, erange) \<Rightarrow>
        if end_off = 0
           \<or> end_off \<noteq> length buff
           \<or> ((LONG_MIN = sl \<or> LONG_MAX = sl) \<and> erange)
           \<or> sl > INT_MAX
           \<or> sl < INT_MIN
        then 0 else sl)"

section \<open>The getters\<close>

definition get_env_seconds :: "environ \<Rightarrow> string \<Rightarrow> int \<Rightarrow> int \<Rightarrow> int" where
  "get_env_seconds getenv name min_value fallback =
     (case getenv name of
        Some env \<Rightarrow> (let value = parse_int env in if value \<ge> min_value then value else fallback)
      | None \<Rightarrow> fallback)"

definition DEFAULT_NAME :: string where "DEFAULT_NAME = ''imq-broker''"
definition DEFAULT_PORT :: int where "DEFAULT_PORT = 63000"
definition DEFAULT_INTERVAL :: int where "DEFAULT_INTERVAL = 1"
definition DEFAULT_PODS_REFRESH :: int where "DEFAULT_PODS_REFRESH = 5"
definition DEFAULT_PODS_TIMEOUT :: int where "DEFAULT_PODS_TIMEOUT = 5"

lemmas defaults = DEFAULT_NAME_def DEFAULT_PORT_def DEFAULT_INTERVAL_def
  DEFAULT_PODS_REFRESH_def DEFAULT_PODS_TIMEOUT_def

definition get_service_name :: "environ \<Rightarrow> string" where
  "get_service_name getenv =
     (case getenv ''REDIS_BROADCAST_NAME'' of None \<Rightarrow> DEFAULT_NAME | Some name \<Rightarrow> name)"

definition get_port :: "environ \<Rightarrow> int" where
  "get_port getenv =
     (case getenv ''REDIS_BROADCAST_PORT'' of
        Some env \<Rightarrow> (let port = parse_int env in
          if port > 0 \<and> port \<le> 65535 then port else DEFAULT_PORT)
      | None \<Rightarrow> DEFAULT_PORT)"

definition get_interval :: "environ \<Rightarrow> int" where
  "get_interval getenv = get_env_seconds getenv ''REDIS_BROADCAST_INTERVAL'' 1 DEFAULT_INTERVAL"

definition get_pods_refresh :: "environ \<Rightarrow> int" where
  "get_pods_refresh getenv =
     get_env_seconds getenv ''REDIS_BROADCAST_PODS_REFRESH'' 1 DEFAULT_PODS_REFRESH"

definition get_pods_timeout :: "environ \<Rightarrow> int" where
  "get_pods_timeout getenv =
     get_env_seconds getenv ''REDIS_BROADCAST_PODS_TIMEOUT'' 1 DEFAULT_PODS_TIMEOUT"

definition get_pods_max_age :: "environ \<Rightarrow> int" where
  "get_pods_max_age getenv = get_env_seconds getenv ''REDIS_BROADCAST_PODS_MAX_AGE'' 0 0"

lemmas getter_defs = get_interval_def get_pods_refresh_def get_pods_timeout_def
  get_pods_max_age_def get_env_seconds_def

section \<open>What parse_int accepts\<close>

lemma parse_int_range: "in_int (parse_int s)"
  by (cases "strtol s") (auto simp: parse_int_def in_int_def)

lemma literal_length: "int_literal s neg ds \<Longrightarrow> s \<noteq> []"
  by (auto simp: int_literal_def)

lemma parse_int_literal:
  assumes "int_literal s neg ds"
  shows "parse_int s = (if in_int (signed_value neg ds) then signed_value neg ds else 0)"
  using strtol_literal [OF assms] literal_length [OF assms]
  by (auto simp: parse_int_def in_int_def)

lemma parse_int_rejects:
  assumes "\<not> (\<exists>neg ds. int_literal s neg ds)"
  shows "parse_int s = 0"
  using strtol_complete [of s] assms
  by (cases "strtol s") (auto simp: parse_int_def)

text \<open>
  C40. \<open>parse_int\<close> is exactly this reader: a text that is blanks, an optional sign and
  digits to its very end, with a value that an \<open>int\<close> holds, is that value; any other
  text - empty, with trailing characters, out of range of \<open>int\<close> or of \<open>long\<close> - is 0.
\<close>

theorem parse_int_spec:
  "parse_int s = n \<longleftrightarrow>
     (\<exists>neg ds. int_literal s neg ds \<and> in_int (signed_value neg ds) \<and> n = signed_value neg ds)
     \<or> (\<not> (\<exists>neg ds. int_literal s neg ds \<and> in_int (signed_value neg ds)) \<and> n = 0)"
proof (cases "\<exists>neg ds. int_literal s neg ds")
  case True
  then obtain neg ds where l: "int_literal s neg ds" by blast
  have same: "parse_int s = (if in_int (signed_value neg' ds') then signed_value neg' ds' else 0)"
    if "int_literal s neg' ds'" for neg' ds'
    using that by (rule parse_int_literal)
  show ?thesis
  proof (cases "in_int (signed_value neg ds)")
    case True
    with l same show ?thesis by fastforce
  next
    case False
    then have "parse_int s = 0" using same [OF l] by simp
    moreover have "signed_value neg' ds' = 0"
      if "int_literal s neg' ds'" "in_int (signed_value neg' ds')" for neg' ds'
      using same [OF that(1)] that(2) \<open>parse_int s = 0\<close> by simp
    ultimately show ?thesis by (metis (no_types))
  qed
next
  case False
  then show ?thesis using parse_int_rejects [OF False] by auto
qed

lemma parse_show: "parse_int (show_int n) = (if in_int n then n else 0)"
  by (simp add: parse_int_literal [OF show_int_literal])

text \<open>
  Printing an \<open>int\<close> with \<open>%d\<close> and reading it back with \<open>parse_int\<close> gives the same
  number, for every \<open>int\<close>; a number that is no \<open>int\<close> reads as 0, whatever its size.
\<close>

theorem parse_int_roundtrip: "parse_int (show_int n) = (if in_int n then n else 0)"
  by (rule parse_show)

section \<open>What the getters return\<close>

lemma get_env_seconds_bound:
  "min_value \<le> fallback \<Longrightarrow> min_value \<le> get_env_seconds getenv name min_value fallback"
  by (simp add: get_env_seconds_def Let_def split: option.split)

lemma get_env_seconds_int:
  "in_int fallback \<Longrightarrow> in_int (get_env_seconds getenv name min_value fallback)"
  by (simp add: get_env_seconds_def Let_def parse_int_range split: option.split)

text \<open>
  Whatever the environment holds, every setting is in the range the threads rely on:
  a UDP port that \<open>htons\<close> does not cut, intervals and timeouts of at least one second
  (so no loop of the module spins), a maximal age that is not negative, all of them \<open>int\<close>.
\<close>

theorem settings_ranges:
  "1 \<le> get_port getenv \<and> get_port getenv \<le> 65535
   \<and> 1 \<le> get_interval getenv \<and> in_int (get_interval getenv)
   \<and> 1 \<le> get_pods_refresh getenv \<and> in_int (get_pods_refresh getenv)
   \<and> 1 \<le> get_pods_timeout getenv \<and> in_int (get_pods_timeout getenv)
   \<and> 0 \<le> get_pods_max_age getenv \<and> in_int (get_pods_max_age getenv)"
proof -
  have "1 \<le> get_port getenv \<and> get_port getenv \<le> 65535"
    by (auto simp: get_port_def Let_def defaults split: option.split)
  then show ?thesis
    unfolding get_interval_def get_pods_refresh_def get_pods_timeout_def get_pods_max_age_def
    by (auto simp: defaults in_int_def intro: get_env_seconds_bound
          intro!: get_env_seconds_int [unfolded in_int_def, THEN conjunct1]
            get_env_seconds_int [unfolded in_int_def, THEN conjunct2])
qed

lemma setting_of_number:
  "getenv name = Some (show_int n) \<Longrightarrow> in_int n \<Longrightarrow> min_value \<le> n \<Longrightarrow>
     get_env_seconds getenv name min_value fallback = n"
  by (simp add: get_env_seconds_def parse_show)

lemma setting_unset: "getenv name = None \<Longrightarrow> get_env_seconds getenv name m f = f"
  by (simp add: get_env_seconds_def)

end
