(* ===== verification/Closing.thy ===== *)
theory Closing
  imports Prelude
begin

text \<open>
  \<^verbatim>\<open>closing.c\<close>: the module-wide closing signal. First the flag as the sequential code
  sees it, then the concurrent protocol of \<open>closing_begin\<close> and \<open>closing_sleep\<close> as a
  step relation at the granularity of single mutex, flag and condition variable
  operations, with the invariants that give mutual exclusion, no lost wake-up and no
  early return.
\<close>

section \<open>The flag\<close>

record closing_signal =
  closing :: int
  cond_ready :: bool

definition init_closing_cond :: "closing_signal \<Rightarrow> closing_signal" where
  "init_closing_cond s = s\<lparr>cond_ready := True\<rparr>"

definition closing_reset :: "closing_signal \<Rightarrow> closing_signal" where
  "closing_reset s = (init_closing_cond s)\<lparr>closing := 0\<rparr>"

definition closing_begin :: "closing_signal \<Rightarrow> closing_signal" where
  "closing_begin s = (init_closing_cond s)\<lparr>closing := 1\<rparr>"

definition is_closing :: "closing_signal \<Rightarrow> bool" where
  "is_closing s \<longleftrightarrow> closing s \<noteq> 0"

lemma closing_flag [simp]:
  "is_closing (closing_begin s)" "\<not> is_closing (closing_reset s)"
  by (simp_all add: is_closing_def closing_begin_def closing_reset_def init_closing_cond_def)

section \<open>The protocol\<close>

text \<open>
  Where a thread is: outside; in \<open>closing_sleep\<close> with its deadline, about to lock,
  about to test the flag, having found it clear, waiting, woken (by the time-out or not)
  and about to take the mutex back, about to unlock, about to read the flag for the result,
  and returned; or in \<open>closing_begin\<close>, before each of its four operations.
\<close>

datatype closing_pc =
    Outside
  | SleepLock int | SleepTest int | SleepFoundClear int | SleepWait int
  | SleepWoken int bool | SleepUnlock int | SleepResult int | SleepReturned int bool
  | BeginLock | BeginStore | BeginBroadcast | BeginUnlock

record closing_sys =
  flag :: bool
  clock :: int
  owner :: "nat option"
  pcs :: "nat \<Rightarrow> closing_pc"

text \<open>
  \<open>closing_sleep\<close>. \<open>pthread_cond_timedwait\<close> gives up the mutex and starts waiting in
  one step; it returns non-zero only once the deadline has passed, and may return zero
  with no broadcast at all.
\<close>

inductive sleep_step :: "nat \<Rightarrow> closing_sys \<Rightarrow> closing_sys \<Rightarrow> bool" for t :: nat where
  sleep_call: "pcs s t = Outside \<Longrightarrow>
    sleep_step t s (s\<lparr>pcs := (pcs s)(t := SleepLock (clock s + seconds))\<rparr>)"
| sleep_lock: "pcs s t = SleepLock d \<Longrightarrow> owner s = None \<Longrightarrow>
    sleep_step t s (s\<lparr>pcs := (pcs s)(t := SleepTest d), owner := Some t\<rparr>)"
| sleep_test_set: "pcs s t = SleepTest d \<Longrightarrow> flag s \<Longrightarrow>
    sleep_step t s (s\<lparr>pcs := (pcs s)(t := SleepUnlock d)\<rparr>)"
| sleep_test_clear: "pcs s t = SleepTest d \<Longrightarrow> \<not> flag s \<Longrightarrow>
    sleep_step t s (s\<lparr>pcs := (pcs s)(t := SleepFoundClear d)\<rparr>)"
| sleep_wait: "pcs s t = SleepFoundClear d \<Longrightarrow>
    sleep_step t s (s\<lparr>pcs := (pcs s)(t := SleepWait d), owner := None\<rparr>)"
| sleep_timeout: "pcs s t = SleepWait d \<Longrightarrow> d \<le> clock s \<Longrightarrow>
    sleep_step t s (s\<lparr>pcs := (pcs s)(t := SleepWoken d True)\<rparr>)"
| sleep_spurious: "pcs s t = SleepWait d \<Longrightarrow>
    sleep_step t s (s\<lparr>pcs := (pcs s)(t := SleepWoken d False)\<rparr>)"
| sleep_relock: "pcs s t = SleepWoken d timed_out \<Longrightarrow> owner s = None \<Longrightarrow>
    sleep_step t s (s\<lparr>pcs := (pcs s)(t := if timed_out then SleepUnlock d else SleepTest d),
                      owner := Some t\<rparr>)"
| sleep_unlock: "pcs s t = SleepUnlock d \<Longrightarrow>
    sleep_step t s (s\<lparr>pcs := (pcs s)(t := SleepResult d), owner := None\<rparr>)"
| sleep_result: "pcs s t = SleepResult d \<Longrightarrow>
    sleep_step t s (s\<lparr>pcs := (pcs s)(t := SleepReturned d (flag s))\<rparr>)"
| sleep_leave: "pcs s t = SleepReturned d r \<Longrightarrow>
    sleep_step t s (s\<lparr>pcs := (pcs s)(t := Outside)\<rparr>)"

text \<open>\<open>pthread_cond_broadcast\<close> wakes every waiting thread.\<close>

fun wake :: "closing_pc \<Rightarrow> closing_pc" where
  "wake (SleepWait d) = SleepWoken d False"
| "wake p = p"

inductive begin_step :: "nat \<Rightarrow> closing_sys \<Rightarrow> closing_sys \<Rightarrow> bool" for t :: nat where
  begin_call: "pcs s t = Outside \<Longrightarrow> begin_step t s (s\<lparr>pcs := (pcs s)(t := BeginLock)\<rparr>)"
| begin_lock: "pcs s t = BeginLock \<Longrightarrow> owner s = None \<Longrightarrow>
    begin_step t s (s\<lparr>pcs := (pcs s)(t := BeginStore), owner := Some t\<rparr>)"
| begin_store: "pcs s t = BeginStore \<Longrightarrow>
    begin_step t s (s\<lparr>pcs := (pcs s)(t := BeginBroadcast), flag := True\<rparr>)"
| begin_broadcast: "pcs s t = BeginBroadcast \<Longrightarrow>
    begin_step t s (s\<lparr>pcs := (\<lambda>u. wake (pcs s u))(t := BeginUnlock)\<rparr>)"
| begin_unlock: "pcs s t = BeginUnlock \<Longrightarrow>
    begin_step t s (s\<lparr>pcs := (pcs s)(t := Outside), owner := None\<rparr>)"

text \<open>
  The monotonic clock advances, and \<open>closing_reset\<close> runs on module load, when no thread
  of the module exists.
\<close>

inductive closing_step :: "closing_sys \<Rightarrow> closing_sys \<Rightarrow> bool" where
  closing_sleep: "sleep_step t s s' \<Longrightarrow> closing_step s s'"
| closing_begin_by: "begin_step t s s' \<Longrightarrow> closing_step s s'"
| closing_tick: "clock s \<le> now \<Longrightarrow> closing_step s (s\<lparr>clock := now\<rparr>)"
| closing_reset_idle: "\<forall>u. pcs s u = Outside \<Longrightarrow> closing_step s (s\<lparr>flag := False\<rparr>)"

definition closing_init :: "closing_sys \<Rightarrow> bool" where
  "closing_init s \<longleftrightarrow> \<not> flag s \<and> owner s = None \<and> (\<forall>t. pcs s t = Outside)"

section \<open>Invariant\<close>

fun holds_mutex :: "closing_pc \<Rightarrow> bool" where
  "holds_mutex (SleepTest d) = True"
| "holds_mutex (SleepFoundClear d) = True"
| "holds_mutex (SleepUnlock d) = True"
| "holds_mutex BeginStore = True"
| "holds_mutex BeginBroadcast = True"
| "holds_mutex BeginUnlock = True"
| "holds_mutex p = False"

text \<open>What a thread's position says of the flag and the clock.\<close>

fun pc_ok :: "bool \<Rightarrow> int \<Rightarrow> closing_pc \<Rightarrow> bool" where
  "pc_ok f now (SleepFoundClear d) = (\<not> f)"
| "pc_ok f now (SleepWoken d timed_out) = (timed_out \<longrightarrow> d \<le> now)"
| "pc_ok f now (SleepUnlock d) = (f \<or> d \<le> now)"
| "pc_ok f now (SleepResult d) = (f \<or> d \<le> now)"
| "pc_ok f now (SleepReturned d r) = ((r \<longrightarrow> f) \<and> (r \<or> d \<le> now))"
| "pc_ok f now BeginBroadcast = f"
| "pc_ok f now p = True"

definition mutex_inv :: "closing_sys \<Rightarrow> bool" where
  "mutex_inv s \<longleftrightarrow> (\<forall>t. holds_mutex (pcs s t) \<longleftrightarrow> owner s = Some t)"

definition wake_inv :: "closing_sys \<Rightarrow> bool" where
  "wake_inv s \<longleftrightarrow>
     (flag s \<longrightarrow> (\<exists>t. pcs s t = BeginBroadcast) \<or> (\<forall>t d. pcs s t \<noteq> SleepWait d))"

definition closing_inv :: "closing_sys \<Rightarrow> bool" where
  "closing_inv s \<longleftrightarrow> mutex_inv s \<and> wake_inv s \<and> (\<forall>t. pc_ok (flag s) (clock s) (pcs s t))"

lemma holds_mutex_wake [simp]: "holds_mutex (wake p) = holds_mutex p"
  by (cases p) auto

lemma wake_not_waiting [simp]: "wake p \<noteq> SleepWait d"
  by (cases p) auto

lemma wake_broadcast [simp]: "wake p = BeginBroadcast \<longleftrightarrow> p = BeginBroadcast"
  by (cases p) auto

lemma pc_ok_wake: "pc_ok f now p \<Longrightarrow> pc_ok f now (wake p)"
  by (cases p) auto

lemma pc_ok_later: "pc_ok f now p \<Longrightarrow> now \<le> now' \<Longrightarrow> pc_ok f now' p"
  by (cases p) auto

lemma pc_ok_raised: "pc_ok f now p \<Longrightarrow> \<not> holds_mutex p \<Longrightarrow> pc_ok True now p"
  by (cases p) auto

lemma closing_init_inv: "closing_init s \<Longrightarrow> closing_inv s"
  by (simp add: closing_init_def closing_inv_def mutex_inv_def wake_inv_def)

text \<open>Replacing one thread's position, the mutex moving with it or staying.\<close>

lemma mutex_inv_upd:
  "mutex_inv s \<Longrightarrow> holds_mutex p = holds_mutex (pcs s t) \<Longrightarrow>
     mutex_inv (s\<lparr>pcs := (pcs s)(t := p)\<rparr>)"
  by (auto simp: mutex_inv_def)

lemma mutex_inv_all:
  "mutex_inv s \<Longrightarrow> (\<And>u. holds_mutex (f u) = holds_mutex (pcs s u)) \<Longrightarrow> mutex_inv (s\<lparr>pcs := f\<rparr>)"
  by (simp add: mutex_inv_def)

lemma mutex_inv_flag [simp]: "mutex_inv (s\<lparr>flag := b\<rparr>) = mutex_inv s"
  by (simp add: mutex_inv_def)

lemma mutex_inv_take:
  "mutex_inv s \<Longrightarrow> owner s = None \<Longrightarrow> holds_mutex p \<Longrightarrow>
     mutex_inv (s\<lparr>pcs := (pcs s)(t := p), owner := Some t\<rparr>)"
  by (auto simp: mutex_inv_def)

lemma mutex_inv_give:
  "mutex_inv s \<Longrightarrow> holds_mutex (pcs s t) \<Longrightarrow> \<not> holds_mutex p \<Longrightarrow>
     mutex_inv (s\<lparr>pcs := (pcs s)(t := p), owner := None\<rparr>)"
  by (auto simp: mutex_inv_def)

lemma wake_inv_upd:
  "wake_inv s \<Longrightarrow> pcs s t \<noteq> BeginBroadcast \<Longrightarrow> (\<forall>d. p \<noteq> SleepWait d) \<or> \<not> flag s \<Longrightarrow>
     wake_inv (s\<lparr>pcs := (pcs s)(t := p)\<rparr>)"
  unfolding wake_inv_def by simp metis

lemma wake_inv_owner [simp]: "wake_inv (s\<lparr>owner := x\<rparr>) = wake_inv s"
  by (simp add: wake_inv_def)

lemma sleep_step_mutex: "sleep_step t s s' \<Longrightarrow> mutex_inv s \<Longrightarrow> mutex_inv s'"
  by (induction rule: sleep_step.induct)
     (simp_all add: mutex_inv_upd mutex_inv_take mutex_inv_give split: if_split)

lemma begin_step_mutex: "begin_step t s s' \<Longrightarrow> mutex_inv s \<Longrightarrow> mutex_inv s'"
proof (induction rule: begin_step.induct)
  case (begin_broadcast s)
  then show ?case by (intro mutex_inv_all) simp_all
qed (simp_all add: mutex_inv_upd mutex_inv_take mutex_inv_give)

lemma sleep_step_wake:
  "sleep_step t s s' \<Longrightarrow> wake_inv s \<Longrightarrow> \<forall>u. pc_ok (flag s) (clock s) (pcs s u) \<Longrightarrow> wake_inv s'"
proof (induction rule: sleep_step.induct)
  case (sleep_wait s d)
  then have "\<not> flag s" by (metis pc_ok.simps(1))
  with sleep_wait show ?case by (simp add: wake_inv_upd)
qed (simp_all add: wake_inv_upd)

lemma begin_step_wake: "begin_step t s s' \<Longrightarrow> wake_inv s \<Longrightarrow> wake_inv s'"
proof (induction rule: begin_step.induct)
  case (begin_store s)
  then show ?case by (auto simp: wake_inv_def)
next
  case (begin_broadcast s)
  then show ?case by (auto simp: wake_inv_def)
qed (simp_all add: wake_inv_upd)

lemma sleep_step_pcs:
  "sleep_step t s s' \<Longrightarrow> \<forall>u. pc_ok (flag s) (clock s) (pcs s u) \<Longrightarrow>
     \<forall>u. pc_ok (flag s') (clock s') (pcs s' u)"
  by (induction rule: sleep_step.induct) (auto split: if_split dest: spec [of _ t])

lemma begin_step_pcs:
  assumes "begin_step t s s'" and "mutex_inv s" and "\<forall>u. pc_ok (flag s) (clock s) (pcs s u)"
  shows "\<forall>u. pc_ok (flag s') (clock s') (pcs s' u)"
  using assms
proof (induction rule: begin_step.induct)
  case (begin_store s)
  then have "\<not> holds_mutex (pcs s u)" if "u \<noteq> t" for u
    using that unfolding mutex_inv_def by (metis holds_mutex.simps(4) option.inject)
  with begin_store have "pc_ok True (clock s) (pcs s u)" if "u \<noteq> t" for u
    using that by (blast intro: pc_ok_raised)
  then show ?case by simp
qed (auto intro: pc_ok_wake)

lemma sleep_step_inv: "sleep_step t s s' \<Longrightarrow> closing_inv s \<Longrightarrow> closing_inv s'"
  unfolding closing_inv_def by (metis sleep_step_mutex sleep_step_wake sleep_step_pcs)

lemma begin_step_inv: "begin_step t s s' \<Longrightarrow> closing_inv s \<Longrightarrow> closing_inv s'"
  unfolding closing_inv_def by (metis begin_step_mutex begin_step_wake begin_step_pcs)

lemma closing_step_inv: "closing_step s s' \<Longrightarrow> closing_inv s \<Longrightarrow> closing_inv s'"
proof (induction rule: closing_step.induct)
  case (closing_tick s now)
  then show ?case by (auto simp: closing_inv_def wake_inv_def mutex_inv_def intro: pc_ok_later)
next
  case (closing_reset_idle s)
  then show ?case by (auto simp: closing_inv_def wake_inv_def mutex_inv_def)
qed (auto intro: sleep_step_inv begin_step_inv)

interpretation closing_protocol: invariant_system closing_init closing_step closing_inv
  by unfold_locales (auto intro: closing_init_inv closing_step_inv)


section \<open>What the protocol guarantees\<close>

abbreviation closing_reachable :: "closing_sys \<Rightarrow> bool" where
  "closing_reachable \<equiv> reach closing_init closing_step"

text \<open>
  C20. No wake-up is lost. Once the flag is raised, a thread can still be waiting in
  \<open>closing_sleep\<close> only while the thread that raised it holds the mutex and is just about to
  broadcast; and no thread that found the flag clear is still on its way to waiting.
\<close>

theorem no_lost_wakeup:
  assumes "closing_reachable s" and "flag s"
  shows "(pcs s t = SleepWait d \<longrightarrow> (\<exists>u. pcs s u = BeginBroadcast \<and> owner s = Some u))
         \<and> pcs s t \<noteq> SleepFoundClear d"
proof -
  from assms(1) have inv: "closing_inv s" by (rule closing_protocol.reachable_inv)
  then have "pc_ok (flag s) (clock s) (pcs s t)" by (simp add: closing_inv_def)
  with assms(2) have "pcs s t \<noteq> SleepFoundClear d" by auto
  moreover have "\<exists>u. pcs s u = BeginBroadcast \<and> owner s = Some u" if "pcs s t = SleepWait d"
  proof -
    from inv assms(2) that obtain u where u: "pcs s u = BeginBroadcast"
      unfolding closing_inv_def wake_inv_def by metis
    with inv have "owner s = Some u"
      unfolding closing_inv_def mutex_inv_def by (metis holds_mutex.simps(5))
    with u show ?thesis by blast
  qed
  ultimately show ?thesis by blast
qed

text \<open>
  \<open>closing_sleep\<close> returns for a reason: what it returns says whether the module is
  closing, and when it returns zero the deadline it computed at the call has passed - no
  spurious wake-up and no other thread's signal cuts the wait short.
\<close>

theorem sleep_returns_for_a_reason:
  assumes "closing_reachable s" and "pcs s t = SleepReturned deadline r"
  shows "(r \<longrightarrow> flag s) \<and> (\<not> r \<longrightarrow> deadline \<le> clock s)"
proof -
  from assms(1) have "pc_ok (flag s) (clock s) (pcs s t)"
    by (auto dest: closing_protocol.reachable_inv simp: closing_inv_def)
  with assms(2) show ?thesis by auto
qed

text \<open>How many more steps of its own a thread in \<open>closing_sleep\<close> needs once the flag is up.\<close>

fun sleep_rank :: "closing_pc \<Rightarrow> nat" where
  "sleep_rank (SleepFoundClear d) = 7"
| "sleep_rank (SleepWait d) = 6"
| "sleep_rank (SleepLock d) = 5"
| "sleep_rank (SleepWoken d x) = 5"
| "sleep_rank (SleepTest d) = 4"
| "sleep_rank (SleepUnlock d) = 3"
| "sleep_rank (SleepResult d) = 2"
| "sleep_rank (SleepReturned d r) = 1"
| "sleep_rank p = 0"

text \<open>
  The wait ends promptly. With the flag raised, every step a thread takes inside
  \<open>closing_sleep\<close> brings it strictly closer to returning, from wherever it was at the
  moment the flag went up, and at most five steps separate it from returning: it never
  goes back to waiting.
\<close>

theorem sleep_ends_after_signal:
  assumes "closing_reachable s" and "flag s" and "sleep_step t s s'"
    and "1 < sleep_rank (pcs s t)"
  shows "sleep_rank (pcs s' t) < sleep_rank (pcs s t) \<and> 1 \<le> sleep_rank (pcs s' t)
         \<and> sleep_rank (pcs s t) \<le> 6"
proof -
  from assms(1,2) have "\<forall>d. pcs s t \<noteq> SleepFoundClear d"
    using closing_protocol.reachable_inv [of s] by (auto simp: closing_inv_def dest: spec [of _ t])
  with assms(3,2,4) show ?thesis by (induction rule: sleep_step.induct) (auto split: if_split)
qed

lemma holder_moves:
  assumes "closing_inv s" and "owner s = Some t \<or> owner s = None \<and> pcs s t \<noteq> Outside"
  shows "\<exists>s'. sleep_step t s s' \<or> begin_step t s s'"
proof -
  from assms(1) have h: "holds_mutex (pcs s t) \<longleftrightarrow> owner s = Some t"
    by (simp add: closing_inv_def mutex_inv_def)
  show ?thesis
  proof (cases "pcs s t")
    case (SleepTest d)
    then show ?thesis by (cases "flag s") (blast intro: sleep_step.intros)+
  qed (use assms h in \<open>auto intro: sleep_step.intros begin_step.intros\<close>)
qed

text \<open>
  The mutex blocks nobody for good. The thread that holds it always has its next step
  enabled, whatever the flag and the clock are; and when the mutex is free, so has every
  thread inside \<open>closing_sleep\<close>, waiting or not, and every thread inside \<open>closing_begin\<close>.
\<close>

theorem closing_progress:
  assumes "closing_reachable s"
    and "owner s = Some t \<or> owner s = None \<and> pcs s t \<noteq> Outside"
  shows "\<exists>s'. sleep_step t s s' \<or> begin_step t s s'"
  by (rule holder_moves [OF closing_protocol.reachable_inv [OF assms(1)] assms(2)])

section \<open>Witnesses\<close>

text \<open>
  A run of two threads: thread 0 sleeps five seconds and waits, thread 1 raises the flag
  meanwhile, and thread 0 returns at once.
\<close>

definition demo_at :: "bool \<Rightarrow> nat option \<Rightarrow> closing_pc \<Rightarrow> closing_pc \<Rightarrow> closing_sys" where
  "demo_at f own p q =
     \<lparr>flag = f, clock = 0, owner = own, pcs = (\<lambda>_. Outside)(0 := p, 1 := q)\<rparr>"

lemma demo_upd [simp]:
  "flag (demo_at f own p q) = f" "clock (demo_at f own p q) = 0" "owner (demo_at f own p q) = own"
  "pcs (demo_at f own p q) 0 = p" "pcs (demo_at f own p q) (Suc 0) = q"
  "demo_at f own p q\<lparr>pcs := (pcs (demo_at f own p q))(0 := p')\<rparr> = demo_at f own p' q"
  "demo_at f own p q\<lparr>pcs := (pcs (demo_at f own p q))(Suc 0 := q')\<rparr> = demo_at f own p q'"
  "demo_at f own p q\<lparr>owner := own'\<rparr> = demo_at f own' p q"
  "demo_at f own p q\<lparr>flag := f'\<rparr> = demo_at f' own p q"
  "demo_at f own p q\<lparr>pcs := (\<lambda>u. wake (pcs (demo_at f own p q) u))(Suc 0 := q')\<rparr> =
     demo_at f own (wake p) q'"
  by (auto simp: demo_at_def)

lemma demo_start: "closing_reachable (demo_at False None Outside Outside)"
  by (rule reach_init) (simp add: closing_init_def demo_at_def)

lemma by_sleep: "closing_reachable s \<Longrightarrow> sleep_step t s s' \<Longrightarrow> closing_reachable s'"
  by (auto intro: reach_step closing_step.closing_sleep)

lemma by_begin: "closing_reachable s \<Longrightarrow> begin_step t s s' \<Longrightarrow> closing_reachable s'"
  by (auto intro: reach_step closing_step.closing_begin_by)

lemma demo_waiting: "closing_reachable (demo_at True (Some 1) (SleepWait 5) BeginBroadcast)"
proof -
  note demo_start
  from by_sleep [OF this sleep_call [where t = 0 and seconds = 5]]
  have "closing_reachable (demo_at False None (SleepLock 5) Outside)" by simp
  from by_sleep [OF this sleep_lock [where t = 0]]
  have "closing_reachable (demo_at False (Some 0) (SleepTest 5) Outside)" by simp
  from by_sleep [OF this sleep_test_clear [where t = 0]]
  have "closing_reachable (demo_at False (Some 0) (SleepFoundClear 5) Outside)" by simp
  from by_sleep [OF this sleep_wait [where t = 0]]
  have "closing_reachable (demo_at False None (SleepWait 5) Outside)" by simp
  from by_begin [OF this begin_call [where t = 1]]
  have "closing_reachable (demo_at False None (SleepWait 5) BeginLock)" by simp
  from by_begin [OF this begin_lock [where t = 1]]
  have "closing_reachable (demo_at False (Some 1) (SleepWait 5) BeginStore)" by simp
  from by_begin [OF this begin_store [where t = 1]]
  show ?thesis by simp
qed

lemma demo_returned: "closing_reachable (demo_at True None (SleepReturned 5 True) Outside)"
proof -
  from by_begin [OF demo_waiting begin_broadcast [where t = 1]]
  have "closing_reachable (demo_at True (Some 1) (SleepWoken 5 False) BeginUnlock)" by simp
  from by_begin [OF this begin_unlock [where t = 1]]
  have "closing_reachable (demo_at True None (SleepWoken 5 False) Outside)" by simp
  from by_sleep [OF this sleep_relock [where t = 0 and timed_out = False]]
  have "closing_reachable (demo_at True (Some 0) (SleepTest 5) Outside)" by simp
  from by_sleep [OF this sleep_test_set [where t = 0]]
  have "closing_reachable (demo_at True (Some 0) (SleepUnlock 5) Outside)" by simp
  from by_sleep [OF this sleep_unlock [where t = 0]]
  have "closing_reachable (demo_at True None (SleepResult 5) Outside)" by simp
  from by_sleep [OF this sleep_result [where t = 0]]
  show ?thesis by simp
qed

lemma no_lost_wakeup_witness:
  "\<exists>u. pcs (demo_at True (Some 1) (SleepWait 5) BeginBroadcast) u = BeginBroadcast
       \<and> owner (demo_at True (Some 1) (SleepWait 5) BeginBroadcast) = Some u"
  using no_lost_wakeup [OF demo_waiting, of 0 5] by simp

lemma sleep_returns_for_a_reason_witness:
  "pcs (demo_at True None (SleepReturned 5 True) Outside) 0 = SleepReturned 5 True
   \<and> flag (demo_at True None (SleepReturned 5 True) Outside)"
  using sleep_returns_for_a_reason [OF demo_returned, of 0 5 True] by simp

lemma sleep_ends_after_signal_witness:
  "sleep_rank (pcs (demo_at True (Some 1) (SleepWoken 5 False) BeginBroadcast) 0)
     < sleep_rank (pcs (demo_at True (Some 1) (SleepWait 5) BeginBroadcast) 0)"
proof -
  have "sleep_step 0 (demo_at True (Some 1) (SleepWait 5) BeginBroadcast)
          (demo_at True (Some 1) (SleepWoken 5 False) BeginBroadcast)"
    using sleep_spurious [of "demo_at True (Some 1) (SleepWait 5) BeginBroadcast" 0 5] by simp
  from sleep_ends_after_signal [OF demo_waiting _ this] show ?thesis by simp
qed

lemma closing_progress_witness:
  "\<exists>s'. sleep_step 1 (demo_at True (Some 1) (SleepWait 5) BeginBroadcast) s'
      \<or> begin_step 1 (demo_at True (Some 1) (SleepWait 5) BeginBroadcast) s'"
  by (rule closing_progress [OF demo_waiting]) simp

end
