(* ===== verification/Response_Body.thy ===== *)
theory Response_Body
  imports C_Strings
begin

text \<open>
  \<^verbatim>\<open>pod_list.c\<close>, the libcurl write callback: \<open>ResponseBody\<close> and \<open>write_body\<close>. Sizes are
  \<open>size_t\<close> and wrap; the buffer is the list of the bytes allocated, so that a \<open>memcpy\<close> past
  its end is visible. A result \<open>None\<close> means that the C code has no defined result: the
  doubling loop never ends, or a byte outside the allocation is written.
\<close>

record ResponseBody =
  rb_data :: "char list option"
  rb_size :: size_t
  rb_capacity :: size_t

definition empty_body :: ResponseBody where
  "empty_body = \<lparr>rb_data = None, rb_size = 0, rb_capacity = 0\<rparr>"

text \<open>\<open>while (body->size + chunk + 1 > capacity) capacity *= 2\<close>\<close>

partial_function (option) grow_capacity :: "size_t \<Rightarrow> size_t \<Rightarrow> size_t option" where
  "grow_capacity needed capacity =
     (if needed > capacity then grow_capacity needed (capacity * 2) else Some capacity)"

text \<open>\<open>realloc\<close>: the old bytes stay, the new ones hold anything (\<open>junk\<close>); \<open>None\<close> is failure.\<close>

definition realloc_bytes :: "(nat \<Rightarrow> char) \<Rightarrow> char list option \<Rightarrow> size_t \<Rightarrow> char list" where
  "realloc_bytes junk old capacity =
     (let b = (case old of None \<Rightarrow> [] | Some b \<Rightarrow> b)
      in take (unat capacity) b @ map junk [length b..<unat capacity])"

text \<open>Reading \<open>n\<close> bytes and writing \<open>new\<close> at an offset: outside the object there is no result.\<close>

definition read_bytes :: "char list \<Rightarrow> nat \<Rightarrow> char list option" where
  "read_bytes contents n = (if n \<le> length contents then Some (take n contents) else None)"

definition write_bytes :: "char list option \<Rightarrow> nat \<Rightarrow> char list \<Rightarrow> char list option" where
  "write_bytes buffer pos new =
     (case buffer of
        None \<Rightarrow> None
      | Some b \<Rightarrow> if pos + length new \<le> length b
                  then Some (take pos b @ new @ drop (pos + length new) b) else None)"

definition write_body ::
  "(nat \<Rightarrow> char) \<Rightarrow> bool \<Rightarrow> char list \<Rightarrow> size_t \<Rightarrow> size_t \<Rightarrow> ResponseBody
     \<Rightarrow> (size_t \<times> ResponseBody) option" where
  "write_body junk realloc_ok contents esize nmemb body =
     (let chunk = esize * nmemb in
      do {
        grown \<leftarrow>
          (if rb_size body + chunk + 1 > rb_capacity body
           then do {
             capacity \<leftarrow> grow_capacity (rb_size body + chunk + 1)
                          (if rb_capacity body \<noteq> 0 then rb_capacity body else 16384);
             Some (if realloc_ok
                   then Some (body\<lparr>rb_data := Some (realloc_bytes junk (rb_data body) capacity),
                                   rb_capacity := capacity\<rparr>)
                   else None)
           }
           else Some (Some body));
        (case grown of
           None \<Rightarrow> Some (0, body)
         | Some b \<Rightarrow> do {
             new \<leftarrow> read_bytes contents (unat chunk);
             d1 \<leftarrow> write_bytes (rb_data b) (unat (rb_size b)) new;
             d2 \<leftarrow> write_bytes (Some d1) (unat (rb_size b + chunk)) [ch_nul];
             Some (chunk, b\<lparr>rb_data := Some d2, rb_size := rb_size b + chunk\<rparr>)
           })
      })"

text \<open>The bytes received so far, and the C string the parser is given.\<close>

definition body_bytes :: "ResponseBody \<Rightarrow> char list" where
  "body_bytes b = (case rb_data b of None \<Rightarrow> [] | Some d \<Rightarrow> take (unat (rb_size b)) d)"

definition body_string :: "ResponseBody \<Rightarrow> string option" where
  "body_string b = map_option (takeWhile (\<lambda>c. c \<noteq> ch_nul)) (rb_data b)"

text \<open>
  The invariant of the buffer: the allocation has \<open>capacity\<close> bytes, the bytes received and
  the terminating NUL lie inside it; or nothing was allocated yet.
\<close>

definition body_ok :: "ResponseBody \<Rightarrow> bool" where
  "body_ok b \<longleftrightarrow>
     (case rb_data b of
        None \<Rightarrow> rb_size b = 0 \<and> rb_capacity b = 0
      | Some d \<Rightarrow> length d = unat (rb_capacity b) \<and> unat (rb_size b) < length d
          \<and> d ! unat (rb_size b) = ch_nul)"

lemma empty_body_ok [simp]: "body_ok empty_body" "body_bytes empty_body = []"
  by (simp_all add: empty_body_def body_ok_def body_bytes_def)

section \<open>The doubling loop\<close>

lemma unat_double: "unat c < 2 ^ 63 \<Longrightarrow> unat (c * 2 :: size_t) = 2 * unat c"
  by (simp add: unat_word_ariths)

text \<open>
  Up to \<open>2 ^ 63\<close> bytes the loop ends: it returns a capacity that is large enough, and less
  than twice what is needed unless the buffer was already large enough.
\<close>

lemma grow_capacity_ends:
  assumes "unat needed \<le> 2 ^ 63" and "0 < unat capacity"
  shows "\<exists>c. grow_capacity needed capacity = Some c \<and> needed \<le> c
             \<and> (c = capacity \<or> unat c < 2 * unat needed)"
  using assms(2)
proof (induction "unat needed - unat capacity" arbitrary: capacity rule: less_induct)
  case less
  show ?case
  proof (cases "needed > capacity")
    case False
    then show ?thesis by (subst grow_capacity.simps) simp
  next
    case True
    then have lt: "unat capacity < unat needed" by (simp add: word_less_nat_alt)
    with assms(1) have d: "unat (capacity * 2) = 2 * unat capacity" by (intro unat_double) simp
    with lt less.prems have "unat needed - unat (capacity * 2) < unat needed - unat capacity"
      and "0 < unat (capacity * 2)" by auto
    from less.hyps [OF this] obtain c where c: "grow_capacity needed (capacity * 2) = Some c"
      "needed \<le> c" "c = capacity * 2 \<or> unat c < 2 * unat needed" by blast
    with True d lt show ?thesis by (subst grow_capacity.simps) auto
  qed
qed

text \<open>Past \<open>2 ^ 63\<close> the capacity wraps to 0 and the loop never ends.\<close>

lemma grow_capacity_zero: "0 < needed \<Longrightarrow> grow_capacity needed 0 = None"
proof (rule ccontr)
  assume pos: "0 < needed" and "grow_capacity needed 0 \<noteq> None"
  then obtain r where r: "grow_capacity needed 0 = Some r" by blast
  have "capacity = 0 \<longrightarrow> needed = 0" if "grow_capacity needed capacity = Some r" for needed capacity r
  proof (rule grow_capacity.raw_induct [where P = "\<lambda>n c r. c = 0 \<longrightarrow> n = 0", OF _ that])
    fix f :: "size_t \<Rightarrow> size_t \<Rightarrow> size_t option" and n c r
    assume "\<And>n c r. f n c = Some r \<Longrightarrow> c = 0 \<longrightarrow> n = 0"
      and "(if n > c then f n (c * 2) else Some c) = Some r"
    then show "c = 0 \<longrightarrow> n = 0" by (auto simp: word_gt_0 split: if_splits)
  qed
  from this [OF r] pos show False by simp
qed

section \<open>One chunk\<close>

lemma unat_plus: "unat a + unat b < 2 ^ 64 \<Longrightarrow> unat (a + b :: size_t) = unat a + unat b"
  by (simp add: unat_word_ariths)

lemma unat_times: "unat a * unat b < 2 ^ 64 \<Longrightarrow> unat (a * b :: size_t) = unat a * unat b"
  by (simp add: unat_word_ariths)

lemma length_realloc [simp]: "length (realloc_bytes junk old c) = unat c"
  by (auto simp: realloc_bytes_def Let_def split: option.split)

lemma take_realloc:
  "n \<le> unat c \<Longrightarrow> n \<le> length b \<Longrightarrow> take n (realloc_bytes junk (Some b) c) = take n b"
  by (simp add: realloc_bytes_def min_def)

text \<open>The copy and the terminator, once the buffer is large enough.\<close>

lemma store_chunk:
  assumes len: "length d = unat cap" and fits: "n + length contents < length d"
  obtains d1 d2 where
    "write_bytes (Some d) n contents = Some d1"
    "write_bytes (Some d1) (n + length contents) [ch_nul] = Some d2"
    "length d2 = unat cap" "d2 ! (n + length contents) = ch_nul"
    "take (n + length contents) d2 = take n d @ contents"
proof
  let ?d1 = "take n d @ contents @ drop (n + length contents) d"
  let ?d2 = "take (n + length contents) ?d1 @ [ch_nul] @ drop (n + length contents + 1) ?d1"
  show "write_bytes (Some d) n contents = Some ?d1" using fits by (simp add: write_bytes_def)
  show "write_bytes (Some ?d1) (n + length contents) [ch_nul] = Some ?d2"
    using fits by (simp add: write_bytes_def)
  show "length ?d2 = unat cap" using fits len by simp
  show "?d2 ! (n + length contents) = ch_nul" using fits by (simp add: nth_append)
  show "take (n + length contents) ?d2 = take n d @ contents" using fits by simp
qed

definition body_fits :: "ResponseBody \<Rightarrow> nat \<Rightarrow> bool" where
  "body_fits b n \<longleftrightarrow> unat (rb_size b) + n < unat (rb_capacity b)"

text \<open>The buffer that the chunk is copied into, after the growth if there was one.\<close>

lemma grown_buffer:
  assumes ok: "body_ok b" and small: "unat (rb_size b) + n + 1 \<le> 2 ^ 63"
    and needed: "unat needed = unat (rb_size b) + n + 1"
    and c: "grow_capacity needed (if rb_capacity b \<noteq> 0 then rb_capacity b else 16384) = Some c"
    and le: "needed \<le> c"
  shows "unat (rb_size b) + n < length (realloc_bytes junk (rb_data b) c)"
    and "take (unat (rb_size b)) (realloc_bytes junk (rb_data b) c) = body_bytes b"
proof -
  from le needed have "unat (rb_size b) + n + 1 \<le> unat c" by (simp add: word_le_nat_alt)
  then show "unat (rb_size b) + n < length (realloc_bytes junk (rb_data b) c)" by simp
  show "take (unat (rb_size b)) (realloc_bytes junk (rb_data b) c) = body_bytes b"
  proof (cases "rb_data b")
    case None
    with ok show ?thesis by (simp add: body_ok_def body_bytes_def)
  next
    case (Some d)
    with ok \<open>_ \<le> unat c\<close> show ?thesis
      by (simp add: body_ok_def body_bytes_def take_realloc)
  qed
qed

lemma write_body_stores:
  assumes ok: "body_ok b" and len: "unat esize * unat nmemb = length contents"
    and small: "unat (rb_size b) + length contents + 1 \<le> 2 ^ 63"
    and room: "body_fits b (length contents) \<or> realloc_ok"
  shows "\<exists>b'. write_body junk realloc_ok contents esize nmemb b = Some (esize * nmemb, b')
     \<and> body_ok b' \<and> body_bytes b' = body_bytes b @ contents \<and> rb_data b' \<noteq> None"
proof -
  let ?n = "unat (rb_size b)" and ?k = "length contents" and ?chunk = "esize * nmemb"
  have chunk: "unat ?chunk = ?k" using small len unat_times [of esize nmemb] by simp
  have sz: "unat (rb_size b + ?chunk) = ?n + ?k"
    using small chunk unat_plus [of "rb_size b" ?chunk] by simp
  have need: "unat (rb_size b + ?chunk + 1) = ?n + ?k + 1"
    using small sz unat_plus [of "rb_size b + ?chunk" 1] by simp
  have big: "rb_size b + ?chunk + 1 > rb_capacity b \<longleftrightarrow> \<not> body_fits b ?k"
    using need by (auto simp: body_fits_def word_less_nat_alt)
  show ?thesis
  proof (cases "body_fits b ?k")
    case True
    then obtain d where d: "rb_data b = Some d" "length d = unat (rb_capacity b)"
      using ok by (auto simp: body_ok_def body_fits_def split: option.splits)
    from True d(2) have "?n + ?k < length d" by (simp add: body_fits_def)
    from store_chunk [OF d(2) this] obtain d1 d2 where s:
      "write_bytes (Some d) ?n contents = Some d1"
      "write_bytes (Some d1) (?n + ?k) [ch_nul] = Some d2" "length d2 = unat (rb_capacity b)" "d2 ! (?n + ?k) = ch_nul"
      "take (?n + ?k) d2 = take ?n d @ contents" .
    then show ?thesis
      using True d big chunk sz \<open>?n + ?k < length d\<close>
      by (auto simp: write_body_def Let_def read_bytes_def body_ok_def body_bytes_def)
  next
    case False
    with room have r: realloc_ok by simp
    have "0 < unat (if rb_capacity b \<noteq> 0 then rb_capacity b else 16384)"
      by (auto simp: unat_gt_0)
    moreover from need small have "unat (rb_size b + ?chunk + 1) \<le> 2 ^ 63" by simp
    ultimately obtain c where
      c: "grow_capacity (rb_size b + ?chunk + 1)
            (if rb_capacity b \<noteq> 0 then rb_capacity b else 16384) = Some c"
        "rb_size b + ?chunk + 1 \<le> c" using grow_capacity_ends by blast
    note g = grown_buffer [OF ok small need c, of junk]
    from store_chunk [OF length_realloc g(1)] obtain d1 d2 where s:
      "write_bytes (Some (realloc_bytes junk (rb_data b) c)) ?n contents = Some d1"
      "write_bytes (Some d1) (?n + ?k) [ch_nul] = Some d2"
      "length d2 = unat c" "d2 ! (?n + ?k) = ch_nul"
      "take (?n + ?k) d2 = take ?n (realloc_bytes junk (rb_data b) c) @ contents" .
    from g(1) have "?n + ?k < unat c" by simp
    with s g(2) r False big chunk sz c(1) show ?thesis
      by (auto simp: write_body_def Let_def read_bytes_def body_ok_def body_bytes_def)
  qed
qed

lemma write_body_refuses:
  assumes len: "unat esize * unat nmemb = length contents"
    and small: "unat (rb_size b) + length contents + 1 \<le> 2 ^ 63"
    and room: "\<not> body_fits b (length contents)"
  shows "write_body junk False contents esize nmemb b = Some (0, b)"
proof -
  let ?chunk = "esize * nmemb"
  have chunk: "unat ?chunk = length contents" using small len unat_times [of esize nmemb] by simp
  have need: "unat (rb_size b + ?chunk + 1) = unat (rb_size b) + length contents + 1"
    using small chunk unat_plus [of "rb_size b" ?chunk] unat_plus [of "rb_size b + ?chunk" 1]
    by simp
  then have big: "rb_size b + ?chunk + 1 > rb_capacity b"
    using room by (auto simp: body_fits_def word_less_nat_alt)
  have "0 < unat (if rb_capacity b \<noteq> 0 then rb_capacity b else 16384)"
    by (auto simp: unat_gt_0)
  moreover from need small have "unat (rb_size b + ?chunk + 1) \<le> 2 ^ 63" by simp
  ultimately obtain c where "grow_capacity (rb_size b + ?chunk + 1)
      (if rb_capacity b \<noteq> 0 then rb_capacity b else 16384) = Some c"
    using grow_capacity_ends by blast
  with big show ?thesis by (simp add: write_body_def Let_def)
qed

text \<open>
  C21. One call of the write callback, up to \<open>2 ^ 63\<close> bytes in total: it returns (the
  doubling loop ends), it never touches a byte outside the allocation, and either it appends
  exactly the chunk and a terminating NUL and reports the whole chunk taken, or - when the
  buffer must grow and \<open>realloc\<close> fails - it reports 0 and leaves the body as it was.
\<close>

theorem write_body_appends:
  assumes "body_ok b" and "unat esize * unat nmemb = length contents"
    and "unat (rb_size b) + length contents + 1 \<le> 2 ^ 63"
  shows "\<exists>n b'. write_body junk realloc_ok contents esize nmemb b = Some (n, b') \<and> body_ok b' \<and>
     (if body_fits b (length contents) \<or> realloc_ok
      then n = esize * nmemb \<and> body_bytes b' = body_bytes b @ contents
      else n = 0 \<and> b' = b)"
proof (cases "body_fits b (length contents) \<or> realloc_ok")
  case True
  with write_body_stores [OF assms True] show ?thesis by fastforce
next
  case False
  then show ?thesis using write_body_refuses [OF assms(2,3)] assms(1) by auto
qed

lemma write_body_appends_witness:
  "\<exists>n b'. write_body (\<lambda>_. ch_nul) True ''hi'' 1 2 empty_body = Some (n, b') \<and> body_ok b'
     \<and> n = 2 \<and> body_bytes b' = ''hi''"
  using write_body_appends [of empty_body 1 2 "''hi''" "\<lambda>_. ch_nul" True]
  by (simp add: empty_body_def body_ok_def body_bytes_def)

section \<open>A whole response\<close>

text \<open>
  A transfer that libcurl delivers in the given chunks: one call of the callback for each
  (the element size is always 1), and the end of the transfer when one is not taken whole.
\<close>

type_synonym write_callback =
  "char list \<Rightarrow> size_t \<Rightarrow> size_t \<Rightarrow> ResponseBody \<Rightarrow> (size_t \<times> ResponseBody) option"

fun deliver :: "write_callback \<Rightarrow> char list list \<Rightarrow> ResponseBody \<Rightarrow> ResponseBody option" where
  "deliver callback [] b = Some b"
| "deliver callback (c # cs) b =
     (case callback c 1 (of_nat (length c)) b of
        Some (n, b') \<Rightarrow> if n = of_nat (length c) then deliver callback cs b' else None
      | None \<Rightarrow> None)"

definition receive :: "(nat \<Rightarrow> char) \<Rightarrow> char list list \<Rightarrow> ResponseBody \<Rightarrow> ResponseBody option" where
  "receive junk = deliver (write_body junk True)"

lemma body_size: "body_ok b \<Longrightarrow> length (body_bytes b) = unat (rb_size b)"
  by (auto simp: body_ok_def body_bytes_def split: option.splits)

lemma receive_all:
  assumes "body_ok b" and "unat (rb_size b) + length (concat cs) < 2 ^ 63"
  shows "\<exists>b'. receive junk cs b = Some b' \<and> body_ok b' \<and> body_bytes b' = body_bytes b @ concat cs
           \<and> (cs \<noteq> [] \<or> rb_data b \<noteq> None \<longrightarrow> rb_data b' \<noteq> None)"
  using assms
proof (induction cs arbitrary: b)
  case Nil
  then show ?case by (simp add: receive_def)
next
  case (Cons c cs)
  from Cons.prems have small: "unat (rb_size b) + length c + 1 \<le> 2 ^ 63" by simp
  then have "length c < 2 ^ 64" by simp
  then have "unat (1 :: size_t) * unat (of_nat (length c) :: size_t) = length c"
    by (simp add: unat_of_nat)
  from write_body_stores [OF Cons.prems(1) this small, of True junk] obtain b1 where
    b1: "write_body junk True c 1 (of_nat (length c)) b = Some (of_nat (length c), b1)"
      "body_ok b1" "body_bytes b1 = body_bytes b @ c" "rb_data b1 \<noteq> None" by auto
  have "unat (rb_size b1) = unat (rb_size b) + length c"
    using body_size [OF b1(2)] body_size [OF Cons.prems(1)] b1(3) by simp
  with Cons.prems(2) have "unat (rb_size b1) + length (concat cs) < 2 ^ 63" by simp
  from Cons.IH [OF b1(2) this] b1 show ?case by (auto simp: receive_def)
qed

text \<open>The string handed to the parser ends at the first NUL, at the latest at the terminator.\<close>

lemma body_string_bytes:
  assumes "body_ok b" and "rb_data b \<noteq> None"
  shows "body_string b = Some (takeWhile (\<lambda>c. c \<noteq> ch_nul) (body_bytes b))"
proof -
  from assms obtain d where d: "rb_data b = Some d" "unat (rb_size b) < length d"
    "d ! unat (rb_size b) = ch_nul" by (auto simp: body_ok_def)
  then have "takeWhile (\<lambda>c. c \<noteq> ch_nul) d = takeWhile (\<lambda>c. c \<noteq> ch_nul) (take (unat (rb_size b)) d)"
    by (intro takeWhile_until) simp_all
  with d(1) show ?thesis by (simp add: body_string_def body_bytes_def)
qed

text \<open>
  A response of fewer than \<open>2 ^ 63\<close> bytes is received as it was sent, however the
  transfer was cut into chunks: the body holds the concatenation of the chunks.
\<close>

theorem receive_concat:
  assumes "body_ok b" and "unat (rb_size b) + length (concat cs) < 2 ^ 63"
  shows "\<exists>b'. receive junk cs b = Some b' \<and> body_ok b' \<and> body_bytes b' = body_bytes b @ concat cs"
  using receive_all [OF assms] by blast

lemma receive_concat_witness:
  "\<exists>b'. receive (\<lambda>_. ch_nul) [''ab'', [], ''c''] empty_body = Some b' \<and> body_ok b'
     \<and> body_bytes b' = ''abc''"
  using receive_concat [of empty_body "[''ab'', [], ''c'']" "\<lambda>_. ch_nul"]
  by (simp add: empty_body_def body_ok_def body_bytes_def)

end
