(* ===== verification/Pod_Request.thy ===== *)
theory Pod_Request
  imports Settings
begin

text \<open>
  \<^verbatim>\<open>pod_list.c\<close>, what goes into a request: reading the service account files
  (\<open>read_trimmed\<close>), choosing and checking the namespace (\<open>resolve_namespace\<close>,
  \<open>is_valid_namespace\<close>), and the URL and header built from them. A file is the list of
  its bytes, or \<open>None\<close> when \<open>fopen\<close> fails; it may hold NUL bytes.
\<close>

type_synonym c_file = "char list option"

definition MAX_TOKEN_SIZE :: nat where "MAX_TOKEN_SIZE = 8192"
definition MAX_NAMESPACE_SIZE :: nat where "MAX_NAMESPACE_SIZE = 64"

definition SERVICE_ACCOUNT_DIR :: string where
  "SERVICE_ACCOUNT_DIR = ''/var/run/secrets/kubernetes.io/serviceaccount''"

definition PODS_QUERY :: string where
  "PODS_QUERY = ''?resourceVersion=0''
     @ ''&fieldSelector=status.phase%21%3DSucceeded%2Cstatus.phase%21%3DFailed''"

section \<open>read_trimmed\<close>

definition trim_set :: "char list" where "trim_set = [CHR '' '', ch_tab, ch_cr, ch_nl]"

text \<open>\<open>strchr (" \t\r\n", c)\<close> is not \<open>NULL\<close>: the terminating NUL of the set counts too.\<close>

definition strchr_trim :: "char \<Rightarrow> bool" where
  "strchr_trim c \<longleftrightarrow> c \<in> set trim_set \<or> c = ch_nul"

text \<open>The loop that shortens \<open>len\<close> while the last byte is one of them.\<close>

fun trim_len :: "char list \<Rightarrow> nat \<Rightarrow> nat" where
  "trim_len buf 0 = 0"
| "trim_len buf (Suc len) = (if strchr_trim (buf ! len) then trim_len buf len else Suc len)"

definition c_string_of :: "char list \<Rightarrow> string" where
  "c_string_of b = takeWhile (\<lambda>c. c \<noteq> ch_nul) b"

definition read_trimmed :: "c_file \<Rightarrow> nat \<Rightarrow> string option" where
  "read_trimmed fl bsize =
     (case fl of
        None \<Rightarrow> None
      | Some content \<Rightarrow>
          (let len = min bsize (length content)
           in if len = bsize then None
              else (let buf = take (trim_len content len) content;
                        lead = strspn (c_string_of buf) trim_set;
                        result = c_string_of (drop lead buf)
                    in if result = [] then None else Some result)))"

section \<open>The namespace\<close>

definition namespace_chars :: string where
  "namespace_chars = ''abcdefghijklmnopqrstuvwxyz0123456789-''"

definition is_valid_namespace :: "string \<Rightarrow> bool" where
  "is_valid_namespace name \<longleftrightarrow>
     (let len = length name
      in if len = 0 \<or> len \<ge> MAX_NAMESPACE_SIZE then False
         else strspn name namespace_chars = len
              \<and> name ! 0 \<noteq> CHR ''-'' \<and> name ! (len - 1) \<noteq> CHR ''-'')"

definition no_namespace_error :: string where
  "no_namespace_error = ''DEPLOYMENT_ENV is not set and '' @ SERVICE_ACCOUNT_DIR
     @ ''/namespace is not readable''"

definition bad_namespace_error :: "string \<Rightarrow> string" where
  "bad_namespace_error buf = [CHR 0x27] @ buf @ [CHR 0x27] @ '' is not a valid namespace name''"

definition resolve_namespace :: "environ \<Rightarrow> c_file \<Rightarrow> nat \<Rightarrow> nat \<Rightarrow> string + string" where
  "resolve_namespace getenv namespace_file bsize error_size =
     (let chosen =
        (case getenv ''DEPLOYMENT_ENV'' of
           Some env \<Rightarrow> if env \<noteq> [] then Some (snprintf bsize env) else read_trimmed namespace_file bsize
         | None \<Rightarrow> read_trimmed namespace_file bsize)
      in case chosen of
           None \<Rightarrow> Inl (snprintf error_size no_namespace_error)
         | Some buf \<Rightarrow>
             if \<not> is_valid_namespace buf then Inl (snprintf error_size (bad_namespace_error buf))
             else Inr buf)"

section \<open>The URL and the header\<close>

definition URL_SIZE :: nat where "URL_SIZE = 256"

definition full_url :: "string \<Rightarrow> string" where
  "full_url ns = ''https://kubernetes.default.svc/api/v1/namespaces/'' @ ns @ ''/pods'' @ PODS_QUERY"

definition request_url :: "string \<Rightarrow> string" where
  "request_url ns = snprintf URL_SIZE (full_url ns)"

definition auth_header :: "string \<Rightarrow> string" where
  "auth_header token = snprintf (MAX_TOKEN_SIZE + 32) (''Authorization: Bearer '' @ token)"

section \<open>What read_trimmed returns\<close>

lemma trim_len_le: "trim_len buf n \<le> n"
  by (induction n) (auto simp: le_SucI)

lemma trim_len_spec:
  "n \<le> length buf \<Longrightarrow> \<forall>i. trim_len buf n \<le> i \<and> i < n \<longrightarrow> strchr_trim (buf ! i)"
  by (induction n) (auto simp: less_Suc_eq)

lemma trim_len_stop: "0 < trim_len buf n \<Longrightarrow> \<not> strchr_trim (buf ! (trim_len buf n - 1))"
  by (induction n) (auto split: if_splits)

lemma read_trimmed_length: "read_trimmed fl bsize = Some s \<Longrightarrow> length s < bsize \<and> s \<noteq> []"
proof -
  assume a: "read_trimmed fl bsize = Some s"
  then obtain content where "fl = Some content" by (auto simp: read_trimmed_def split: option.splits)
  with a have s: "length content < bsize"
    "s = c_string_of (drop (strspn (c_string_of (take (trim_len content (length content)) content)) trim_set)
      (take (trim_len content (length content)) content))" "s \<noteq> []"
    by (auto simp: read_trimmed_def Let_def min_def split: if_splits)
  have "length s \<le> length content" unfolding s(2) c_string_of_def
    by (rule order.trans [OF length_takeWhile_le]) simp
  with s show ?thesis by simp
qed

lemma read_trimmed_no_nul: "read_trimmed fl bsize = Some s \<Longrightarrow> ch_nul \<notin> set s"
  by (auto simp: read_trimmed_def Let_def c_string_of_def dest: set_takeWhileD
      split: option.splits if_splits)

text \<open>Trimming a text between blanks, none of it NUL, leaves the text.\<close>

lemma trim_len_blanks:
  assumes "\<forall>c\<in>set w2. strchr_trim c" and "s = [] \<or> \<not> strchr_trim (last s)"
  shows "trim_len (w1 @ s @ w2) (length (s @ w2) + length w1) =
         (if s = [] then trim_len (w1 @ s @ w2) (length w1) else length w1 + length s)"
  using assms(1)
proof (induction w2 rule: rev_induct)
  case Nil
  show ?case
  proof (cases s rule: rev_cases)
    case (snoc ys y)
    with assms(2) show ?thesis by (simp add: nth_append)
  qed simp
next
  case (snoc c w2)
  have eq: "trim_len (xs @ [c]) n = trim_len xs n" if "n \<le> length xs" for xs n
    using that by (induction n) (auto simp: nth_append)
  from snoc.prems have "trim_len (w1 @ s @ w2 @ [c]) (length (s @ w2 @ [c]) + length w1)
      = trim_len (w1 @ s @ w2 @ [c]) (length (s @ w2) + length w1)"
    by (simp add: nth_append)
  also have "\<dots> = trim_len (w1 @ s @ w2) (length (s @ w2) + length w1)"
    using eq [of "length (s @ w2) + length w1" "w1 @ s @ w2"] by simp
  also have "\<dots> = (if s = [] then trim_len (w1 @ s @ w2) (length w1) else length w1 + length s)"
    using snoc by simp
  also have "trim_len (w1 @ s @ w2) (length w1) = trim_len (w1 @ s @ w2 @ [c]) (length w1)"
    using eq [of "length w1" "w1 @ s @ w2"] by simp
  finally show ?case by simp
qed

text \<open>
  Reading a file: a text surrounded by blanks, tabs and line ends that fits the buffer is
  returned without them - in particular a token loses its trailing newline, which would
  break the header - and blanks inside it stay.
\<close>

theorem read_trimmed_trims:
  assumes "\<forall>c\<in>set w1 \<union> set w2. c \<in> set trim_set" and "s \<noteq> []"
    and "hd s \<notin> set trim_set" and "last s \<notin> set trim_set" and "ch_nul \<notin> set s"
  shows "read_trimmed (Some (w1 @ s @ w2)) bsize =
           (if length (w1 @ s @ w2) < bsize then Some s else None)"
proof -
  let ?c = "w1 @ s @ w2"
  have nul: "ch_nul \<notin> set trim_set" by (simp add: trim_set_def ch_defs)
  have lst: "\<not> strchr_trim (last s)"
    using assms(4,5) last_in_set [OF assms(2)] unfolding strchr_trim_def by metis
  have "trim_len ?c (length ?c) = length w1 + length s"
    using trim_len_blanks [of w2 s w1] assms(1,2) lst by (simp add: strchr_trim_def add.commute)
  then have buf: "take (trim_len ?c (length ?c)) ?c = w1 @ s" by simp
  have str: "c_string_of (w1 @ s) = w1 @ s"
    using assms(1,5) nul by (auto simp: c_string_of_def)
  have "takeWhile (\<lambda>c. c \<in> set trim_set) (w1 @ s) = w1"
    using assms(1-3) by (cases s) auto
  then have lead: "strspn (w1 @ s) trim_set = length w1" by (simp add: strspn_def)
  have "c_string_of s = s" using assms(5) by (auto simp: c_string_of_def)
  with buf str lead assms(2) show ?thesis
    by (auto simp: read_trimmed_def Let_def min_def simp del: length_append)
qed

lemma read_trimmed_trims_witness:
  "read_trimmed (Some ([CHR '' ''] @ ''a b'' @ [ch_nl])) 64 = Some ''a b''"
proof -
  have "read_trimmed (Some ([CHR '' ''] @ ''a b'' @ [ch_nl])) 64
        = (if length ([CHR '' ''] @ ''a b'' @ [ch_nl]) < 64 then Some ''a b'' else None)"
    by (rule read_trimmed_trims) (simp_all add: trim_set_def ch_defs)
  then show ?thesis by simp
qed

section \<open>What a request is sent to\<close>

lemma valid_namespace_chars: "is_valid_namespace ns \<Longrightarrow> set ns \<subseteq> set namespace_chars"
  by (auto simp: is_valid_namespace_def Let_def strspn_all split: if_splits)

lemma valid_namespace_length: "is_valid_namespace ns \<Longrightarrow> ns \<noteq> [] \<and> length ns < MAX_NAMESPACE_SIZE"
  by (auto simp: is_valid_namespace_def Let_def split: if_splits)

lemma full_url_fields:
  "full_url ns = join_on CHR ''/'' [''https:'', [], ''kubernetes.default.svc'', ''api'', ''v1'',
     ''namespaces'', ns, ''pods'' @ PODS_QUERY]"
  by (simp add: full_url_def)

lemma full_url_length: "length (full_url ns) = length ns + 141"
  by (simp add: full_url_def PODS_QUERY_def)

lemma resolved_is_valid:
  "resolve_namespace getenv fl n en = Inr ns \<Longrightarrow> is_valid_namespace ns"
  by (auto simp: resolve_namespace_def Let_def split: option.splits if_splits)

lemma accepted_url:
  assumes "resolve_namespace getenv fl n en = Inr ns"
  shows "request_url ns = full_url ns"
proof -
  from assms have "length ns < MAX_NAMESPACE_SIZE"
    by (auto dest!: resolved_is_valid valid_namespace_length)
  then show ?thesis
    unfolding request_url_def
    by (intro snprintf_fits) (simp add: full_url_length URL_SIZE_def MAX_NAMESPACE_SIZE_def)
qed

text \<open>
  C38. A request goes where it should. A namespace that \<open>resolve_namespace\<close> accepts yields a
  URL that fits its buffer whole, and that URL has the namespace as exactly one path segment,
  followed by the pods query: nothing in DEPLOYMENT_ENV can redirect the request, add a
  segment or reach past the namespace.
\<close>

theorem request_url_path:
  assumes "resolve_namespace getenv fl MAX_NAMESPACE_SIZE error_size = Inr ns"
  shows "request_url ns = full_url ns
    \<and> split_on CHR ''/'' (request_url ns) = [''https:'', [], ''kubernetes.default.svc'', ''api'',
         ''v1'', ''namespaces'', ns, ''pods'' @ PODS_QUERY]
    \<and> set ns \<inter> {CHR ''/'', CHR ''?'', CHR ''#'', CHR ''%'', CHR ''&'', CHR '':'', CHR ''@'', CHR ''.''} = {}"
proof -
  from assms have valid: "is_valid_namespace ns" by (rule resolved_is_valid)
  then have chars: "set ns \<subseteq> set namespace_chars" by (rule valid_namespace_chars)
  from assms have "request_url ns = full_url ns" by (rule accepted_url)
  moreover have special: "set ns \<inter> {CHR ''/'', CHR ''?'', CHR ''#'', CHR ''%'', CHR ''&'',
      CHR '':'', CHR ''@'', CHR ''.''} = {}"
    using chars by (auto simp: namespace_chars_def)
  moreover have "split_on CHR ''/'' (full_url ns) = [''https:'', [], ''kubernetes.default.svc'',
      ''api'', ''v1'', ''namespaces'', ns, ''pods'' @ PODS_QUERY]"
    unfolding full_url_fields using special
    by (intro split_join) (auto simp: PODS_QUERY_def)
  ultimately show ?thesis by simp
qed

definition demo_env :: "string \<Rightarrow> string \<Rightarrow> environ" where
  "demo_env name value = (\<lambda>v. if v = name then Some value else None)"

lemma resolve_demo:
  "resolve_namespace (demo_env ''DEPLOYMENT_ENV'' ''prod-1'') None MAX_NAMESPACE_SIZE 512
     = Inr ''prod-1''"
  by (simp add: resolve_namespace_def demo_env_def snprintf_def MAX_NAMESPACE_SIZE_def
      is_valid_namespace_def Let_def strspn_def namespace_chars_def)

lemma request_url_path_witness: "request_url ''prod-1'' = full_url ''prod-1''"
  using request_url_path [OF resolve_demo] by simp

text \<open>
  A valid DEPLOYMENT_ENV is used as it is, whatever the service account says; with
  the variable unset or empty it is the trimmed content of the namespace file that is used,
  and with neither there is an error and no request.
\<close>

theorem resolve_namespace_source:
  "resolve_namespace getenv fl MAX_NAMESPACE_SIZE 512 =
     (case getenv ''DEPLOYMENT_ENV'' of
        Some (c # cs) \<Rightarrow>
          if is_valid_namespace (take 63 (c # cs)) then Inr (take 63 (c # cs))
          else Inl (bad_namespace_error (take 63 (c # cs)))
      | _ \<Rightarrow> (case read_trimmed fl 64 of
                None \<Rightarrow> Inl no_namespace_error
              | Some ns \<Rightarrow> if is_valid_namespace ns then Inr ns else Inl (bad_namespace_error ns)))"
proof -
  have e: "snprintf 512 no_namespace_error = no_namespace_error"
    by (rule snprintf_fits) (simp add: no_namespace_error_def SERVICE_ACCOUNT_DIR_def)
  have b: "snprintf 512 (bad_namespace_error s) = bad_namespace_error s" if "length s < 64" for s
    using that by (intro snprintf_fits) (simp add: bad_namespace_error_def)
  have t: "length (take 63 s) < 64" for s :: string by simp
  show ?thesis
    using read_trimmed_length [of fl 64]
    by (auto simp: resolve_namespace_def Let_def MAX_NAMESPACE_SIZE_def snprintf_def [of 64] e b
        split: option.split list.split)
qed

text \<open>
  C39. A DEPLOYMENT_ENV that is too long for a namespace is not refused: it is cut to 63
  characters first and checked afterwards, so that a name of 64 or more characters whose
  first 63 form a valid label selects that other namespace without any error.
\<close>

theorem long_namespace_is_cut:
  assumes "getenv ''DEPLOYMENT_ENV'' = Some env" and "64 \<le> length env"
    and "is_valid_namespace (take 63 env)"
  shows "\<not> is_valid_namespace env
    \<and> resolve_namespace getenv fl MAX_NAMESPACE_SIZE 512 = Inr (take 63 env) \<and> take 63 env \<noteq> env"
proof -
  have "\<not> is_valid_namespace env"
    using assms(2) valid_namespace_length [of env] by (auto simp: MAX_NAMESPACE_SIZE_def)
  moreover have "env \<noteq> []" using assms(2) by auto
  then have "resolve_namespace getenv fl MAX_NAMESPACE_SIZE 512 = Inr (take 63 env)"
    using assms(1,3) by (simp add: resolve_namespace_def MAX_NAMESPACE_SIZE_def snprintf_def)
  moreover have "length (take 63 env) \<noteq> length env" using assms(2) by simp
  ultimately show ?thesis by metis
qed

lemma long_namespace_is_cut_witness:
  "resolve_namespace (demo_env ''DEPLOYMENT_ENV'' (replicate 70 CHR ''a'')) None
     MAX_NAMESPACE_SIZE 512 = Inr (replicate 63 CHR ''a'')"
proof -
  have v: "is_valid_namespace (take 63 (replicate 70 CHR ''a''))"
    by (simp add: is_valid_namespace_def Let_def MAX_NAMESPACE_SIZE_def strspn_def
        namespace_chars_def)
  show ?thesis
    using long_namespace_is_cut [OF _ _ v, of "demo_env ''DEPLOYMENT_ENV'' (replicate 70 CHR ''a'')" None]
    by (simp add: demo_env_def)
qed

text \<open>The header holds the whole token.\<close>

lemma auth_header_whole:
  "read_trimmed fl MAX_TOKEN_SIZE = Some token \<Longrightarrow> auth_header token = ''Authorization: Bearer '' @ token"
  unfolding auth_header_def
  by (rule snprintf_fits) (auto dest!: read_trimmed_length simp: MAX_TOKEN_SIZE_def)

end
