(* ===== verification/C_Inet.thy ===== *)
theory C_Inet
  imports C_Strings
begin

text \<open>
  \<open>inet_pton\<close> and \<open>inet_ntop\<close> for \<open>AF_INET\<close>: four decimal fields of one to three
  digits and at most 255 each, separated by dots. As both glibc and musl do, a field with
  a superfluous leading zero is refused, so every address has exactly one text.
\<close>

datatype in_addr = In_addr "8 word" "8 word" "8 word" "8 word"

definition INET_ADDRSTRLEN :: nat where "INET_ADDRSTRLEN = 16"

definition octet_ok :: "string \<Rightarrow> bool" where
  "octet_ok f \<longleftrightarrow> f \<noteq> [] \<and> length f \<le> 3 \<and> list_all is_digit f
     \<and> (hd f \<noteq> CHR ''0'' \<or> length f = 1) \<and> decimal f \<le> 255"

definition octet :: "string \<Rightarrow> 8 word" where
  "octet f = word_of_nat (decimal f)"

definition octet_text :: "8 word \<Rightarrow> string" where
  "octet_text w = dec_nat (unat w)"

definition inet_pton :: "string \<Rightarrow> in_addr option" where
  "inet_pton s =
     (case split_on CHR ''.'' s of
        [a, b, c, d] \<Rightarrow>
          if octet_ok a \<and> octet_ok b \<and> octet_ok c \<and> octet_ok d
          then Some (In_addr (octet a) (octet b) (octet c) (octet d)) else None
      | _ \<Rightarrow> None)"

fun inet_ntop :: "in_addr \<Rightarrow> string" where
  "inet_ntop (In_addr a b c d) =
     join_on CHR ''.'' [octet_text a, octet_text b, octet_text c, octet_text d]"

lemma unat_octet_le: "unat (w :: 8 word) \<le> 255"
proof -
  have "unat w < 2 ^ LENGTH(8)" by (rule unsigned_less)
  then show ?thesis by simp
qed

lemma octet_text_digits: "c \<in> set (octet_text w) \<Longrightarrow> is_digit c"
  by (simp add: octet_text_def dec_nat_digits)

lemma octet_text_length: "length (octet_text w) \<le> 3"
  using unat_octet_le [of w] dec_nat_length [of "unat w" 3] by (simp add: octet_text_def)

lemma dec_nat_hd: "0 < n \<Longrightarrow> hd (dec_nat n) \<noteq> CHR ''0''"
proof (induction n rule: dec_nat.induct)
  case (1 n)
  show ?case
  proof (cases "n < 10")
    case True
    with 1 show ?thesis
      by (metis dec_nat.simps digit_char_0 digit_char_props(2) list.sel(1) neq0_conv zero_less_numeral)
  next
    case False
    then have "0 < n div 10" by simp
    with 1 False show ?thesis by (simp add: dec_nat.simps [of n])
  qed
qed

lemma octet_ok_text [simp]: "octet_ok (octet_text w)"
proof -
  have "hd (octet_text w) \<noteq> CHR ''0'' \<or> length (octet_text w) = 1"
    using dec_nat_hd [of "unat w"] by (cases "unat w = 0") (auto simp: octet_text_def dec_nat.simps)
  then show ?thesis
    using octet_text_length [of w] unat_octet_le [of w]
    by (auto simp: octet_ok_def list_all_iff octet_text_digits octet_text_def)
qed

lemma octet_text_inverse [simp]: "octet (octet_text w) = w"
  by (simp add: octet_def octet_text_def)

lemma octet_inverse [simp]: "octet_ok f \<Longrightarrow> octet_text (octet f) = f"
  by (simp add: octet_def octet_text_def octet_ok_def list_all_iff unat_of_nat dec_nat_decimal)

lemma octet_no_dot [simp]: "CHR ''.'' \<notin> set (octet_text w)"
  by (auto dest: octet_text_digits)

lemma inet_pton_ntop [simp]: "inet_pton (inet_ntop a) = Some a"
  by (cases a) (simp add: inet_pton_def split_join del: join_on.simps)

lemma inet_ntop_pton:
  assumes "inet_pton s = Some a"
  shows "inet_ntop a = s"
proof -
  from assms obtain w x y z where f: "split_on CHR ''.'' s = [w, x, y, z]"
    and ok: "octet_ok w" "octet_ok x" "octet_ok y" "octet_ok z"
    and a: "a = In_addr (octet w) (octet x) (octet y) (octet z)"
    by (auto simp: inet_pton_def split: list.splits if_splits)
  have "inet_ntop a = join_on CHR ''.'' (split_on CHR ''.'' s)"
    by (simp add: a f ok del: join_on.simps join_split)
  then show ?thesis by simp
qed

lemma inet_ntop_length: "length (inet_ntop a) < INET_ADDRSTRLEN"
proof (cases a)
  case (In_addr w x y z)
  then show ?thesis
    using octet_text_length [of w] octet_text_length [of x] octet_text_length [of y]
      octet_text_length [of z]
    by (simp add: INET_ADDRSTRLEN_def)
qed

lemma inet_ntop_chars: "c \<in> set (inet_ntop a) \<Longrightarrow> is_digit c \<or> c = CHR ''.''"
  by (cases a) (auto dest: octet_text_digits)

lemma inet_ntop_inj [simp]: "inet_ntop a = inet_ntop b \<longleftrightarrow> a = b"
  by (metis inet_pton_ntop option.inject)

lemma inet_ntop_nonempty [simp]: "inet_ntop a \<noteq> []"
  by (cases a) simp

end
