(* ===== verification/C_Sort.thy ===== *)
theory C_Sort
  imports C_Strings "HOL-Library.Multiset"
begin

text \<open>
  \<open>qsort\<close> with a C comparator, and the loop of \<^verbatim>\<open>parse_pod_list\<close> that drops repeated
  entries in place. The contract a comparator has to meet is the locale \<open>c_comparator\<close>:
  what the two loops guarantee is proved once inside it and \<open>strcmp\<close> is an instance.
\<close>

text \<open>
  C says of \<open>qsort\<close> only that the result is a sorted permutation. Under the contract below
  there is just one (\<open>qsort_unique\<close>), so the model may compute it by insertion.
\<close>

fun insert_by :: "('a \<Rightarrow> 'a \<Rightarrow> int) \<Rightarrow> 'a \<Rightarrow> 'a list \<Rightarrow> 'a list" where
  "insert_by cmp x [] = [x]"
| "insert_by cmp x (y # ys) = (if cmp x y \<le> 0 then x # y # ys else y # insert_by cmp x ys)"

fun qsort :: "('a \<Rightarrow> 'a \<Rightarrow> int) \<Rightarrow> 'a list \<Rightarrow> 'a list" where
  "qsort cmp [] = []"
| "qsort cmp (x # xs) = insert_by cmp x (qsort cmp xs)"

text \<open>
  The loop over the sorted array: entry \<open>i\<close> is kept, at position \<open>unique\<close>, when it differs
  from the last kept one. Result: the number of entries kept, and the array.
\<close>

function dedup_loop ::
  "('a \<Rightarrow> 'a \<Rightarrow> int) \<Rightarrow> nat \<Rightarrow> nat \<Rightarrow> nat \<Rightarrow> 'a list \<Rightarrow> nat \<times> 'a list" where
  "dedup_loop cmp n i unique xs =
     (if i < n
      then (if unique = 0 \<or> cmp (xs ! (unique - 1)) (xs ! i) \<noteq> 0
            then dedup_loop cmp n (i + 1) (unique + 1) (xs[unique := xs ! i])
            else dedup_loop cmp n (i + 1) unique xs)
      else (unique, xs))"
  by pat_completeness auto
termination
  by (relation "measure (\<lambda>(cmp, n, i, unique, xs). n - i)") auto

declare dedup_loop.simps [simp del]

lemma mset_insert_by [simp]: "mset (insert_by cmp x xs) = add_mset x (mset xs)"
  by (induction xs) auto

lemma mset_qsort [simp]: "mset (qsort cmp xs) = mset xs"
  by (induction xs) auto

lemma set_qsort [simp]: "set (qsort cmp xs) = set xs"
  by (metis mset_qsort set_mset_mset)

lemma length_qsort [simp]: "length (qsort cmp xs) = length xs"
  by (metis mset_qsort size_mset)

lemma set_insert_by [simp]: "set (insert_by cmp x xs) = insert x (set xs)"
  by (induction xs) auto

text \<open>
  The loop keeps its two indices apart: what it has not read yet is as it was, so its
  result is the adjacent-duplicate removal of the array it started with.
\<close>

text \<open>
  One turn: the last kept entry is the last entry read, so the test compares neighbours.
\<close>

lemma kept_last:
  assumes "take unique xs = remdups_adj (take i orig)" and "unique \<le> length xs" and "i < length orig"
  shows "unique = 0 \<longleftrightarrow> take i orig = []"
    and "unique \<noteq> 0 \<Longrightarrow> xs ! (unique - 1) = last (take i orig)"
proof -
  have len: "length (take unique xs) = unique" using assms(2) by simp
  then show u0: "unique = 0 \<longleftrightarrow> take i orig = []" using assms(1) by (metis length_0_conv remdups_adj_Nil_iff)
  assume u: "unique \<noteq> 0"
  with len have "take unique xs \<noteq> []" by auto
  then have "last (take unique xs) = xs ! (unique - 1)"
    using len u by (simp add: last_conv_nth)
  then show "xs ! (unique - 1) = last (take i orig)" using assms(1) by simp
qed

lemma dedup_loop_inv:
  assumes cmp: "\<And>a b. cmp a b = 0 \<longleftrightarrow> a = b"
    and "i \<le> n" and "n \<le> length xs" and "length xs = length orig" and "unique \<le> i"
    and "take unique xs = remdups_adj (take i orig)" and "drop i xs = drop i orig"
  shows "\<exists>u ys. dedup_loop cmp n i unique xs = (u, ys) \<and> take u ys = remdups_adj (take n orig)
           \<and> u \<le> n \<and> length ys = length orig"
  using assms(2-)
proof (induction "n - i" arbitrary: i unique xs)
  case 0
  then show ?case by (simp add: dedup_loop.simps [of cmp i i])
next
  case (Suc k)
  then have i: "i < n" "i < length orig" by auto
  have x: "xs ! i = orig ! i"
    using Suc.prems(6) i by (metis Suc.prems(3) nth_via_drop Cons_nth_drop_Suc)
  have snoc: "take (Suc i) orig = take i orig @ [orig ! i]"
    using i by (simp add: take_Suc_conv_app_nth)
  have kept: "unique = 0 \<longleftrightarrow> take i orig = []"
    "unique \<noteq> 0 \<Longrightarrow> xs ! (unique - 1) = last (take i orig)"
    using kept_last [OF Suc.prems(5) _ i(2)] Suc.prems by auto
  have next_drop': "drop (i + 1) xs = drop (i + 1) orig"
    using Suc.prems(6) by (metis drop_drop add.commute)
  have next_drop: "drop (i + 1) (xs[unique := y]) = drop (i + 1) orig" for y
    using Suc.prems(4) next_drop' drop_update_cancel [of unique "i + 1" xs y] by simp
  show ?case
  proof (cases "unique = 0 \<or> cmp (xs ! (unique - 1)) (xs ! i) \<noteq> 0")
    case True
    then have new: "take i orig = [] \<or> last (take i orig) \<noteq> orig ! i"
      using kept x by (auto simp: cmp)
    let ?xs = "xs[unique := xs ! i]"
    have "take (unique + 1) ?xs = take unique xs @ [xs ! i]"
      using Suc.prems i by (simp add: take_Suc_conv_app_nth)
    then have "take (unique + 1) ?xs = remdups_adj (take (i + 1) orig)"
      using new Suc.prems(5) x by (simp add: snoc remdups_adj_snoc) 
    with Suc.hyps(1) [of "i + 1" ?xs "unique + 1"] Suc.hyps(2) Suc.prems i next_drop True
    show ?thesis by (simp add: dedup_loop.simps [of cmp n i])
  next
    case False
    then have "take i orig \<noteq> []" "last (take i orig) = orig ! i"
      using kept x by (auto simp: cmp)
    then have "take unique xs = remdups_adj (take (i + 1) orig)"
      using Suc.prems(5) by (simp add: snoc remdups_adj_snoc)
    with Suc.hyps(1) [of "i + 1" xs unique] Suc.hyps(2) Suc.prems i next_drop' False
    show ?thesis by (simp add: dedup_loop.simps [of cmp n i])
  qed
qed

section \<open>The contract of a comparator\<close>

locale c_comparator =
  fixes cmp :: "'a \<Rightarrow> 'a \<Rightarrow> int"
  assumes cmp_eq: "cmp a b = 0 \<longleftrightarrow> a = b"
    and cmp_swap: "cmp b a < 0 \<longleftrightarrow> 0 < cmp a b"
    and cmp_trans: "cmp a b \<le> 0 \<Longrightarrow> cmp b c \<le> 0 \<Longrightarrow> cmp a c \<le> 0"
begin

lemma cmp_total: "cmp a b \<le> 0 \<or> cmp b a \<le> 0"
  using cmp_swap [of b a] by linarith

lemma cmp_antisym: "cmp a b \<le> 0 \<Longrightarrow> cmp b a \<le> 0 \<Longrightarrow> a = b"
  using cmp_swap [of b a] cmp_swap [of a b] cmp_eq [of a b] by linarith

lemma sorted_insert_by:
  "sorted_wrt (\<lambda>a b. cmp a b \<le> 0) xs \<Longrightarrow> sorted_wrt (\<lambda>a b. cmp a b \<le> 0) (insert_by cmp x xs)"
  using cmp_total by (induction xs) (auto intro: cmp_trans)

lemma sorted_qsort: "sorted_wrt (\<lambda>a b. cmp a b \<le> 0) (qsort cmp xs)"
  by (induction xs) (auto intro: sorted_insert_by)

lemma sorted_unique:
  "sorted_wrt (\<lambda>a b. cmp a b \<le> 0) xs \<Longrightarrow> sorted_wrt (\<lambda>a b. cmp a b \<le> 0) ys \<Longrightarrow>
     mset xs = mset ys \<Longrightarrow> xs = ys"
proof (induction xs arbitrary: ys)
  case Nil
  then show ?case by simp
next
  case (Cons x xs)
  then obtain y zs where ys: "ys = y # zs" by (cases ys) auto
  have "x \<in> set ys" "y \<in> set (x # xs)"
    using Cons.prems(3) ys by (metis list.set_intros(1) set_mset_mset)+
  then have "cmp x y \<le> 0 \<or> x = y" "cmp y x \<le> 0 \<or> x = y" using Cons.prems(1,2) ys by auto
  then have "x = y" using cmp_antisym by blast
  with Cons ys show ?case by simp
qed

text \<open>Whatever algorithm a C library uses, \<open>qsort\<close> gives this list.\<close>

lemma qsort_unique:
  "sorted_wrt (\<lambda>a b. cmp a b \<le> 0) ys \<Longrightarrow> mset ys = mset xs \<Longrightarrow> ys = qsort cmp xs"
  by (rule sorted_unique) (auto intro: sorted_qsort)

lemma strictly_sorted_dedup:
  "sorted_wrt (\<lambda>a b. cmp a b \<le> 0) xs \<Longrightarrow> sorted_wrt (\<lambda>a b. cmp a b < 0) (remdups_adj xs)"
proof (induction xs rule: remdups_adj.induct)
  case (3 x y xs)
  show ?case
  proof (cases "x = y")
    case True
    with 3 show ?thesis by simp
  next
    case False
    have "cmp x z < 0" if "z \<in> set (y # xs)" for z
    proof -
      have le: "cmp x z \<le> 0" using 3(3) that by auto
      moreover have "x \<noteq> z"
      proof
        assume "x = z"
        with that False have "z \<in> set xs" by auto
        with 3(3) have "cmp y z \<le> 0" "cmp x y \<le> 0" by auto
        with \<open>x = z\<close> False cmp_antisym show False by blast
      qed
      ultimately show ?thesis using cmp_eq [of x z] by linarith
    qed
    with 3 False show ?thesis by simp
  qed
qed auto

lemma strictly_sorted_distinct: "sorted_wrt (\<lambda>a b. cmp a b < 0) xs \<Longrightarrow> distinct xs"
proof (induction xs)
  case (Cons x xs)
  have "\<not> cmp x x < 0" using cmp_eq [of x x] by simp
  with Cons show ?case by auto
qed simp

text \<open>Sorting and then dropping repeats in place, as the pod list is built.\<close>

lemma sort_dedup:
  assumes "dedup_loop cmp (length xs) 0 0 (qsort cmp xs @ rest) = (u, ys)"
  shows "sorted_wrt (\<lambda>a b. cmp a b < 0) (take u ys)" and "distinct (take u ys)"
    and "set (take u ys) = set xs" and "u \<le> length xs" and "length ys = length xs + length rest"
proof -
  have "\<exists>u ys. dedup_loop cmp (length xs) 0 0 (qsort cmp xs @ rest) = (u, ys)
      \<and> take u ys = remdups_adj (take (length xs) (qsort cmp xs @ rest))
      \<and> u \<le> length xs \<and> length ys = length (qsort cmp xs @ rest)"
    by (rule dedup_loop_inv) (simp_all add: cmp_eq)
  with assms have ys: "take u ys = remdups_adj (qsort cmp xs)" and "u \<le> length xs"
    and "length ys = length xs + length rest" by auto
  then show "sorted_wrt (\<lambda>a b. cmp a b < 0) (take u ys)" "set (take u ys) = set xs"
    "u \<le> length xs" "length ys = length xs + length rest"
    by (simp_all add: strictly_sorted_dedup sorted_qsort)
  then show "distinct (take u ys)" by (auto intro: strictly_sorted_distinct)
qed

end

interpretation strcmp_order: c_comparator strcmp
  by unfold_locales (auto intro: strcmp_trans simp: strcmp_swap)

end
