(* ===== verification/Pod_List.thy ===== *)
theory Pod_List
  imports C_Inet C_Sort Pod_Request Response_Body
begin

text \<open>
  \<^verbatim>\<open>pod_list.c\<close>, what comes back: building the pod list from the body
  (\<open>parse_pod_list\<close>, \<open>is_finished\<close>), describing a refusal (\<open>describe_http_error\<close>) and the
  whole request (\<open>pod_list_fetch\<close>). json-c and libcurl are not part of the repository:
  their functions are the fields of the records \<open>json_api\<close> and \<open>curl_api\<close>, which the
  definitions take as an argument. A failure is \<open>Inl\<close> the text left in \<open>error\<close>.
\<close>

section \<open>The pod list\<close>

definition MAX_PODS :: nat where "MAX_PODS = 10000"

text \<open>\<open>ips\<close> is the array allocated behind \<open>count\<close>; only the first \<open>count\<close> slots are in use.\<close>

record PodList =
  pl_count :: nat
  pl_ips :: "string list"

definition pod_ips :: "PodList \<Rightarrow> string list" where
  "pod_ips l = take (pl_count l) (pl_ips l)"

definition compare_ips :: "string \<Rightarrow> string \<Rightarrow> int" where
  "compare_ips a b = strcmp a b"

lemma compare_ips_strcmp: "compare_ips = strcmp"
  by (simp add: compare_ips_def fun_eq_iff)

text \<open>
  The promise of \<^verbatim>\<open>pod_list.h\<close>: distinct, valid IPv4 addresses - here also their number
  and their order.
\<close>

definition pod_list_ok :: "PodList \<Rightarrow> bool" where
  "pod_list_ok l \<longleftrightarrow>
     pl_count l \<le> length (pl_ips l) \<and> pl_count l \<le> MAX_PODS
     \<and> distinct (pod_ips l)
     \<and> sorted_wrt (\<lambda>a b. compare_ips a b < 0) (pod_ips l)
     \<and> list_all (\<lambda>ip. inet_pton ip \<noteq> None) (pod_ips l)"

lemma length_pod_ips: "pl_count l \<le> length (pl_ips l) \<Longrightarrow> length (pod_ips l) = pl_count l"
  by (simp add: pod_ips_def)

section \<open>json-c\<close>

text \<open>
  A \<open>json_object *\<close> is \<open>'j option\<close>, \<open>None\<close> being \<open>NULL\<close> (also the value \<open>null\<close> of a
  document). \<open>object_get_ex\<close> is \<open>None\<close> when the function returns false, otherwise the
  pointer it stored; \<open>get_string\<close> is the C string behind the returned pointer.
\<close>

record 'j json_api =
  tokener_parse :: "string \<Rightarrow> 'j option"
  object_get_ex :: "'j option \<Rightarrow> string \<Rightarrow> 'j option option"
  is_array :: "'j option \<Rightarrow> bool"
  is_string :: "'j option \<Rightarrow> bool"
  array_length :: "'j option \<Rightarrow> nat"
  array_get_idx :: "'j option \<Rightarrow> nat \<Rightarrow> 'j option"
  get_string :: "'j option \<Rightarrow> string option"

section \<open>parse_pod_list\<close>

definition is_finished :: "'j json_api \<Rightarrow> 'j option \<Rightarrow> bool" where
  "is_finished api status =
     (case object_get_ex api status ''phase'' of
        None \<Rightarrow> False
      | Some phase \<Rightarrow>
          (case get_string api phase of
             None \<Rightarrow> False
           | Some value \<Rightarrow> strcmp value ''Succeeded'' = 0 \<or> strcmp value ''Failed'' = 0))"

text \<open>The chain of tests of the loop body: the address to add, or \<open>None\<close> for \<open>continue\<close>.\<close>

definition item_address :: "'j json_api \<Rightarrow> 'j option \<Rightarrow> in_addr option" where
  "item_address api item =
     (case object_get_ex api item ''status'' of
        None \<Rightarrow> None
      | Some status \<Rightarrow>
          if is_finished api status then None
          else (case object_get_ex api status ''podIP'' of
                  None \<Rightarrow> None
                | Some pod_ip \<Rightarrow>
                    if \<not> is_string api pod_ip then None
                    else (case get_string api pod_ip of
                            None \<Rightarrow> None
                          | Some s \<Rightarrow> inet_pton s)))"

definition add_item :: "'j json_api \<Rightarrow> 'j option \<Rightarrow> nat \<Rightarrow> PodList \<Rightarrow> PodList" where
  "add_item api items i l =
     (case item_address api (array_get_idx api items i) of
        None \<Rightarrow> l
      | Some addr \<Rightarrow> l\<lparr>pl_ips := (pl_ips l)[pl_count l := inet_ntop addr],
                        pl_count := pl_count l + 1\<rparr>)"

definition sort_unique :: "PodList \<Rightarrow> PodList" where
  "sort_unique l =
     (let sorted = qsort compare_ips (take (pl_count l) (pl_ips l)) @ drop (pl_count l) (pl_ips l);
          (unique, ips) = dedup_loop compare_ips (pl_count l) 0 0 sorted
      in l\<lparr>pl_ips := ips, pl_count := unique\<rparr>)"

definition parse_pod_list ::
  "'j json_api \<Rightarrow> bool \<Rightarrow> string \<Rightarrow> nat \<Rightarrow> string + PodList" where
  "parse_pod_list api malloc_ok body error_size =
     (case tokener_parse api body of
        None \<Rightarrow> Inl (snprintf error_size ''the response is not valid JSON'')
      | Some root \<Rightarrow>
          (case object_get_ex api (Some root) ''items'' of
             None \<Rightarrow> Inl (snprintf error_size ''the response has no `items` array'')
           | Some items \<Rightarrow>
               if \<not> is_array api items
               then Inl (snprintf error_size ''the response has no `items` array'')
               else (let n_items = min (array_length api items) MAX_PODS
                     in if \<not> malloc_ok then Inl (snprintf error_size ''out of memory'')
                        else Inr (sort_unique
                               (fold (add_item api items) [0..<n_items]
                                  \<lparr>pl_count = 0, pl_ips = replicate n_items []\<rparr>)))))"

text \<open>Which addresses the items of a response name, in the order of the response.\<close>

definition item_addresses :: "'j json_api \<Rightarrow> 'j option \<Rightarrow> nat \<Rightarrow> in_addr list" where
  "item_addresses api items n =
     List.map_filter (\<lambda>i. item_address api (array_get_idx api items i)) [0..<n]"

lemma item_addresses_Suc:
  "item_addresses api items (Suc n) = item_addresses api items n @
     (case item_address api (array_get_idx api items n) of None \<Rightarrow> [] | Some a \<Rightarrow> [a])"
  by (simp add: item_addresses_def map_filter_def split: option.split)

lemma length_item_addresses: "length (item_addresses api items n) \<le> n"
  by (induction n) (auto simp: item_addresses_Suc item_addresses_def [of _ _ 0] map_filter_def
      split: option.split)

text \<open>The collecting loop fills the slots from the left, one per address found.\<close>

definition filled :: "nat \<Rightarrow> in_addr list \<Rightarrow> PodList \<Rightarrow> bool" where
  "filled m as l \<longleftrightarrow>
     pl_count l = length as \<and> pod_ips l = map inet_ntop as \<and> length (pl_ips l) = m"

lemma filled_add_item:
  "filled m as l \<Longrightarrow> length as < m \<Longrightarrow>
     filled m (as @ (case item_address api (array_get_idx api items i) of None \<Rightarrow> [] | Some a \<Rightarrow> [a]))
       (add_item api items i l)"
  by (auto simp: filled_def add_item_def pod_ips_def take_Suc_conv_app_nth split: option.split)

lemma collect_items:
  assumes "n \<le> m"
  shows "filled m (item_addresses api items n)
           (fold (add_item api items) [0..<n] \<lparr>pl_count = 0, pl_ips = replicate m []\<rparr>)"
  using assms
proof (induction n)
  case 0
  then show ?case by (simp add: filled_def item_addresses_def map_filter_def pod_ips_def)
next
  case (Suc n)
  then have "length (item_addresses api items n) < m"
    using length_item_addresses [of api items n] by simp
  with Suc show ?case by (simp add: item_addresses_Suc filled_add_item)
qed

lemma sort_unique_list:
  assumes "pl_count l \<le> length (pl_ips l)"
  shows "sorted_wrt (\<lambda>a b. compare_ips a b < 0) (pod_ips (sort_unique l))"
    and "distinct (pod_ips (sort_unique l))"
    and "set (pod_ips (sort_unique l)) = set (pod_ips l)"
    and "pl_count (sort_unique l) \<le> pl_count l"
    and "length (pl_ips (sort_unique l)) = length (pl_ips l)"
proof -
  let ?xs = "take (pl_count l) (pl_ips l)" and ?rest = "drop (pl_count l) (pl_ips l)"
  have len: "length ?xs = pl_count l" using assms by simp
  obtain u ys where d: "dedup_loop strcmp (length ?xs) 0 0 (qsort strcmp ?xs @ ?rest) = (u, ys)"
    by fastforce
  then have "sort_unique l = l\<lparr>pl_ips := ys, pl_count := u\<rparr>"
    by (simp only: sort_unique_def Let_def compare_ips_strcmp len) simp
  with strcmp_order.sort_dedup [OF d] len assms
  show "sorted_wrt (\<lambda>a b. compare_ips a b < 0) (pod_ips (sort_unique l))"
    "distinct (pod_ips (sort_unique l))" "set (pod_ips (sort_unique l)) = set (pod_ips l)"
    "pl_count (sort_unique l) \<le> pl_count l"
    "length (pl_ips (sort_unique l)) = length (pl_ips l)"
    by (auto simp: pod_ips_def compare_ips_strcmp)
qed

lemma parse_pod_list_props:
  assumes "parse_pod_list api malloc_ok body error_size = Inr l"
  shows "\<exists>root items. tokener_parse api body = Some root
    \<and> object_get_ex api (Some root) ''items'' = Some items \<and> is_array api items
    \<and> pod_list_ok l
    \<and> set (pod_ips l) =
        inet_ntop ` set (item_addresses api items (min (array_length api items) MAX_PODS))"
proof -
  from assms obtain root items where r: "tokener_parse api body = Some root"
    "object_get_ex api (Some root) ''items'' = Some items" "is_array api items" malloc_ok
    and l: "l = sort_unique (fold (add_item api items) [0..<min (array_length api items) MAX_PODS]
      \<lparr>pl_count = 0, pl_ips = replicate (min (array_length api items) MAX_PODS) []\<rparr>)"
    by (auto simp: parse_pod_list_def Let_def split: option.splits if_splits)
  let ?n = "min (array_length api items) MAX_PODS"
  let ?l = "fold (add_item api items) [0..<?n] \<lparr>pl_count = 0, pl_ips = replicate ?n []\<rparr>"
  have c: "pl_count ?l = length (item_addresses api items ?n)"
    "pod_ips ?l = map inet_ntop (item_addresses api items ?n)" "length (pl_ips ?l) = ?n"
    using collect_items [of ?n ?n api items] by (simp_all add: filled_def)
  then have "pl_count ?l \<le> length (pl_ips ?l)"
    using length_item_addresses [of api items ?n] by (simp del: min.bounded_iff)
  note u = sort_unique_list [OF this, folded l]
  have set_l: "set (pod_ips l) = inet_ntop ` set (item_addresses api items ?n)"
    using u(3) c(2) by simp
  then have "list_all (\<lambda>ip. inet_pton ip \<noteq> None) (pod_ips l)" by (auto simp: list_all_iff)
  moreover have "pl_count l \<le> length (pl_ips l)" "pl_count l \<le> MAX_PODS"
    using u(4,5) c length_item_addresses [of api items ?n] by auto
  ultimately show ?thesis using r u(1,2) set_l by (auto simp: pod_list_ok_def)
qed

text \<open>
  What the API says of a pod, read without the code: it has a status, whose phase - when there is
  one - is neither \<open>Succeeded\<close> nor \<open>Failed\<close>, and whose \<open>podIP\<close> is a string that is an IPv4 address.
\<close>

definition live_pod_at :: "'j json_api \<Rightarrow> 'j option \<Rightarrow> in_addr \<Rightarrow> bool" where
  "live_pod_at api item addr \<longleftrightarrow>
     (\<exists>status pod_ip text. object_get_ex api item ''status'' = Some status
        \<and> (\<forall>phase. object_get_ex api status ''phase'' = Some phase \<longrightarrow>
             get_string api phase \<noteq> Some ''Succeeded'' \<and> get_string api phase \<noteq> Some ''Failed'')
        \<and> object_get_ex api status ''podIP'' = Some pod_ip \<and> is_string api pod_ip
        \<and> get_string api pod_ip = Some text \<and> inet_pton text = Some addr)"

lemma finished_phase: "is_finished api status \<longleftrightarrow>
    (\<exists>phase. object_get_ex api status ''phase'' = Some phase
       \<and> (get_string api phase = Some ''Succeeded'' \<or> get_string api phase = Some ''Failed''))"
  by (auto simp: is_finished_def split: option.splits)

lemma item_address_live: "item_address api item = Some addr \<longleftrightarrow> live_pod_at api item addr"
  by (auto simp: item_address_def live_pod_at_def finished_phase split: option.splits)

lemma item_addresses_live:
  "set (item_addresses api items n) = {addr. \<exists>i<n. live_pod_at api (array_get_idx api items i) addr}"
proof (induction n)
  case (Suc n)
  have "set (case item_address api (array_get_idx api items n) of None \<Rightarrow> [] | Some a \<Rightarrow> [a])
      = {addr. live_pod_at api (array_get_idx api items n) addr}"
    by (auto simp: item_address_live [symmetric] split: option.split)
  with Suc show ?case by (auto simp: item_addresses_Suc less_Suc_eq)
qed (simp add: item_addresses_def map_filter_def)

lemma parse_pod_list_succeeds:
  assumes "tokener_parse api body = Some root" and "object_get_ex api (Some root) ''items'' = Some items"
    and "is_array api items"
  shows "\<exists>l. parse_pod_list api True body error_size = Inr l"
  using assms by (simp add: parse_pod_list_def Let_def)

text \<open>
  C16. Parsing a pod list. It succeeds only on a document with an \<open>items\<close> array - and on every such
  document when there is memory for the list -, and what it returns is what the header promises:
  at most MAX_PODS distinct, valid addresses in ascending order, and as a set exactly the
  addresses at which one of the first MAX_PODS items says a pod lives that has not finished: none
  lost by sorting or by dropping repeats, none added.
\<close>

theorem parse_pod_list_correct:
  "(\<forall>l. parse_pod_list api malloc_ok body error_size = Inr l \<longrightarrow>
      (\<exists>root items. tokener_parse api body = Some root
         \<and> object_get_ex api (Some root) ''items'' = Some items \<and> is_array api items
         \<and> pod_list_ok l
         \<and> set (pod_ips l) = {inet_ntop addr | addr i. i < array_length api items \<and> i < MAX_PODS
              \<and> live_pod_at api (array_get_idx api items i) addr}))
   \<and> (\<forall>root items. tokener_parse api body = Some root
         \<and> object_get_ex api (Some root) ''items'' = Some items \<and> is_array api items \<longrightarrow>
       (\<exists>l. parse_pod_list api True body error_size = Inr l))"
proof (intro conjI allI impI)
  fix l assume "parse_pod_list api malloc_ok body error_size = Inr l"
  from parse_pod_list_props [OF this] show "\<exists>root items. tokener_parse api body = Some root
         \<and> object_get_ex api (Some root) ''items'' = Some items \<and> is_array api items
         \<and> pod_list_ok l
         \<and> set (pod_ips l) = {inet_ntop addr | addr i. i < array_length api items \<and> i < MAX_PODS
              \<and> live_pod_at api (array_get_idx api items i) addr}"
    unfolding item_addresses_live by fastforce
qed (auto intro: parse_pod_list_succeeds)

section \<open>A concrete json-c for the witnesses\<close>

text \<open>
  Documents as a datatype, with the accessors behaving as json-c's manual says; the parser
  knows the three texts below and nothing else.
\<close>

datatype demo_json =
    DNum int | DStr string | DArr "demo_json option list" | DObj "(string \<times> demo_json option) list"

definition demo_pod :: "string \<Rightarrow> string \<Rightarrow> demo_json option" where
  "demo_pod phase ip = Some (DObj [(''status'', Some (DObj [(''phase'', Some (DStr phase)),
     (''podIP'', Some (DStr ip))]))])"

definition demo_document :: demo_json where
  "demo_document = DObj [(''items'', Some (DArr
     [demo_pod ''Running'' ''10.0.0.7'', demo_pod ''Running'' ''10.0.0.12'',
      demo_pod ''Failed'' ''10.0.0.9'', demo_pod ''Running'' ''10.0.0.7'',
      demo_pod ''Pending'' ''fe80::1'', None]))]"

fun demo_parse :: "string \<Rightarrow> demo_json option" where
  "demo_parse s =
     (if s = ''pods'' then Some demo_document
      else if s = ''empty'' then Some (DObj [(''items'', Some (DArr []))])
      else if s = ''denied'' then Some (DObj [(''message'', Some (DStr ''no''))])
      else None)"

fun demo_get :: "demo_json option \<Rightarrow> string \<Rightarrow> demo_json option option" where
  "demo_get (Some (DObj kvs)) key = map_of kvs key"
| "demo_get _ key = None"

fun demo_text :: "demo_json option \<Rightarrow> string option" where
  "demo_text (Some (DStr s)) = Some s"
| "demo_text (Some (DNum n)) = Some (show_int n)"
| "demo_text (Some (DArr xs)) = Some ''[...]''"
| "demo_text (Some (DObj xs)) = Some ''{...}''"
| "demo_text None = None"

definition demo_api :: "demo_json json_api" where
  "demo_api = \<lparr>tokener_parse = demo_parse, object_get_ex = demo_get,
     is_array = (\<lambda>j. case j of Some (DArr _) \<Rightarrow> True | _ \<Rightarrow> False),
     is_string = (\<lambda>j. case j of Some (DStr _) \<Rightarrow> True | _ \<Rightarrow> False),
     array_length = (\<lambda>j. case j of Some (DArr xs) \<Rightarrow> length xs | _ \<Rightarrow> 0),
     array_get_idx = (\<lambda>j i. case j of Some (DArr xs) \<Rightarrow> if i < length xs then xs ! i else None | _ \<Rightarrow> None),
     get_string = demo_text\<rparr>"

definition demo_list :: PodList where
  "demo_list = \<lparr>pl_count = 2,
     pl_ips = [''10.0.0.12'', ''10.0.0.7'', ''10.0.0.7'', [], [], []]\<rparr>"

lemma demo_parsed: "parse_pod_list demo_api True ''pods'' 512 = Inr demo_list"
  by code_simp

lemma demo_list_ips [simp]: "pod_ips demo_list = [''10.0.0.12'', ''10.0.0.7'']"
  by (simp add: pod_ips_def demo_list_def)

lemma parse_pod_list_correct_witness:
  "\<exists>root items. tokener_parse demo_api ''pods'' = Some root
     \<and> object_get_ex demo_api (Some root) ''items'' = Some items \<and> pod_list_ok demo_list
     \<and> {''10.0.0.12'', ''10.0.0.7''} = {inet_ntop addr | addr i. i < array_length demo_api items
          \<and> i < MAX_PODS \<and> live_pod_at demo_api (array_get_idx demo_api items i) addr}"
proof -
  from parse_pod_list_correct [of demo_api True "''pods''" 512] demo_parsed obtain root items where
    "tokener_parse demo_api ''pods'' = Some root" "object_get_ex demo_api (Some root) ''items'' = Some items"
    "pod_list_ok demo_list"
    "set (pod_ips demo_list) = {inet_ntop addr | addr i. i < array_length demo_api items
       \<and> i < MAX_PODS \<and> live_pod_at demo_api (array_get_idx demo_api items i) addr}" by blast
  moreover have "set (pod_ips demo_list) = {''10.0.0.12'', ''10.0.0.7''}" by simp
  ultimately show ?thesis by (intro exI conjI) (assumption | simp only:)+
qed

end
