(* ===== verification/Pod_Fetch.thy ===== *)
theory Pod_Fetch
  imports Pod_List Closing
begin

text \<open>
  \<^verbatim>\<open>pod_list.c\<close>, the request itself: the client handle, \<open>describe_http_error\<close> and
  \<open>pod_list_fetch\<close>. libcurl is the record \<open>curl_api\<close>: what a transfer does is decided by
  the argument \<open>easy_perform\<close>, which is given the options set on the handle, the write
  callback and the body, exactly what the C function hands to libcurl.
\<close>

section \<open>The handle\<close>

text \<open>Pointers into the stack frame of \<open>pod_list_fetch\<close> that options may hold.\<close>

datatype frame_pointer = Frame_body | Frame_curl_error

record easy_handle =
  opt_url :: "string option"
  opt_cainfo :: "string option"
  opt_httpheader :: "string list option"
  opt_accept_encoding :: "string option"
  opt_writedata :: "frame_pointer option"
  opt_errorbuffer :: "frame_pointer option"
  opt_nosignal :: int
  opt_timeout :: int
  opt_noprogress :: int
  opt_xferinfo :: "(closing_signal \<Rightarrow> int) option"

definition CURLE_OK :: int where "CURLE_OK = 0"

record transfer =
  tr_res :: int
  tr_code :: int
  tr_error :: string

record curl_api =
  easy_perform :: "easy_handle \<Rightarrow> write_callback \<Rightarrow> ResponseBody \<Rightarrow> (transfer \<times> ResponseBody) option"
  easy_strerror :: "int \<Rightarrow> string"

definition new_handle :: easy_handle where
  "new_handle = \<lparr>opt_url = None, opt_cainfo = None, opt_httpheader = None,
     opt_accept_encoding = None, opt_writedata = None, opt_errorbuffer = None,
     opt_nosignal = 0, opt_timeout = 0, opt_noprogress = 1, opt_xferinfo = None\<rparr>"

text \<open>\<open>curl_easy_init\<close> and \<open>malloc\<close> may fail; a client owns one handle.\<close>

definition pod_list_client_create :: "bool \<Rightarrow> bool \<Rightarrow> easy_handle option" where
  "pod_list_client_create malloc_ok init_ok =
     (if \<not> malloc_ok then None else if \<not> init_ok then None else Some new_handle)"

definition pod_list_client_destroy :: "easy_handle option \<Rightarrow> easy_handle option" where
  "pod_list_client_destroy client = (case client of None \<Rightarrow> None | Some _ \<Rightarrow> None)"

definition abort_when_closing :: "closing_signal \<Rightarrow> int" where
  "abort_when_closing s = closing s"

section \<open>describe_http_error\<close>

definition describe_http_error :: "'j json_api \<Rightarrow> int \<Rightarrow> string option \<Rightarrow> nat \<Rightarrow> string" where
  "describe_http_error api code body error_size =
     (let root = (case body of None \<Rightarrow> None | Some b \<Rightarrow> tokener_parse api b)
      in case root of
           None \<Rightarrow> snprintf error_size (''HTTP '' @ show_int code)
         | Some r \<Rightarrow>
             (case object_get_ex api (Some r) ''message'' of
                None \<Rightarrow> snprintf error_size (''HTTP '' @ show_int code)
              | Some message \<Rightarrow>
                  if is_string api message
                  then snprintf error_size (''HTTP '' @ show_int code @ '': ''
                         @ (case get_string api message of None \<Rightarrow> ''(null)'' | Some m \<Rightarrow> m))
                  else snprintf error_size (''HTTP '' @ show_int code)))"

section \<open>pod_list_fetch\<close>

text \<open>What the outside world decides during one call.\<close>

record fetch_world =
  fw_getenv :: environ
  fw_namespace :: c_file
  fw_token :: c_file
  fw_junk :: "nat \<Rightarrow> char"
  fw_realloc :: "size_t \<Rightarrow> bool"
  fw_malloc :: bool

definition no_token_error :: string where
  "no_token_error = ''cannot read '' @ SERVICE_ACCOUNT_DIR @ ''/token''"

definition body_callback :: "fetch_world \<Rightarrow> write_callback" where
  "body_callback w contents esize nmemb body =
     write_body (fw_junk w) (fw_realloc w (rb_size body)) contents esize nmemb body"

definition set_options :: "string \<Rightarrow> string \<Rightarrow> int \<Rightarrow> easy_handle \<Rightarrow> easy_handle" where
  "set_options url auth timeout h =
     h\<lparr>opt_url := Some url,
       opt_cainfo := Some (SERVICE_ACCOUNT_DIR @ ''/ca.crt''),
       opt_httpheader := Some [auth, ''Accept: application/json''],
       opt_accept_encoding := Some [],
       opt_writedata := Some Frame_body,
       opt_errorbuffer := Some Frame_curl_error,
       opt_nosignal := 1,
       opt_timeout := timeout,
       opt_noprogress := 0,
       opt_xferinfo := Some abort_when_closing\<rparr>"

definition drop_pointers :: "easy_handle \<Rightarrow> easy_handle" where
  "drop_pointers h = h\<lparr>opt_httpheader := None, opt_errorbuffer := None, opt_writedata := None\<rparr>"

definition fetch_result ::
  "'j json_api \<Rightarrow> curl_api \<Rightarrow> fetch_world \<Rightarrow> transfer \<Rightarrow> ResponseBody \<Rightarrow> nat \<Rightarrow> string + PodList" where
  "fetch_result api curl w tr body error_size =
     (if tr_res tr \<noteq> CURLE_OK
      then Inl (snprintf error_size
                 (if tr_error tr \<noteq> [] then tr_error tr else easy_strerror curl (tr_res tr)))
      else if tr_code tr \<noteq> 200
      then Inl (describe_http_error api (tr_code tr) (body_string body) error_size)
      else (case body_string body of
              None \<Rightarrow> Inl (snprintf error_size ''the response is empty'')
            | Some s \<Rightarrow> parse_pod_list api (fw_malloc w) s error_size))"

definition pod_list_fetch ::
  "'j json_api \<Rightarrow> curl_api \<Rightarrow> fetch_world \<Rightarrow> easy_handle \<Rightarrow> int \<Rightarrow> nat
     \<Rightarrow> ((string + PodList) \<times> easy_handle) option" where
  "pod_list_fetch api curl w client timeout error_size =
     (case resolve_namespace (fw_getenv w) (fw_namespace w) MAX_NAMESPACE_SIZE error_size of
        Inl e \<Rightarrow> Some (Inl e, client)
      | Inr ns \<Rightarrow>
          (case read_trimmed (fw_token w) MAX_TOKEN_SIZE of
             None \<Rightarrow> Some (Inl (snprintf error_size no_token_error), client)
           | Some token \<Rightarrow>
               (let h = set_options (request_url ns) (auth_header token) timeout client
                in case easy_perform curl h (body_callback w) empty_body of
                     None \<Rightarrow> None
                   | Some (tr, body) \<Rightarrow>
                       Some (fetch_result api curl w tr body error_size, drop_pointers h))))"

section \<open>What a request guarantees\<close>

text \<open>No option of the handle points into a stack frame or at a freed header list.\<close>

definition handle_clean :: "easy_handle \<Rightarrow> bool" where
  "handle_clean h \<longleftrightarrow> opt_httpheader h = None \<and> opt_errorbuffer h = None \<and> opt_writedata h = None"

lemma new_handle_clean [simp]: "handle_clean new_handle"
  by (simp add: handle_clean_def new_handle_def)

lemma drop_pointers_clean [simp]: "handle_clean (drop_pointers h)"
  by (simp add: handle_clean_def drop_pointers_def)

text \<open>
  C37. The handle outlives the call and keeps no pointer into it: whichever way the request
  ends - no namespace, no token, a transport error, a refusal, a list - a handle that held
  no pointer into a stack frame before holds none after.
\<close>

theorem fetch_keeps_handle_clean:
  assumes "pod_list_fetch api curl w client timeout error_size = Some (r, client')"
    and "handle_clean client"
  shows "handle_clean client'"
  using assms by (auto simp: pod_list_fetch_def Let_def split: sum.splits option.splits)

lemma fetch_result_list:
  assumes "fetch_result api curl w tr body n = Inr l"
  shows "tr_res tr = CURLE_OK \<and> tr_code tr = 200 \<and>
    (\<exists>s. body_string body = Some s \<and> parse_pod_list api (fw_malloc w) s n = Inr l)"
  using assms by (auto simp: fetch_result_def split: if_splits option.splits)

lemma fetch_list:
  assumes "pod_list_fetch api curl w client timeout n = Some (Inr l, client')"
  shows "\<exists>ns token tr body s.
    resolve_namespace (fw_getenv w) (fw_namespace w) MAX_NAMESPACE_SIZE n = Inr ns
    \<and> read_trimmed (fw_token w) MAX_TOKEN_SIZE = Some token
    \<and> easy_perform curl (set_options (request_url ns) (auth_header token) timeout client)
        (body_callback w) empty_body = Some (tr, body)
    \<and> tr_res tr = CURLE_OK \<and> tr_code tr = 200 \<and> body_string body = Some s
    \<and> parse_pod_list api (fw_malloc w) s n = Inr l"
  using assms
  by (auto simp: pod_list_fetch_def Let_def split: sum.splits option.splits prod.splits
      dest!: fetch_result_list)

lemma fetch_list_ok:
  "pod_list_fetch api curl w client timeout n = Some (Inr l, client') \<Longrightarrow> pod_list_ok l"
  by (drule fetch_list) (auto dest: parse_pod_list_props)

text \<open>
  C22. A list comes only out of an HTTP 200 whose body is a pod list, to a request that carried
  the whole token to the pods of the accepted namespace and was bounded by the time-out: no
  transport error, no refusal and no other document can end as a list, and every list
  returned keeps the promise of the header.
\<close>

theorem fetch_succeeds_only_on_200:
  assumes "pod_list_fetch api curl w client timeout 512 = Some (Inr l, client')"
  shows "\<exists>ns token tr body root items h.
    resolve_namespace (fw_getenv w) (fw_namespace w) MAX_NAMESPACE_SIZE 512 = Inr ns
    \<and> read_trimmed (fw_token w) MAX_TOKEN_SIZE = Some token
    \<and> easy_perform curl h (body_callback w) empty_body = Some (tr, body)
    \<and> opt_url h = Some (full_url ns)
    \<and> opt_httpheader h = Some [''Authorization: Bearer '' @ token, ''Accept: application/json'']
    \<and> opt_timeout h = timeout \<and> opt_xferinfo h = Some abort_when_closing
    \<and> tr_res tr = CURLE_OK \<and> tr_code tr = 200
    \<and> tokener_parse api (the (body_string body)) = Some root
    \<and> object_get_ex api (Some root) ''items'' = Some items \<and> is_array api items
    \<and> pod_list_ok l"
proof -
  from fetch_list [OF assms] obtain ns token tr body s where
    f: "resolve_namespace (fw_getenv w) (fw_namespace w) MAX_NAMESPACE_SIZE 512 = Inr ns"
      "read_trimmed (fw_token w) MAX_TOKEN_SIZE = Some token"
      "easy_perform curl (set_options (request_url ns) (auth_header token) timeout client)
         (body_callback w) empty_body = Some (tr, body)"
      "tr_res tr = CURLE_OK" "tr_code tr = 200" "body_string body = Some s"
      "parse_pod_list api (fw_malloc w) s 512 = Inr l" by blast
  have "request_url ns = full_url ns" using f(1) by (rule accepted_url)
  moreover have "auth_header token = ''Authorization: Bearer '' @ token"
    using f(2) by (rule auth_header_whole)
  ultimately show ?thesis
    using f parse_pod_list_props [OF f(7)] by (fastforce simp: set_options_def)
qed

section \<open>A transfer that succeeds\<close>

text \<open>
  What libcurl's manual says of a transfer that ends with an HTTP 200: the body was handed
  to the callback, in chunks, with the options that were set.
\<close>

definition delivers_200 :: "curl_api \<Rightarrow> easy_handle \<Rightarrow> write_callback \<Rightarrow> char list list \<Rightarrow> bool" where
  "delivers_200 curl h callback chunks \<longleftrightarrow>
     easy_perform curl h callback empty_body =
       map_option (\<lambda>b. (\<lparr>tr_res = CURLE_OK, tr_code = 200, tr_error = []\<rparr>, b))
         (deliver callback chunks empty_body)"

lemma callback_alloc_ok:
  "fw_realloc w = (\<lambda>_. True) \<Longrightarrow> deliver (body_callback w) = receive (fw_junk w)"
  unfolding receive_def by (rule arg_cong [of _ _ deliver]) (simp add: body_callback_def fun_eq_iff)

lemma fetch_response:
  assumes "resolve_namespace (fw_getenv w) (fw_namespace w) MAX_NAMESPACE_SIZE n = Inr ns"
    and "read_trimmed (fw_token w) MAX_TOKEN_SIZE = Some token"
    and "fw_realloc w = (\<lambda>_. True)"
    and "delivers_200 curl (set_options (request_url ns) (auth_header token) timeout client)
           (body_callback w) chunks"
    and "chunks \<noteq> []" and "length (concat chunks) < 2 ^ 63"
  shows "\<exists>client'. pod_list_fetch api curl w client timeout n =
     Some (parse_pod_list api (fw_malloc w) (c_string_of (concat chunks)) n, client')"
proof -
  have "unat (rb_size empty_body) + length (concat chunks) < 2 ^ 63"
    using assms(6) by (simp add: empty_body_def)
  from receive_all [OF empty_body_ok(1) this, of "fw_junk w"] assms(5) obtain b where
    b: "receive (fw_junk w) chunks empty_body = Some b" "body_ok b"
       "body_bytes b = concat chunks" "rb_data b \<noteq> None" by auto
  from body_string_bytes [OF b(2,4)] b(3)
  have "body_string b = Some (c_string_of (concat chunks))" by (simp add: c_string_of_def)
  with assms(1,2,4) b(1) callback_alloc_ok [OF assms(3)] show ?thesis
    by (simp add: pod_list_fetch_def Let_def delivers_200_def fetch_result_def)
qed

text \<open>
  What the API server sends is what is parsed: when a transfer of fewer than \<open>2 ^ 63\<close>
  bytes ends with an HTTP 200 and memory is not exhausted, the outcome of the request is the
  outcome of parsing the response, however it was cut into chunks (up to a NUL in it).
\<close>

theorem fetch_parses_response:
  assumes "resolve_namespace (fw_getenv w) (fw_namespace w) MAX_NAMESPACE_SIZE n = Inr ns"
    and "read_trimmed (fw_token w) MAX_TOKEN_SIZE = Some token"
    and "fw_realloc w = (\<lambda>_. True)"
    and "delivers_200 curl (set_options (request_url ns) (auth_header token) timeout client)
           (body_callback w) chunks"
    and "chunks \<noteq> []" and "length (concat chunks) < 2 ^ 63"
  shows "\<exists>client'. pod_list_fetch api curl w client timeout n =
     Some (parse_pod_list api (fw_malloc w) (c_string_of (concat chunks)) n, client')"
  using assms by (rule fetch_response)

section \<open>Witnesses\<close>

text \<open>A libcurl that answers every request with the given chunks and an HTTP 200.\<close>

definition demo_curl :: "char list list \<Rightarrow> curl_api" where
  "demo_curl chunks = \<lparr>easy_perform = (\<lambda>h callback b.
       map_option (\<lambda>b. (\<lparr>tr_res = CURLE_OK, tr_code = 200, tr_error = []\<rparr>, b))
         (deliver callback chunks b)),
     easy_strerror = (\<lambda>_. ''error'')\<rparr>"

definition demo_world :: fetch_world where
  "demo_world = \<lparr>fw_getenv = demo_env ''DEPLOYMENT_ENV'' ''prod-1'', fw_namespace = None,
     fw_token = Some ''token'', fw_junk = (\<lambda>_. ch_nul), fw_realloc = (\<lambda>_. True), fw_malloc = True\<rparr>"

lemma demo_token: "read_trimmed (fw_token demo_world) MAX_TOKEN_SIZE = Some ''token''"
  by (simp add: demo_world_def MAX_TOKEN_SIZE_def) code_simp

lemma demo_namespace:
  "resolve_namespace (fw_getenv demo_world) (fw_namespace demo_world) MAX_NAMESPACE_SIZE 512
     = Inr ''prod-1''"
  by (simp add: demo_world_def resolve_demo)

lemma demo_delivers:
  "delivers_200 (demo_curl chunks) h (body_callback demo_world) chunks"
  by (simp add: delivers_200_def demo_curl_def)

lemma fetch_parses_response_witness:
  "\<exists>client'. pod_list_fetch demo_api (demo_curl [''po'', ''ds'']) demo_world new_handle 5 512
     = Some (Inr demo_list, client')"
proof -
  have "c_string_of (concat [''po'', ''ds'']) = ''pods''" by (simp add: c_string_of_def ch_defs)
  then show ?thesis
    using fetch_parses_response [OF demo_namespace demo_token _ demo_delivers
        [of "[''po'', ''ds'']"], of demo_api new_handle 5] demo_parsed
    by (simp add: demo_world_def)
qed

lemma demo_fetched:
  obtains client' where
    "pod_list_fetch demo_api (demo_curl [''pods'']) demo_world new_handle 5 512
       = Some (Inr demo_list, client')"
proof -
  have "c_string_of (concat [''pods'']) = ''pods''" by (simp add: c_string_of_def ch_defs)
  then have "\<exists>client'. pod_list_fetch demo_api (demo_curl [''pods'']) demo_world new_handle 5 512
      = Some (Inr demo_list, client')"
    using fetch_response [OF demo_namespace demo_token _ demo_delivers
        [of "[''pods'']"], of demo_api new_handle 5] demo_parsed
    by (simp add: demo_world_def)
  then show thesis using that by blast
qed

lemma fetch_keeps_handle_clean_witness:
  "\<exists>r client'. pod_list_fetch demo_api (demo_curl [''pods'']) demo_world new_handle 5 512
     = Some (r, client') \<and> handle_clean client'"
proof -
  obtain client' where
    f: "pod_list_fetch demo_api (demo_curl [''pods'']) demo_world new_handle 5 512
       = Some (Inr demo_list, client')" by (rule demo_fetched)
  then have "handle_clean client'" by (rule fetch_keeps_handle_clean) simp
  with f show ?thesis by blast
qed

lemma fetch_succeeds_only_on_200_witness:
  "\<exists>ns. resolve_namespace (fw_getenv demo_world) (fw_namespace demo_world) MAX_NAMESPACE_SIZE 512
     = Inr ns \<and> pod_list_ok demo_list"
proof -
  obtain client' where
    "pod_list_fetch demo_api (demo_curl [''pods'']) demo_world new_handle 5 512
       = Some (Inr demo_list, client')" by (rule demo_fetched)
  from fetch_succeeds_only_on_200 [OF this] show ?thesis by blast
qed

end
