(* ===== verification/Pod_Cache.thy ===== *)
theory Pod_Cache
  imports Pod_Fetch
begin

text \<open>
  \<^verbatim>\<open>pod_cache.c\<close>: the reference-counted snapshots and the operations on them, over an
  explicit heap, so that a use after free or a double free is visible (the result is
  \<open>None\<close>). The mutex-protected sections are definitions of their own (\<open>release_locked\<close>,
  \<open>pod_cache_acquire\<close>, \<open>publish_swap\<close>): they are the atomic steps of the concurrent
  model in theory \<open>Cache_Threads\<close>. Then the retry delay.
\<close>

section \<open>State\<close>

definition MAX_RETRY_DELAY :: int where "MAX_RETRY_DELAY = 30"
definition FAILURE_REMINDER :: int where "FAILURE_REMINDER = 60"

text \<open>Pointers are numbers; a block that is not allocated (or freed) is \<open>None\<close>.\<close>

record PodSnapshot =
  ps_refs :: int
  ps_received_at :: int
  ps_pods :: nat

record cache =
  snapshots :: "nat \<Rightarrow> PodSnapshot option"
  lists :: "nat \<Rightarrow> PodList option"
  current :: "nat option"
  max_age :: int
  refresher_running :: bool
  client :: "easy_handle option"

definition empty_cache :: cache where
  "empty_cache = \<lparr>snapshots = (\<lambda>_. None), lists = (\<lambda>_. None), current = None, max_age = 0,
     refresher_running = False, client = None\<rparr>"

section \<open>Operations\<close>

text \<open>The whole seconds of the monotonic clock, which counts nanoseconds.\<close>

definition now_seconds :: "int \<Rightarrow> int" where
  "now_seconds monotonic = monotonic div 1000000000"

definition pod_list_free :: "nat option \<Rightarrow> cache \<Rightarrow> cache option" where
  "pod_list_free list c =
     (case list of
        None \<Rightarrow> Some c
      | Some l \<Rightarrow> (case lists c l of
                    None \<Rightarrow> None
                  | Some _ \<Rightarrow> Some (c\<lparr>lists := (lists c)(l := None)\<rparr>)))"

definition free_snapshot :: "nat \<Rightarrow> cache \<Rightarrow> cache option" where
  "free_snapshot p c =
     (case snapshots c p of
        None \<Rightarrow> None
      | Some s \<Rightarrow>
          (case pod_list_free (Some (ps_pods s)) c of
             None \<Rightarrow> None
           | Some c1 \<Rightarrow> Some (c1\<lparr>snapshots := (snapshots c1)(p := None)\<rparr>)))"

text \<open>\<open>const int refs = --owned->refs\<close> under the mutex.\<close>

definition release_locked :: "nat \<Rightarrow> cache \<Rightarrow> (int \<times> cache) option" where
  "release_locked p c =
     (case snapshots c p of
        None \<Rightarrow> None
      | Some s \<Rightarrow> Some (ps_refs s - 1,
                     c\<lparr>snapshots := (snapshots c)(p \<mapsto> s\<lparr>ps_refs := ps_refs s - 1\<rparr>)\<rparr>))"

definition pod_cache_release :: "nat option \<Rightarrow> cache \<Rightarrow> cache option" where
  "pod_cache_release snapshot c =
     (case snapshot of
        None \<Rightarrow> Some c
      | Some owned \<Rightarrow>
          (case release_locked owned c of
             None \<Rightarrow> None
           | Some (refs, c1) \<Rightarrow> if refs = 0 then free_snapshot owned c1 else Some c1))"

lemmas release_defs [pod_simps] = pod_list_free_def free_snapshot_def release_locked_def
  pod_cache_release_def

definition pod_cache_acquire :: "int \<Rightarrow> cache \<Rightarrow> (nat option \<times> cache) option" where
  "pod_cache_acquire now c =
     (case current c of
        None \<Rightarrow> Some (None, c)
      | Some p \<Rightarrow>
          (case snapshots c p of
             None \<Rightarrow> None
           | Some s \<Rightarrow>
               if max_age c > 0 \<and> now - ps_received_at s > max_age c
               then Some (None, c)
               else Some (Some p, c\<lparr>snapshots := (snapshots c)(p \<mapsto> s\<lparr>ps_refs := ps_refs s + 1\<rparr>)\<rparr>)))"

definition publish_alloc :: "nat \<Rightarrow> int \<Rightarrow> nat \<Rightarrow> cache \<Rightarrow> cache" where
  "publish_alloc p now pods c =
     c\<lparr>snapshots := (snapshots c)(p \<mapsto> \<lparr>ps_refs = 1, ps_received_at = now, ps_pods = pods\<rparr>)\<rparr>"

definition publish_swap :: "nat option \<Rightarrow> cache \<Rightarrow> nat option \<times> cache" where
  "publish_swap snapshot c = (current c, c\<lparr>current := snapshot\<rparr>)"

text \<open>\<open>block\<close> is what \<open>malloc\<close> returned for the snapshot.\<close>

definition publish :: "nat option \<Rightarrow> int \<Rightarrow> nat \<Rightarrow> cache \<Rightarrow> (bool \<times> cache) option" where
  "publish block now pods c =
     (case block of
        None \<Rightarrow> map_option (\<lambda>c1. (False, c1)) (pod_list_free (Some pods) c)
      | Some p \<Rightarrow>
          (case publish_swap (Some p) (publish_alloc p now pods c) of
             (previous, c1) \<Rightarrow> map_option (\<lambda>c2. (True, c2)) (pod_cache_release previous c1)))"

text \<open>The count, and the age stored through the pointer (left alone with no current list).\<close>

definition describe_current :: "int \<Rightarrow> int \<Rightarrow> cache \<Rightarrow> (nat \<times> int) option" where
  "describe_current now age c =
     (case current c of
        None \<Rightarrow> Some (0, age)
      | Some p \<Rightarrow>
          (case snapshots c p of
             None \<Rightarrow> None
           | Some s \<Rightarrow>
               (case lists c (ps_pods s) of
                  None \<Rightarrow> None
                | Some l \<Rightarrow> Some (pl_count l, now - ps_received_at s))))"

definition is_expired :: "int \<Rightarrow> cache \<Rightarrow> bool option" where
  "is_expired now c =
     (if \<not> max_age c > 0 then Some False
      else (case describe_current now 0 c of
              None \<Rightarrow> None
            | Some (n, age) \<Rightarrow> Some (n \<noteq> 0 \<and> age > max_age c)))"

section \<open>Starting and stopping\<close>

text \<open>
  The outcomes of \<open>malloc\<close>, \<open>curl_easy_init\<close> and \<open>pthread_create\<close> are arguments;
  what the refresh thread then does is theory \<open>Refresher\<close>.
\<close>

definition pod_cache_start :: "environ \<Rightarrow> bool \<Rightarrow> bool \<Rightarrow> bool \<Rightarrow> cache \<Rightarrow> bool \<times> cache" where
  "pod_cache_start getenv malloc_ok init_ok thread_ok c =
     (if refresher_running c then (True, c)
      else let c1 = c\<lparr>max_age := get_pods_max_age getenv,
                      client := pod_list_client_create malloc_ok init_ok\<rparr>
           in if client c1 = None then (False, c1)
              else if \<not> thread_ok
              then (False, c1\<lparr>client := pod_list_client_destroy (client c1)\<rparr>)
              else (True, c1\<lparr>refresher_running := True\<rparr>))"

definition pod_cache_stop :: "cache \<Rightarrow> cache option" where
  "pod_cache_stop c =
     (let c1 = (if refresher_running c then c\<lparr>refresher_running := False\<rparr> else c);
          c2 = c1\<lparr>client := pod_list_client_destroy (client c1)\<rparr>;
          (previous, c3) = publish_swap None c2
      in pod_cache_release previous c3)"

section \<open>The retry delay\<close>

text \<open>
  \<open>for (int i = 1; i < failures && delay < cap; i++) delay *= 2\<close>, with a signed overflow
  of the product as \<open>None\<close>.
\<close>

function delay_loop :: "int \<Rightarrow> int \<Rightarrow> int \<Rightarrow> int \<Rightarrow> int option" where
  "delay_loop i failures cap delay =
     (if i < failures \<and> delay < cap
      then (case int_mul delay 2 of
              None \<Rightarrow> None
            | Some d \<Rightarrow> delay_loop (i + 1) failures cap d)
      else Some delay)"
  by pat_completeness auto
termination
  by (relation "measure (\<lambda>(i, failures, cap, delay). nat (failures - i))") auto

declare delay_loop.simps [simp del]

definition next_delay :: "int \<Rightarrow> int \<Rightarrow> int option" where
  "next_delay refresh failures =
     (let cap = (if refresh > MAX_RETRY_DELAY then refresh else MAX_RETRY_DELAY)
      in map_option (\<lambda>delay. if delay < cap then delay else cap)
           (delay_loop 1 failures cap refresh))"

lemma delay_loop_doubles:
  assumes "0 < delay" and "cap \<le> 2 ^ 30"
  shows "\<exists>d. delay_loop i failures cap delay = Some d
           \<and> min d cap = min (delay * 2 ^ nat (failures - i)) cap"
  using assms
proof (induction i failures cap delay rule: delay_loop.induct)
  case (1 i failures cap delay)
  show ?case
  proof (cases "i < failures \<and> delay < cap")
    case False
    have "min delay cap = min (delay * 2 ^ nat (failures - i)) cap"
    proof (cases "i < failures")
      case True
      have "delay \<le> delay * 2 ^ nat (failures - i)" using "1.prems"(1) by simp
      with True \<open>\<not> (i < failures \<and> delay < cap)\<close> show ?thesis by linarith
    qed simp
    with False show ?thesis by (subst delay_loop.simps) auto
  next
    case True
    with "1.prems" have m: "int_mul delay 2 = Some (delay * 2)"
      by (auto simp: int_mul_def in_int_def)
    from "1.IH" [OF True m] "1.prems" obtain d where
      d: "delay_loop (i + 1) failures cap (delay * 2) = Some d"
        "min d cap = min (delay * 2 * 2 ^ nat (failures - (i + 1))) cap" by auto
    have "nat (failures - i) = Suc (nat (failures - (i + 1)))" using True by arith
    with d True m show ?thesis by (subst delay_loop.simps) simp
  qed
qed

lemma next_delay_value:
  assumes "1 \<le> refresh"
  shows "next_delay refresh failures =
    Some (min (refresh * 2 ^ nat (failures - 1)) (max refresh MAX_RETRY_DELAY))"
proof (cases "refresh \<le> MAX_RETRY_DELAY")
  case True
  then obtain d where d: "delay_loop 1 failures 30 refresh = Some d"
    "min d 30 = min (refresh * 2 ^ nat (failures - 1)) 30"
    using delay_loop_doubles [of refresh 30 1 failures] assms by auto
  have "(if d < 30 then d else 30) = min d 30" by (auto simp: min_def)
  with d(2) have "(if d < 30 then d else 30) = min (refresh * 2 ^ nat (failures - 1)) 30" by simp
  with True d(1) show ?thesis by (simp add: next_delay_def Let_def MAX_RETRY_DELAY_def max_def)
next
  case False
  have "refresh \<le> refresh * 2 ^ nat (failures - 1)" using assms by simp
  then have "min (refresh * 2 ^ nat (failures - 1)) refresh = refresh" by (rule min_absorb2)
  moreover have "max refresh MAX_RETRY_DELAY = refresh" using False by simp
  moreover have "delay_loop 1 failures refresh refresh = Some refresh"
    by (subst delay_loop.simps) simp
  ultimately show ?thesis using False by (simp add: next_delay_def Let_def)
qed

text \<open>
  The retry delay: for every refresh interval and every number of failures in a row no
  signed multiplication overflows, and the delay is the interval doubled for each failure
  after the first, capped at 30 seconds or at the interval where that is longer.
\<close>

theorem next_delay_doubles_to_cap:
  assumes "1 \<le> refresh" and "1 \<le> failures"
  shows "next_delay refresh failures =
      Some (min (refresh * 2 ^ nat (failures - 1)) (max refresh MAX_RETRY_DELAY))
    \<and> next_delay refresh 1 = Some refresh
    \<and> (\<forall>d. next_delay refresh failures = Some d \<longrightarrow>
         refresh \<le> d \<and> d \<le> max refresh 30
         \<and> (\<exists>d'. next_delay refresh (failures + 1) = Some d' \<and> d \<le> d'))"
proof -
  have one: "next_delay refresh 1 = Some refresh" using next_delay_value [OF assms(1), of 1] by simp
  have "refresh \<le> min (refresh * 2 ^ nat (failures - 1)) (max refresh MAX_RETRY_DELAY)"
    using assms(1) by simp
  moreover have "refresh * 2 ^ nat (failures - 1) \<le> refresh * 2 ^ nat (failures + 1 - 1)"
    using assms by (intro mult_left_mono power_increasing) auto
  ultimately show ?thesis
    using one next_delay_value [OF assms(1), of failures]
      next_delay_value [OF assms(1), of "failures + 1"]
    by (auto simp: MAX_RETRY_DELAY_def min_def)
qed

lemma next_delay_doubles_to_cap_witness:
  "next_delay 5 3 = Some 20 \<and> next_delay 5 4 = Some 30"
  using next_delay_doubles_to_cap [of 5 3] next_delay_doubles_to_cap [of 5 4]
  by (simp add: MAX_RETRY_DELAY_def)

end
