(* ===== verification/Cache_Ownership.thy ===== *)
theory Cache_Ownership
  imports Pod_Cache
begin

text \<open>
  The ownership discipline of the pod cache: who holds references on which snapshot, and
  what that says of the counters and of the blocks that are allocated. One preservation
  lemma per atomic section; the sequential functions compose them, and the locale
  \<open>pod_source\<close> is the contract a reader of the cache relies on.
\<close>

section \<open>The invariant\<close>

text \<open>
  \<open>held p\<close> references on snapshot \<open>p\<close> are in the hands of threads, the snapshots in
  \<open>dying\<close> have no reference left and are about to be freed, and the lists in \<open>loose\<close>
  were received but not published. Every counter is exact, exactly the snapshots that
  somebody can still reach are allocated, each with a list of its own that keeps the promise
  of \<^verbatim>\<open>pod_list.h\<close> and is not empty, and no list is lost.
\<close>

definition good_list :: "PodList \<Rightarrow> bool" where
  "good_list l \<longleftrightarrow> pod_list_ok l \<and> 0 < pl_count l"

definition refs_exact :: "(nat \<Rightarrow> nat) \<Rightarrow> cache \<Rightarrow> bool" where
  "refs_exact held c \<longleftrightarrow>
     (\<forall>p s. snapshots c p = Some s \<longrightarrow>
        ps_refs s = (if current c = Some p then 1 else 0) + int (held p))"

definition alive :: "(nat \<Rightarrow> nat) \<Rightarrow> nat set \<Rightarrow> cache \<Rightarrow> bool" where
  "alive held dying c \<longleftrightarrow>
     (\<forall>p. snapshots c p \<noteq> None \<longleftrightarrow> 0 < held p \<or> current c = Some p \<or> p \<in> dying)
     \<and> (\<forall>p\<in>dying. held p = 0 \<and> current c \<noteq> Some p)"

definition list_of :: "cache \<Rightarrow> nat \<Rightarrow> nat option" where
  "list_of c p = map_option ps_pods (snapshots c p)"

definition lists_owned :: "nat set \<Rightarrow> (nat \<Rightarrow> nat option) \<Rightarrow> (nat \<Rightarrow> PodList option) \<Rightarrow> bool" where
  "lists_owned loose own blocks \<longleftrightarrow>
     inj_on own (dom own) \<and> loose \<inter> ran own = {} \<and> dom blocks = loose \<union> ran own
     \<and> (\<forall>l\<in>ran own. good_list (the (blocks l))) \<and> (\<forall>l\<in>loose. pod_list_ok (the (blocks l)))"

definition cache_inv :: "(nat \<Rightarrow> nat) \<Rightarrow> nat set \<Rightarrow> nat set \<Rightarrow> cache \<Rightarrow> bool" where
  "cache_inv held dying loose c \<longleftrightarrow>
     refs_exact held c \<and> alive held dying c \<and> lists_owned loose (list_of c) (lists c)"

lemma cache_inv_empty: "cache_inv (\<lambda>_. 0) {} {} empty_cache"
proof -
  have "list_of empty_cache = Map.empty" by (simp add: list_of_def empty_cache_def fun_eq_iff)
  then show ?thesis
    by (simp add: cache_inv_def refs_exact_def alive_def lists_owned_def empty_cache_def)
qed

text \<open>What the updates of the sections do to the map from snapshots to lists.\<close>

lemma list_of_simps [simp]:
  "list_of (c\<lparr>snapshots := f\<rparr>) = (\<lambda>p. map_option ps_pods (f p))"
  "list_of (c\<lparr>lists := g\<rparr>) = list_of c" "list_of (c\<lparr>current := x\<rparr>) = list_of c"
  "list_of (c\<lparr>max_age := m\<rparr>) = list_of c" "list_of (c\<lparr>refresher_running := r\<rparr>) = list_of c"
  "list_of (c\<lparr>client := h\<rparr>) = list_of c"
  by (simp_all add: list_of_def fun_eq_iff)

lemma list_of_refs [simp]:
  "snapshots c p = Some s \<Longrightarrow>
     (\<lambda>q. map_option ps_pods (((snapshots c)(p \<mapsto> s\<lparr>ps_refs := n\<rparr>)) q)) = list_of c"
  by (auto simp: list_of_def fun_eq_iff)

lemma list_of_upd:
  "(\<lambda>q. map_option ps_pods (((snapshots c)(p := x)) q)) = (list_of c)(p := map_option ps_pods x)"
  by (auto simp: list_of_def fun_eq_iff)

text \<open>Freeing, receiving, dropping and publishing a list.\<close>

lemma ran_remove: "inj_on own (dom own) \<Longrightarrow> own p = Some l \<Longrightarrow> ran (own(p := None)) = ran own - {l}"
  by (auto simp: ran_def inj_on_def; metis domI option.inject)

lemma inj_on_remove: "inj_on own (dom own) \<Longrightarrow> inj_on (own(p := None)) (dom (own(p := None)))"
  by (auto simp: inj_on_def)

lemma lists_owned_free:
  assumes "lists_owned loose own blocks" and "own p = Some l"
  shows "lists_owned loose (own(p := None)) (blocks(l := None))"
proof -
  from assms have inj: "inj_on own (dom own)" by (simp add: lists_owned_def)
  from assms(2) have "l \<in> ran own" by (rule ranI)
  with assms(1) ran_remove [OF inj assms(2)] inj_on_remove [OF inj] show ?thesis
    by (auto simp: lists_owned_def)
qed

lemma lists_owned_fetched:
  assumes "lists_owned loose own blocks" and "blocks l = None" and "pod_list_ok pods"
  shows "lists_owned (insert l loose) own (blocks(l \<mapsto> pods))"
proof -
  from assms have "l \<notin> ran own" "l \<notin> loose" by (auto simp: lists_owned_def)
  with assms show ?thesis by (auto simp: lists_owned_def)
qed

lemma lists_owned_drop:
  assumes "lists_owned loose own blocks" and "l \<in> loose"
  shows "lists_owned (loose - {l}) own (blocks(l := None))"
proof -
  from assms have "l \<notin> ran own" by (auto simp: lists_owned_def)
  with assms show ?thesis by (auto simp: lists_owned_def)
qed

lemma lists_owned_publish:
  assumes "lists_owned loose own blocks" and "l \<in> loose" and "own p = None"
    and "blocks l = Some pods" and "0 < pl_count pods"
  shows "lists_owned (loose - {l}) (own(p \<mapsto> l)) blocks"
proof -
  from assms have "l \<notin> ran own" by (auto simp: lists_owned_def)
  with assms(1) have "inj_on (own(p \<mapsto> l)) (dom (own(p \<mapsto> l)))"
    by (auto simp: lists_owned_def inj_on_def ran_def)
  moreover have "good_list pods" using assms by (auto simp: lists_owned_def good_list_def)
  ultimately show ?thesis using assms \<open>l \<notin> ran own\<close> by (auto simp: lists_owned_def)
qed

lemma owned_list:
  assumes "lists_owned loose own blocks" and "own p = Some l"
  shows "\<exists>pods. blocks l = Some pods \<and> good_list pods"
proof -
  from assms(2) have "l \<in> ran own" by (rule ranI)
  with assms(1) have "l \<in> dom blocks" "good_list (the (blocks l))" by (auto simp: lists_owned_def)
  then show ?thesis by auto
qed

section \<open>The atomic sections keep it\<close>

lemma alive_snapshot:
  "cache_inv held dying loose c \<Longrightarrow> 0 < held p \<or> current c = Some p \<or> p \<in> dying \<Longrightarrow>
     \<exists>s. snapshots c p = Some s"
  unfolding cache_inv_def alive_def by blast

lemma acquire_inv:
  assumes "cache_inv held dying loose c"
  shows "(\<exists>p c'. pod_cache_acquire now c = Some (Some p, c')
            \<and> cache_inv (held(p := Suc (held p))) dying loose c')
         \<or> pod_cache_acquire now c = Some (None, c)"
proof (cases "current c")
  case None
  then show ?thesis by (simp add: pod_cache_acquire_def)
next
  case (Some p)
  with assms obtain s where s: "snapshots c p = Some s" using alive_snapshot by blast
  let ?c = "c\<lparr>snapshots := (snapshots c)(p \<mapsto> s\<lparr>ps_refs := ps_refs s + 1\<rparr>)\<rparr>"
  from assms s Some have "refs_exact (held(p := Suc (held p))) ?c"
    by (auto simp: cache_inv_def refs_exact_def)
  moreover from assms s Some have "alive (held(p := Suc (held p))) dying ?c"
    by (auto simp: cache_inv_def alive_def)
  ultimately have "cache_inv (held(p := Suc (held p))) dying loose ?c"
    using assms s by (simp add: cache_inv_def del: fun_upd_apply)
  then show ?thesis using Some s by (auto simp: pod_cache_acquire_def)
qed

lemma release_inv:
  assumes "cache_inv held dying loose c" and "0 < held p"
  shows "\<exists>refs c'. release_locked p c = Some (refs, c') \<and> p \<notin> dying
     \<and> cache_inv (held(p := held p - 1)) (if refs = 0 then insert p dying else dying) loose c'"
proof -
  from assms obtain s where s: "snapshots c p = Some s" using alive_snapshot by blast
  let ?c = "c\<lparr>snapshots := (snapshots c)(p \<mapsto> s\<lparr>ps_refs := ps_refs s - 1\<rparr>)\<rparr>"
  have dying: "p \<notin> dying" using assms by (auto simp: cache_inv_def alive_def)
  have refs: "ps_refs s = (if current c = Some p then 1 else 0) + int (held p)"
    using assms s by (simp add: cache_inv_def refs_exact_def)
  from assms s have "refs_exact (held(p := held p - 1)) ?c"
    by (auto simp: cache_inv_def refs_exact_def)
  moreover have "alive (held(p := held p - 1))
      (if ps_refs s - 1 = 0 then insert p dying else dying) ?c"
    using assms s dying refs by (auto simp: cache_inv_def alive_def split: if_splits)
  ultimately have "cache_inv (held(p := held p - 1))
      (if ps_refs s - 1 = 0 then insert p dying else dying) loose ?c"
    using assms s by (simp add: cache_inv_def del: fun_upd_apply)
  then show ?thesis using s dying by (simp add: release_locked_def)
qed

lemma free_inv:
  assumes "cache_inv held dying loose c" and "p \<in> dying"
  shows "\<exists>c'. free_snapshot p c = Some c' \<and> cache_inv held (dying - {p}) loose c'"
proof -
  from assms obtain s where s: "snapshots c p = Some s" using alive_snapshot by blast
  then have own: "list_of c p = Some (ps_pods s)" by (simp add: list_of_def)
  with assms obtain l where l: "lists c (ps_pods s) = Some l"
    using owned_list by (fastforce simp: cache_inv_def)
  let ?c = "c\<lparr>lists := (lists c)(ps_pods s := None), snapshots := (snapshots c)(p := None)\<rparr>"
  from assms have "refs_exact held ?c" by (auto simp: cache_inv_def refs_exact_def)
  moreover from assms have "alive held (dying - {p}) ?c" by (auto simp: cache_inv_def alive_def)
  moreover from assms own have "lists_owned loose (list_of ?c) (lists ?c)"
    by (simp add: cache_inv_def list_of_upd lists_owned_free del: fun_upd_apply)
  ultimately show ?thesis using s l
    by (simp add: free_snapshot_def pod_list_free_def cache_inv_def)
qed

lemma fetched_inv:
  assumes "cache_inv held dying loose c" and "lists c l = None" and "pod_list_ok pods"
  shows "cache_inv held dying (insert l loose) (c\<lparr>lists := (lists c)(l \<mapsto> pods)\<rparr>)"
  using assms by (simp add: cache_inv_def refs_exact_def alive_def lists_owned_fetched)

lemma drop_list_inv:
  assumes "cache_inv held dying loose c" and "l \<in> loose"
  shows "\<exists>c'. pod_list_free (Some l) c = Some c' \<and> cache_inv held dying (loose - {l}) c'"
proof -
  from assms have "l \<in> dom (lists c)" by (auto simp: cache_inv_def lists_owned_def)
  with assms show ?thesis
    by (auto simp: pod_list_free_def cache_inv_def refs_exact_def alive_def lists_owned_drop)
qed

lemma alloc_inv:
  assumes "cache_inv held dying loose c" and "l \<in> loose" and "snapshots c p = None"
    and "lists c l = Some pods" and "0 < pl_count pods"
  shows "held p = 0 \<and> current c \<noteq> Some p
     \<and> cache_inv (held(p := 1)) dying (loose - {l}) (publish_alloc p now l c)"
proof -
  have "\<not> (0 < held p \<or> current c = Some p \<or> p \<in> dying)"
  proof
    assume "0 < held p \<or> current c = Some p \<or> p \<in> dying"
    from alive_snapshot [OF assms(1) this] assms(3) show False by simp
  qed
  then have p: "held p = 0" "current c \<noteq> Some p" "p \<notin> dying" by auto
  let ?c = "publish_alloc p now l c"
  from assms p have "refs_exact (held(p := 1)) ?c"
    by (auto simp: cache_inv_def refs_exact_def publish_alloc_def)
  moreover from assms p have "alive (held(p := 1)) dying ?c"
    by (auto simp: cache_inv_def alive_def publish_alloc_def)
  moreover have "lists_owned (loose - {l}) (list_of ?c) (lists ?c)"
    using assms
    by (simp add: cache_inv_def publish_alloc_def list_of_upd lists_owned_publish list_of_def
        del: fun_upd_apply)
  ultimately show ?thesis using p by (simp add: cache_inv_def)
qed

text \<open>
  Exchanging the current snapshot: the reference of the thread becomes that of the cache, and
  the cache's reference on the previous snapshot is now the thread's.
\<close>

definition give_ref :: "nat option \<Rightarrow> (nat \<Rightarrow> nat) \<Rightarrow> nat \<Rightarrow> nat" where
  "give_ref p held = (case p of None \<Rightarrow> held | Some q \<Rightarrow> held(q := held q - 1))"

definition take_ref :: "nat option \<Rightarrow> (nat \<Rightarrow> nat) \<Rightarrow> nat \<Rightarrow> nat" where
  "take_ref p held = (case p of None \<Rightarrow> held | Some q \<Rightarrow> held(q := Suc (held q)))"

lemma swap_inv:
  assumes "cache_inv held dying loose c" and "\<forall>p. new = Some p \<longrightarrow> 0 < held p"
  shows "cache_inv (take_ref (current c) (give_ref new held)) dying loose (c\<lparr>current := new\<rparr>)"
proof -
  have "refs_exact (take_ref (current c) (give_ref new held)) (c\<lparr>current := new\<rparr>)"
    using assms by (auto simp: cache_inv_def refs_exact_def take_ref_def give_ref_def
        split: option.split)
  moreover have "alive (take_ref (current c) (give_ref new held)) dying (c\<lparr>current := new\<rparr>)"
    using assms
    by (cases new; cases "current c") (auto simp: cache_inv_def alive_def take_ref_def give_ref_def)
  ultimately show ?thesis using assms by (simp add: cache_inv_def)
qed

section \<open>The operations\<close>

text \<open>
  Between two operations of a thread that runs alone nothing is dying: a release that
  takes the last reference frees the snapshot at once.
\<close>

lemma release_op_inv:
  assumes "cache_inv held {} loose c" and "0 < held p"
  shows "\<exists>c'. pod_cache_release (Some p) c = Some c' \<and> cache_inv (held(p := held p - 1)) {} loose c'"
proof -
  from release_inv [OF assms] obtain refs c1 where r: "release_locked p c = Some (refs, c1)"
    and inv: "cache_inv (held(p := held p - 1)) (if refs = 0 then {p} else {}) loose c1"
    by auto
  show ?thesis
  proof (cases "refs = 0")
    case True
    with inv have "cache_inv (held(p := held p - 1)) {p} loose c1" by simp
    from free_inv [OF this, of p] r True show ?thesis by (auto simp: pod_cache_release_def)
  next
    case False
    with r inv show ?thesis by (simp add: pod_cache_release_def)
  qed
qed

text \<open>What the operations of a reader do not touch.\<close>

lemma release_frame:
  "pod_cache_release p c = Some c' \<Longrightarrow>
     current c' = current c \<and> max_age c' = max_age c \<and> client c' = client c
     \<and> refresher_running c' = refresher_running c"
  by (auto simp: pod_simps
      split: option.splits if_splits)

lemma acquire_frame:
  "pod_cache_acquire now c = Some (r, c') \<Longrightarrow>
     current c' = current c \<and> max_age c' = max_age c \<and> client c' = client c
     \<and> refresher_running c' = refresher_running c \<and> lists c' = lists c"
  by (auto simp: pod_cache_acquire_def split: option.splits if_splits)

section \<open>What the cache stands for\<close>

text \<open>
  Seen from outside the cache is one optional entry: the last published list and the time
  it was received.
\<close>

definition pods_of :: "cache \<Rightarrow> nat \<Rightarrow> PodList option" where
  "pods_of c p = (case snapshots c p of None \<Rightarrow> None | Some s \<Rightarrow> lists c (ps_pods s))"

definition cache_view :: "cache \<Rightarrow> (PodList \<times> int) option" where
  "cache_view c =
     (case current c of
        None \<Rightarrow> None
      | Some p \<Rightarrow> (case (snapshots c p, pods_of c p) of
                     (Some s, Some l) \<Rightarrow> Some (l, ps_received_at s)
                   | _ \<Rightarrow> None))"

lemma inv_pods_of:
  assumes "cache_inv held dying loose c" and "0 < held p \<or> current c = Some p \<or> p \<in> dying"
  shows "\<exists>s l. snapshots c p = Some s \<and> lists c (ps_pods s) = Some l \<and> pods_of c p = Some l
           \<and> good_list l"
proof -
  from alive_snapshot [OF assms] obtain s where s: "snapshots c p = Some s" by blast
  then have "list_of c p = Some (ps_pods s)" by (simp add: list_of_def)
  with assms(1) obtain l where "lists c (ps_pods s) = Some l" "good_list l"
    using owned_list by (fastforce simp: cache_inv_def)
  with s show ?thesis by (simp add: pods_of_def)
qed

lemma view_current:
  assumes "cache_inv held dying loose c"
  shows "(current c = None \<and> cache_view c = None)
         \<or> (\<exists>p s l. current c = Some p \<and> snapshots c p = Some s \<and> lists c (ps_pods s) = Some l
              \<and> cache_view c = Some (l, ps_received_at s) \<and> good_list l)"
  using inv_pods_of [OF assms] by (cases "current c") (fastforce simp: cache_view_def)+

definition stored :: "cache \<Rightarrow> nat \<Rightarrow> (int \<times> nat) option" where
  "stored c p = map_option (\<lambda>s. (ps_received_at s, ps_pods s)) (snapshots c p)"

lemma view_same:
  assumes "current c' = current c" and "lists c' = lists c" and "stored c' = stored c"
  shows "cache_view c' = cache_view c \<and> pods_of c' = pods_of c"
proof -
  have pods: "pods_of c' p = pods_of c p" for p
    using assms(2) fun_cong [OF assms(3), of p]
    by (cases "snapshots c p"; cases "snapshots c' p") (auto simp: stored_def pods_of_def)
  moreover have "cache_view c' = cache_view c"
  proof (cases "current c")
    case None
    with assms(1) show ?thesis by (simp add: cache_view_def)
  next
    case (Some p)
    with assms(1) pods fun_cong [OF assms(3), of p] show ?thesis
      by (cases "snapshots c p"; cases "snapshots c' p")
         (auto simp: stored_def cache_view_def split: option.split)
  qed
  ultimately show ?thesis by (simp add: fun_eq_iff)
qed

lemma release_others:
  "pod_cache_release (Some q) c = Some c' \<Longrightarrow> p \<noteq> q \<Longrightarrow> snapshots c' p = snapshots c p"
  by (auto simp: pod_simps
      split: option.splits if_splits)

lemma release_lists:
  "pod_cache_release r c = Some c' \<Longrightarrow> lists c' l = Some x \<Longrightarrow> lists c l = Some x"
  by (auto simp: pod_simps
      split: option.splits if_splits)

lemma acquire_view:
  assumes "pod_cache_acquire now c = Some (r, c')"
  shows "cache_view c' = cache_view c \<and> pods_of c' = pods_of c"
proof (rule view_same)
  show "stored c' = stored c"
    using assms
    by (auto simp: pod_cache_acquire_def stored_def fun_eq_iff split: option.splits if_splits)
qed (use acquire_frame [OF assms] in auto)

text \<open>Releasing a reference on a snapshot that is current does not change the view.\<close>

lemma release_view:
  assumes "cache_inv held {} loose c" and "0 < held p" and "pod_cache_release (Some p) c = Some c'"
  shows "cache_view c' = cache_view c"
proof -
  from release_op_inv [OF assms(1,2)] assms(3)
  have inv: "cache_inv (held(p := held p - 1)) {} loose c'" by simp
  note fr = release_frame [OF assms(3)]
  show ?thesis
  proof (cases "current c")
    case None
    with fr show ?thesis by (simp add: cache_view_def)
  next
    case (Some q)
    with view_current [OF assms(1)] obtain s l where q: "snapshots c q = Some s"
      "lists c (ps_pods s) = Some l" "cache_view c = Some (l, ps_received_at s)" by auto
    from view_current [OF inv] Some fr obtain s' l' where q': "snapshots c' q = Some s'"
      "lists c' (ps_pods s') = Some l'" "cache_view c' = Some (l', ps_received_at s')" by auto
    have "ps_pods s' = ps_pods s \<and> ps_received_at s' = ps_received_at s"
    proof (cases "q = p")
      case True
      with assms(3) q(1) q'(1) show ?thesis
        by (auto simp: pod_simps split: option.splits if_splits)
    next
      case False
      with release_others [OF assms(3)] q(1) q'(1) show ?thesis by simp
    qed
    with q q' release_lists [OF assms(3) q'(2)] show ?thesis by simp
  qed
qed

lemma publish_op_inv:
  assumes inv: "cache_inv held {} loose c" and "l \<in> loose" and "snapshots c p = None"
    and "lists c l = Some pods" and "0 < pl_count pods"
  shows "\<exists>c'. publish (Some p) now l c = Some (True, c') \<and> cache_inv held {} (loose - {l}) c'
     \<and> cache_view c' = Some (pods, now) \<and> max_age c' = max_age c"
proof -
  let ?c1 = "publish_alloc p now l c" and ?c2 = "(publish_alloc p now l c)\<lparr>current := Some p\<rparr>"
  from alloc_inv [OF assms] have p: "held p = 0" "current c \<noteq> Some p"
    and inv1: "cache_inv (held(p := 1)) {} (loose - {l}) ?c1" by auto
  have cur1: "current ?c1 = current c" by (simp add: publish_alloc_def)
  have "give_ref (Some p) (held(p := 1)) = held" using p(1) by (auto simp: give_ref_def)
  with swap_inv [OF inv1, of "Some p"] cur1
  have inv2: "cache_inv (take_ref (current c) held) {} (loose - {l}) ?c2" by simp
  have c2: "snapshots ?c2 p = Some \<lparr>ps_refs = 1, ps_received_at = now, ps_pods = l\<rparr>"
    "lists ?c2 l = Some pods" "max_age ?c2 = max_age c"
    using assms(4) by (simp_all add: publish_alloc_def)
  have view: "cache_view c' = Some (pods, now)"
    if "current c' = Some p" "snapshots c' p = snapshots ?c2 p"
      "cache_inv h {} L c'" "\<And>l x. lists c' l = Some x \<Longrightarrow> lists ?c2 l = Some x" for c' h L
    using view_current [OF that(3)] that(1,2,4) c2 by auto
  show ?thesis
  proof (cases "current c")
    case None
    with inv2 c2 view [of ?c2] cur1 show ?thesis
      by (auto simp: publish_def publish_swap_def pod_cache_release_def take_ref_def)
  next
    case (Some q)
    with inv2 have inv2': "cache_inv (held(q := Suc (held q))) {} (loose - {l}) ?c2"
      by (simp add: take_ref_def)
    from release_op_inv [OF this, of q] obtain c' where c':
      "pod_cache_release (Some q) ?c2 = Some c'" "cache_inv held {} (loose - {l}) c'" by auto
    note fr = release_frame [OF c'(1)]
    from Some p have "p \<noteq> q" by auto
    from view [OF _ release_others [OF c'(1) this] c'(2) release_lists [OF c'(1)]] fr
    have "cache_view c' = Some (pods, now)" by simp
    with c' Some cur1 fr c2 show ?thesis
      by (auto simp: publish_def publish_swap_def)
  qed
qed

lemma publish_oom_inv:
  assumes "cache_inv held {} loose c" and "l \<in> loose"
  shows "\<exists>c'. publish None now l c = Some (False, c') \<and> cache_inv held {} (loose - {l}) c'
     \<and> cache_view c' = cache_view c"
proof -
  from drop_list_inv [OF assms] obtain c' where c': "pod_list_free (Some l) c = Some c'"
    "cache_inv held {} (loose - {l}) c'" by blast
  then have eq: "c' = c\<lparr>lists := (lists c)(l := None)\<rparr>"
    by (auto simp: pod_list_free_def split: option.splits)
  have "cache_view c' = cache_view c"
    using view_current [OF assms(1)] view_current [OF c'(2)] by (auto simp: eq split: if_splits)
  with c' show ?thesis by (simp add: publish_def)
qed

text \<open>The settings of the cache play no part.\<close>

lemma cache_inv_frame [simp]:
  "cache_inv held dying loose (c\<lparr>client := h\<rparr>) = cache_inv held dying loose c"
  "cache_inv held dying loose (c\<lparr>max_age := n\<rparr>) = cache_inv held dying loose c"
  "cache_inv held dying loose (c\<lparr>refresher_running := b\<rparr>) = cache_inv held dying loose c"
  by (simp_all add: cache_inv_def refs_exact_def alive_def)

lemma cache_view_client [simp]: "cache_view (c\<lparr>client := h\<rparr>) = cache_view c"
  using view_same [of "c\<lparr>client := h\<rparr>" c] by (simp add: stored_def fun_eq_iff)

section \<open>The contract of a source of pods\<close>

text \<open>
  What a reader of the cache relies on: taking a snapshot and giving it back never fault and
  keep the cache well-formed, a snapshot held has a good list behind it, and neither
  operation changes what the cache stands for.
\<close>

locale pod_source =
  fixes acquire :: "int \<Rightarrow> 'c \<Rightarrow> (nat option \<times> 'c) option"
    and release :: "nat option \<Rightarrow> 'c \<Rightarrow> 'c option"
    and content :: "'c \<Rightarrow> nat \<Rightarrow> PodList option"
    and view :: "'c \<Rightarrow> (PodList \<times> int) option"
    and inv :: "(nat \<Rightarrow> nat) \<Rightarrow> 'c \<Rightarrow> bool"
  assumes acquire_law: "inv held c \<Longrightarrow>
      \<exists>r c'. acquire now c = Some (r, c') \<and> view c' = view c
        \<and> (case r of None \<Rightarrow> c' = c
           | Some p \<Rightarrow> inv (held(p := Suc (held p))) c'
               \<and> content c' p = map_option fst (view c'))"
    and content_law: "inv held c \<Longrightarrow> 0 < held p \<Longrightarrow> \<exists>l. content c p = Some l \<and> good_list l"
    and release_law: "inv held c \<Longrightarrow> 0 < held p \<Longrightarrow>
      \<exists>c'. release (Some p) c = Some c' \<and> inv (held(p := held p - 1)) c' \<and> view c' = view c"
    and release_null: "release None c = Some c"
begin

text \<open>
  A reader's turn: acquire, look at the list, release. It never faults, the list it sees is
  good and is the one the cache stands for, and the cache is as it was.
\<close>

lemma reader_turn:
  assumes "inv held c"
  shows "\<exists>r c1 c2. acquire now c = Some (r, c1) \<and> release r c1 = Some c2
     \<and> inv held c2 \<and> view c2 = view c
     \<and> (\<forall>p. r = Some p \<longrightarrow> (\<exists>l. content c1 p = Some l \<and> good_list l
           \<and> map_option fst (view c) = Some l))"
proof -
  from acquire_law [OF assms] obtain r c1 where a: "acquire now c = Some (r, c1)" "view c1 = view c"
    "case r of None \<Rightarrow> c1 = c | Some p \<Rightarrow> inv (held(p := Suc (held p))) c1
       \<and> content c1 p = map_option fst (view c1)" by blast
  show ?thesis
  proof (cases r)
    case None
    with a assms release_null show ?thesis by auto
  next
    case (Some p)
    with a have i: "inv (held(p := Suc (held p))) c1" by simp
    from release_law [OF i, of p] obtain c2 where
      "release (Some p) c1 = Some c2" "inv held c2" "view c2 = view c1" by auto
    moreover from content_law [OF i, of p] obtain l where l: "content c1 p = Some l" "good_list l" by auto
    moreover have "map_option fst (view c) = Some l" using a Some l(1) by simp
    ultimately show ?thesis using a Some by fastforce
  qed
qed

end

interpretation cache_source: pod_source pod_cache_acquire pod_cache_release pods_of cache_view
  "\<lambda>held c. \<exists>loose. cache_inv held {} loose c"
proof unfold_locales
  fix held :: "nat \<Rightarrow> nat" and c :: cache and now :: int
  assume "\<exists>loose. cache_inv held {} loose c"
  then obtain loose where inv: "cache_inv held {} loose c" by blast
  show "\<exists>r c'. pod_cache_acquire now c = Some (r, c') \<and> cache_view c' = cache_view c
        \<and> (case r of None \<Rightarrow> c' = c
           | Some p \<Rightarrow> (\<exists>loose. cache_inv (held(p := Suc (held p))) {} loose c')
               \<and> pods_of c' p = map_option fst (cache_view c'))"
  proof (cases "pod_cache_acquire now c = Some (None, c)")
    case True
    then show ?thesis by auto
  next
    case False
    with acquire_inv [OF inv] obtain p c' where a: "pod_cache_acquire now c = Some (Some p, c')"
      "cache_inv (held(p := Suc (held p))) {} loose c'" by metis
    then have "current c = Some p" by (auto simp: pod_cache_acquire_def split: option.splits if_splits)
    with view_current [OF inv] have "pods_of c p = map_option fst (cache_view c)"
      by (auto simp: pods_of_def)
    with a acquire_view [OF a(1)] show ?thesis by auto
  qed
next
  fix held :: "nat \<Rightarrow> nat" and c :: cache and p :: nat
  assume "\<exists>loose. cache_inv held {} loose c" and h: "0 < held p"
  then obtain loose where inv: "cache_inv held {} loose c" by blast
  show "\<exists>l. pods_of c p = Some l \<and> good_list l" using inv_pods_of [OF inv] h by blast
  from release_op_inv [OF inv h] release_view [OF inv h]
  show "\<exists>c'. pod_cache_release (Some p) c = Some c'
      \<and> (\<exists>loose. cache_inv (held(p := held p - 1)) {} loose c') \<and> cache_view c' = cache_view c"
    by blast
qed (simp add: pod_cache_release_def)

section \<open>Properties\<close>

lemma acquire_value:
  assumes "cache_inv held {} loose c"
  shows "\<exists>r c'. pod_cache_acquire now c = Some (r, c') \<and> cache_view c' = cache_view c \<and>
     (case cache_view c of
        None \<Rightarrow> r = None
      | Some (l, received_at) \<Rightarrow>
          if 0 < max_age c \<and> max_age c < now - received_at then r = None
          else (\<exists>p. r = Some p \<and> pods_of c' p = Some l \<and> good_list l
                  \<and> cache_inv (held(p := Suc (held p))) {} loose c'))"
  using view_current [OF assms]
proof
  assume "current c = None \<and> cache_view c = None"
  then show ?thesis by (simp add: pod_cache_acquire_def)
next
  assume "\<exists>p s l. current c = Some p \<and> snapshots c p = Some s \<and> lists c (ps_pods s) = Some l
              \<and> cache_view c = Some (l, ps_received_at s) \<and> good_list l"
  then obtain p s l where v: "current c = Some p" "snapshots c p = Some s"
    "lists c (ps_pods s) = Some l" "cache_view c = Some (l, ps_received_at s)" "good_list l"
    by blast
  show ?thesis
  proof (cases "0 < max_age c \<and> max_age c < now - ps_received_at s")
    case True
    with v show ?thesis by (simp add: pod_cache_acquire_def)
  next
    case False
    let ?c = "c\<lparr>snapshots := (snapshots c)(p \<mapsto> s\<lparr>ps_refs := ps_refs s + 1\<rparr>)\<rparr>"
    from False v have a: "pod_cache_acquire now c = Some (Some p, ?c)"
      by (simp add: pod_cache_acquire_def)
    with acquire_inv [OF assms, of now] have "cache_inv (held(p := Suc (held p))) {} loose ?c"
      by auto
    moreover have "pods_of ?c p = Some l" using v by (simp add: pods_of_def)
    ultimately show ?thesis using a v False acquire_view [OF a] by auto
  qed
qed

text \<open>
  C10. Acquiring: the reader gets exactly the last published list, with a reference that keeps it
  allocated, or NULL - when nothing was published, or when a maximal age is set and the list
  is older than it; and it never faults or changes what the cache holds.
\<close>

theorem acquire_returns_last_published:
  assumes "cache_inv held {} loose c"
  shows "\<exists>r c'. pod_cache_acquire now c = Some (r, c') \<and> cache_view c' = cache_view c \<and>
     (case cache_view c of
        None \<Rightarrow> r = None
      | Some (l, received_at) \<Rightarrow>
          if 0 < max_age c \<and> max_age c < now - received_at then r = None
          else (\<exists>p. r = Some p \<and> pods_of c' p = Some l \<and> good_list l
                  \<and> cache_inv (held(p := Suc (held p))) {} loose c'))"
  using assms by (rule acquire_value)

text \<open>
  Publishing: a received list with at least one pod becomes the current one, received now; the
  previous snapshot is freed unless readers still hold it, the counters stay exact and nothing is
  leaked or freed twice. Without memory for the snapshot the list is freed and the previous
  one stays current.
\<close>

theorem publish_replaces_current:
  assumes "cache_inv held {} {l} c" and "lists c l = Some pods" and "0 < pl_count pods"
    and "\<forall>p. block = Some p \<longrightarrow> snapshots c p = None"
  shows "\<exists>c'. publish block now l c = Some (block \<noteq> None, c') \<and> cache_inv held {} {} c'
     \<and> cache_view c' = (if block \<noteq> None then Some (pods, now) else cache_view c)"
proof (cases block)
  case None
  with publish_oom_inv [OF assms(1), of l now] show ?thesis by auto
next
  case (Some p)
  with publish_op_inv [OF assms(1) _ _ assms(2,3), of p now] assms(4) show ?thesis by auto
qed

lemma stop_frees:
  assumes "cache_inv (\<lambda>_. 0) {} {} c"
  shows "\<exists>c'. pod_cache_stop c = Some c' \<and> snapshots c' = (\<lambda>_. None) \<and> lists c' = (\<lambda>_. None)
     \<and> current c' = None \<and> client c' = None \<and> \<not> refresher_running c' \<and> max_age c' = max_age c
     \<and> cache_inv (\<lambda>_. 0) {} {} c'"
proof -
  let ?c2 = "c\<lparr>refresher_running := False, client := None\<rparr>" and
    ?c3 = "c\<lparr>refresher_running := False, client := None, current := None\<rparr>"
  have inv2: "cache_inv (\<lambda>_. 0) {} {} ?c2"
    using assms by (simp add: cache_inv_def refs_exact_def alive_def)
  from swap_inv [OF this, of None]
  have inv3: "cache_inv (take_ref (current c) (\<lambda>_. 0)) {} {} ?c3" by (simp add: give_ref_def)
  have idle: "c\<lparr>client := None, current := None\<rparr> = ?c3" if "\<not> refresher_running c"
    using that by (cases c) simp
  have stop: "pod_cache_stop c = pod_cache_release (current c) ?c3"
    by (simp add: idle pod_cache_stop_def pod_list_client_destroy_def publish_swap_def Let_def
        split: option.split)
  have "\<exists>c'. pod_cache_release (current c) ?c3 = Some c' \<and> cache_inv (\<lambda>_. 0) {} {} c'
      \<and> current c' = None \<and> client c' = None \<and> \<not> refresher_running c' \<and> max_age c' = max_age c"
  proof (cases "current c")
    case None
    with inv3 show ?thesis by (auto simp: pod_cache_release_def take_ref_def)
  next
    case (Some q)
    with inv3 have "cache_inv ((\<lambda>_. 0)(q := Suc 0)) {} {} ?c3" by (simp add: take_ref_def)
    moreover have "(\<lambda>_. 0)(q := 0) = (\<lambda>_. 0 :: nat)" by auto
    ultimately obtain c' where
      "pod_cache_release (Some q) ?c3 = Some c'" "cache_inv (\<lambda>_. 0) {} {} c'"
      using release_op_inv [of "(\<lambda>_. 0)(q := Suc 0)" "{}" ?c3 q] by auto
    with Some release_frame [OF this(1)] show ?thesis by auto
  qed
  then obtain c' where c': "pod_cache_release (current c) ?c3 = Some c'"
    "cache_inv (\<lambda>_. 0) {} {} c'" "current c' = None" "client c' = None"
    "\<not> refresher_running c'" "max_age c' = max_age c" by blast
  have "snapshots c' p = None" for p using c'(2,3) by (simp add: cache_inv_def alive_def)
  then have "snapshots c' = (\<lambda>_. None)" by blast
  then have "list_of c' = (\<lambda>_. None)" by (simp add: list_of_def fun_eq_iff)
  with c'(2) have "dom (lists c') = {}" by (simp add: cache_inv_def lists_owned_def)
  with c' stop \<open>snapshots c' = _\<close> show ?thesis by auto
qed

text \<open>
  Stopping: once every reader has given its snapshot back, \<open>pod_cache_stop\<close> frees the current
  list and with it the last block - no snapshot and no list stays allocated - and leaves no
  client and no refresher; a stop with nothing started is a no-op without a fault.
\<close>

theorem stop_frees_everything:
  assumes "cache_inv (\<lambda>_. 0) {} {} c"
  shows "\<exists>c'. pod_cache_stop c = Some c' \<and> snapshots c' = (\<lambda>_. None) \<and> lists c' = (\<lambda>_. None)
     \<and> current c' = None \<and> client c' = None \<and> \<not> refresher_running c'"
  using stop_frees [OF assms] by blast

section \<open>Witnesses\<close>

text \<open>
  A list of two pods in block 7 is received at time 100, published as snapshot 3, read by one
  reader and given back.
\<close>

definition demo_received :: cache where
  "demo_received = empty_cache\<lparr>lists := (lists empty_cache)(7 \<mapsto> demo_list)\<rparr>"

definition demo_published :: cache where
  "demo_published = the (map_option snd (publish (Some 3) 100 7 demo_received))"

lemma demo_list_good: "good_list demo_list"
  using parse_pod_list_props [OF demo_parsed] by (auto simp: good_list_def demo_list_def)

lemma demo_received_inv: "cache_inv (\<lambda>_. 0) {} {7} demo_received"
  using fetched_inv [OF cache_inv_empty, of 7 demo_list] demo_list_good
  by (simp add: demo_received_def good_list_def empty_cache_def)

lemma demo_published_inv:
  "cache_inv (\<lambda>_. 0) {} {} demo_published \<and> cache_view demo_published = Some (demo_list, 100)
   \<and> max_age demo_published = 0"
  using publish_op_inv [OF demo_received_inv, of 7 3 demo_list 100]
  by (auto simp: demo_published_def demo_received_def empty_cache_def demo_list_def)

lemma acquire_returns_last_published_witness:
  "\<exists>r c'. pod_cache_acquire 5000 demo_published = Some (Some r, c') \<and> pods_of c' r = Some demo_list"
  using acquire_returns_last_published [of "\<lambda>_. 0" "{}" demo_published 5000] demo_published_inv
  by auto

lemma publish_replaces_current_witness:
  "\<exists>c'. publish (Some 3) 100 7 demo_received = Some (True, c')
     \<and> cache_view c' = Some (demo_list, 100)"
  using publish_replaces_current [OF demo_received_inv, of demo_list "Some 3" 100]
  by (simp add: demo_received_def empty_cache_def demo_list_def) blast

lemma stop_frees_everything_witness:
  "\<exists>c'. pod_cache_stop demo_published = Some c' \<and> snapshots c' = (\<lambda>_. None) \<and> current c' = None"
  using stop_frees_everything [of demo_published] demo_published_inv by blast

end
