(* ===== verification/Cache_Threads.thy ===== *)
theory Cache_Threads
  imports Cache_Ownership
begin

text \<open>
  The pod cache used by any number of threads at once: readers that acquire, use and
  release snapshots, refreshers that publish received lists, and a thread that stops the
  cache. A step of the relation is one section of \<^verbatim>\<open>pod_cache.c\<close> that no other
  thread can see the middle of: a mutex-protected one, or one on a block only that thread can
  reach. An operation that would touch freed memory sends its thread to \<open>Faulted\<close>.
\<close>

section \<open>Threads and steps\<close>

text \<open>
  Where a thread is: outside the cache; between \<open>pod_cache_acquire\<close> and its release, using
  the list; before the locked decrement of \<open>pod_cache_release\<close>; having taken the counter to
  zero, before \<open>free_snapshot\<close>; with a list \<open>pod_list_fetch\<close> returned; with a snapshot
  \<open>publish\<close> has filled in but not yet made current.
\<close>

datatype cache_pc =
    Idle | Reading nat | Releasing nat | Freeing nat | Fetched nat | Allocated nat | Faulted

record cache_sys =
  shared :: cache
  cache_pcs :: "nat \<Rightarrow> cache_pc"

text \<open>What a thread does next with the outcome of a section; no outcome is a fault.\<close>

definition resume :: "nat \<Rightarrow> cache_sys \<Rightarrow> (cache_pc \<times> cache) option \<Rightarrow> cache_sys" where
  "resume t s r =
     (case r of
        None \<Rightarrow> s\<lparr>cache_pcs := (cache_pcs s)(t := Faulted)\<rparr>
      | Some (pc, c) \<Rightarrow> \<lparr>shared = c, cache_pcs = (cache_pcs s)(t := pc)\<rparr>)"

definition after_acquire :: "nat option \<times> cache \<Rightarrow> cache_pc \<times> cache" where
  "after_acquire r = (case r of (None, c) \<Rightarrow> (Idle, c) | (Some p, c) \<Rightarrow> (Reading p, c))"

definition after_decrement :: "nat \<Rightarrow> int \<times> cache \<Rightarrow> cache_pc \<times> cache" where
  "after_decrement p r = (case r of (refs, c) \<Rightarrow> (if refs = 0 then Freeing p else Idle, c))"

definition after_swap :: "nat option \<times> cache \<Rightarrow> cache_pc \<times> cache" where
  "after_swap r = (case r of (None, c) \<Rightarrow> (Idle, c) | (Some p, c) \<Rightarrow> (Releasing p, c))"

text \<open>
  \<open>malloc\<close> returns a block that is not allocated. Reading \<open>snapshot->pods\<close> is a step of its
  own (\<open>cache_read\<close>), so that a reader may look at the list again and again.
\<close>

inductive cache_step :: "cache_sys \<Rightarrow> cache_sys \<Rightarrow> bool" where
  cache_acquire: "cache_pcs s t = Idle \<Longrightarrow>
    cache_step s (resume t s (map_option after_acquire (pod_cache_acquire now (shared s))))"
| cache_read: "cache_pcs s t = Reading p \<Longrightarrow>
    cache_step s (resume t s (map_option (\<lambda>l. (Reading p, shared s)) (pods_of (shared s) p)))"
| cache_release: "cache_pcs s t = Reading p \<Longrightarrow>
    cache_step s (resume t s (Some (Releasing p, shared s)))"
| cache_decrement: "cache_pcs s t = Releasing p \<Longrightarrow>
    cache_step s (resume t s (map_option (after_decrement p) (release_locked p (shared s))))"
| cache_free: "cache_pcs s t = Freeing p \<Longrightarrow>
    cache_step s (resume t s (map_option (\<lambda>c. (Idle, c)) (free_snapshot p (shared s))))"
| cache_fetch: "cache_pcs s t = Idle \<Longrightarrow> lists (shared s) l = None \<Longrightarrow> pod_list_ok pods \<Longrightarrow>
    cache_step s (resume t s (Some (Fetched l, (shared s)\<lparr>lists := (lists (shared s))(l \<mapsto> pods)\<rparr>)))"
| cache_drop: "cache_pcs s t = Fetched l \<Longrightarrow>
    cache_step s (resume t s (map_option (\<lambda>c. (Idle, c)) (pod_list_free (Some l) (shared s))))"
| cache_alloc: "cache_pcs s t = Fetched l \<Longrightarrow> lists (shared s) l = Some pods \<Longrightarrow>
    pl_count pods \<noteq> 0 \<Longrightarrow> snapshots (shared s) p = None \<Longrightarrow>
    cache_step s (resume t s (Some (Allocated p, publish_alloc p now l (shared s))))"
| cache_swap: "cache_pcs s t = Allocated p \<Longrightarrow>
    cache_step s (resume t s (Some (after_swap (publish_swap (Some p) (shared s)))))"
| cache_describe: "cache_pcs s t = Idle \<Longrightarrow>
    cache_step s (resume t s (map_option (\<lambda>r. (Idle, shared s)) (describe_current now age (shared s))))"
| cache_stop: "cache_pcs s t = Idle \<Longrightarrow>
    cache_step s (resume t s (Some (after_swap (publish_swap None (shared s)))))"

definition cache_start :: "cache_sys \<Rightarrow> bool" where
  "cache_start s \<longleftrightarrow>
     (\<exists>n. shared s = empty_cache\<lparr>max_age := n\<rparr>) \<and> (\<forall>t. cache_pcs s t = Idle)"

section \<open>What the threads own\<close>

fun ref_of :: "cache_pc \<Rightarrow> nat option" where
  "ref_of (Reading p) = Some p"
| "ref_of (Releasing p) = Some p"
| "ref_of (Allocated p) = Some p"
| "ref_of pc = None"

fun dying_of :: "cache_pc \<Rightarrow> nat option" where
  "dying_of (Freeing p) = Some p"
| "dying_of pc = None"

fun list_held :: "cache_pc \<Rightarrow> nat option" where
  "list_held (Fetched l) = Some l"
| "list_held pc = None"

definition holders :: "(nat \<Rightarrow> cache_pc) \<Rightarrow> nat \<Rightarrow> nat set" where
  "holders th p = {t. ref_of (th t) = Some p}"

definition held_by :: "(nat \<Rightarrow> cache_pc) \<Rightarrow> nat \<Rightarrow> nat" where
  "held_by th p = card (holders th p)"

text \<open>Blocks that exactly one thread owns, given what a thread owns at a position.\<close>

definition owned :: "(cache_pc \<Rightarrow> nat option) \<Rightarrow> (nat \<Rightarrow> cache_pc) \<Rightarrow> nat set" where
  "owned f th = {p. \<exists>t. f (th t) = Some p}"

definition exclusive :: "(cache_pc \<Rightarrow> nat option) \<Rightarrow> (nat \<Rightarrow> cache_pc) \<Rightarrow> bool" where
  "exclusive f th \<longleftrightarrow> (\<forall>t u p. f (th t) = Some p \<longrightarrow> f (th u) = Some p \<longrightarrow> t = u)"

definition threads_inv :: "cache_sys \<Rightarrow> bool" where
  "threads_inv s \<longleftrightarrow>
     finite {t. cache_pcs s t \<noteq> Idle} \<and> (\<forall>t. cache_pcs s t \<noteq> Faulted)
     \<and> exclusive dying_of (cache_pcs s) \<and> exclusive list_held (cache_pcs s)
     \<and> cache_inv (held_by (cache_pcs s)) (owned dying_of (cache_pcs s))
         (owned list_held (cache_pcs s)) (shared s)"

lemma finite_holders: "finite {t. th t \<noteq> Idle} \<Longrightarrow> finite (holders th p)"
  by (rule finite_subset [of _ "{t. th t \<noteq> Idle}"]) (auto simp: holders_def)

lemma held_pos: "finite {t. th t \<noteq> Idle} \<Longrightarrow> ref_of (th t) = Some p \<Longrightarrow> 0 < held_by th p"
  unfolding held_by_def by (subst card_gt_0_iff) (auto simp: finite_holders, auto simp: holders_def)

text \<open>Moving one thread moves what it owns.\<close>

lemma finite_upd: "finite {t. th t \<noteq> Idle} \<Longrightarrow> finite {u. (th(t := q)) u \<noteq> Idle}"
  by (rule finite_subset [of _ "insert t {t. th t \<noteq> Idle}"]) auto

lemma holders_upd:
  "holders (th(t := q)) p =
     (if ref_of q = Some p then insert t (holders th p) else holders th p - {t})"
  by (auto simp: holders_def)

lemma held_upd:
  assumes "finite {t. th t \<noteq> Idle}"
  shows "held_by (th(t := q)) = take_ref (ref_of q) (give_ref (ref_of (th t)) (held_by th))"
proof
  fix p
  have fin: "finite (holders th p)" using assms by (rule finite_holders)
  have mem: "t \<in> holders th p \<longleftrightarrow> ref_of (th t) = Some p" by (simp add: holders_def)
  have pos: "0 < card (holders th p)" if "ref_of (th t) = Some p"
    using that fin mem card_gt_0_iff by blast
  show "held_by (th(t := q)) p = take_ref (ref_of q) (give_ref (ref_of (th t)) (held_by th)) p"
    unfolding held_by_def holders_upd take_ref_def give_ref_def
    using fin mem pos
    by (auto simp: card_insert_if card_Diff_singleton_if split: option.split)
qed

lemma owned_upd:
  assumes "exclusive f th"
  shows "owned f (th(t := q)) = (owned f th - set_option (f (th t))) \<union> set_option (f q)"
  using assms by (auto simp: owned_def exclusive_def; metis)

lemma exclusive_upd:
  "exclusive f th \<Longrightarrow> (\<forall>p. f q = Some p \<longrightarrow> p \<notin> owned f th \<or> f (th t) = Some p) \<Longrightarrow>
     exclusive f (th(t := q))"
  by (auto simp: owned_def exclusive_def)

text \<open>The invariant after a section, from what the section does to the cache.\<close>

lemma resume_inv:
  assumes "threads_inv s" and "r = Some (pc, c)" and "pc \<noteq> Faulted"
    and "\<forall>p. dying_of pc = Some p \<longrightarrow> p \<notin> owned dying_of (cache_pcs s)"
    and "\<forall>p. list_held pc = Some p \<longrightarrow> p \<notin> owned list_held (cache_pcs s)"
    and "cache_inv
      (take_ref (ref_of pc) (give_ref (ref_of (cache_pcs s t)) (held_by (cache_pcs s))))
      ((owned dying_of (cache_pcs s) - set_option (dying_of (cache_pcs s t))) \<union> set_option (dying_of pc))
      ((owned list_held (cache_pcs s) - set_option (list_held (cache_pcs s t))) \<union> set_option (list_held pc))
      c"
  shows "threads_inv (resume t s r)"
  using assms
  by (simp add: threads_inv_def resume_def held_upd owned_upd exclusive_upd finite_upd
      del: fun_upd_apply) simp

section \<open>Every step keeps the invariant\<close>

lemma threads_cache_inv:
  "threads_inv s \<Longrightarrow> cache_inv (held_by (cache_pcs s)) (owned dying_of (cache_pcs s))
     (owned list_held (cache_pcs s)) (shared s)"
  by (simp add: threads_inv_def)

lemma threads_held_pos:
  "threads_inv s \<Longrightarrow> ref_of (cache_pcs s t) = Some p \<Longrightarrow> 0 < held_by (cache_pcs s) p"
  by (simp add: threads_inv_def held_pos)

lemma owned_here: "f (th t) = Some p \<Longrightarrow> p \<in> owned f th"
  by (auto simp: owned_def)

lemmas resumed = take_ref_def give_ref_def after_acquire_def after_decrement_def after_swap_def

lemma acquire_step_inv:
  assumes "threads_inv s" and "cache_pcs s t = Idle"
  shows "threads_inv (resume t s (map_option after_acquire (pod_cache_acquire now (shared s))))"
  using acquire_inv [OF threads_cache_inv [OF assms(1)], of now]
proof
  assume "\<exists>p c'. pod_cache_acquire now (shared s) = Some (Some p, c')
    \<and> cache_inv ((held_by (cache_pcs s))(p := Suc (held_by (cache_pcs s) p)))
        (owned dying_of (cache_pcs s)) (owned list_held (cache_pcs s)) c'"
  then show ?thesis using assms by (auto simp: resumed del: fun_upd_apply intro!: resume_inv)
next
  assume "pod_cache_acquire now (shared s) = Some (None, shared s)"
  then show ?thesis using assms threads_cache_inv [OF assms(1)]
    by (auto simp: resumed intro!: resume_inv)
qed

lemma stay_inv:
  assumes "threads_inv s" and "pc \<noteq> Faulted" and "ref_of pc = ref_of (cache_pcs s t)"
    and "dying_of pc = None" and "list_held pc = None"
    and "dying_of (cache_pcs s t) = None" and "list_held (cache_pcs s t) = None"
  shows "threads_inv (resume t s (Some (pc, shared s)))"
proof (rule resume_inv [OF assms(1) refl])
  have "take_ref (ref_of pc) (give_ref (ref_of (cache_pcs s t)) (held_by (cache_pcs s)))
      = held_by (cache_pcs s)"
    using assms(3) threads_held_pos [OF assms(1), of t]
    by (auto simp: resumed fun_eq_iff split: option.split)
  then show "cache_inv
      (take_ref (ref_of pc) (give_ref (ref_of (cache_pcs s t)) (held_by (cache_pcs s))))
      (owned dying_of (cache_pcs s) - set_option (dying_of (cache_pcs s t)) \<union> set_option (dying_of pc))
      (owned list_held (cache_pcs s) - set_option (list_held (cache_pcs s t)) \<union> set_option (list_held pc))
      (shared s)"
    using assms threads_cache_inv [OF assms(1)] by simp
qed (use assms in simp_all)

lemma read_step_ok:
  assumes "threads_inv s" and "cache_pcs s t = Reading p"
  shows "\<exists>l. pods_of (shared s) p = Some l \<and> good_list l"
  using inv_pods_of [OF threads_cache_inv [OF assms(1)], of p]
    threads_held_pos [OF assms(1), of t p] assms(2) by auto

lemma decrement_step_inv:
  assumes "threads_inv s" and "cache_pcs s t = Releasing p"
  shows "threads_inv (resume t s (map_option (after_decrement p) (release_locked p (shared s))))"
proof -
  have "0 < held_by (cache_pcs s) p" using threads_held_pos [OF assms(1), of t p] assms(2) by simp
  from release_inv [OF threads_cache_inv [OF assms(1)] this] obtain refs c' where
    "release_locked p (shared s) = Some (refs, c')" "p \<notin> owned dying_of (cache_pcs s)"
    "cache_inv ((held_by (cache_pcs s))(p := held_by (cache_pcs s) p - 1))
       (if refs = 0 then insert p (owned dying_of (cache_pcs s)) else owned dying_of (cache_pcs s))
       (owned list_held (cache_pcs s)) c'" by blast
  then show ?thesis using assms
    by (auto simp: resumed simp del: fun_upd_apply intro!: resume_inv)
qed

lemma free_step_inv:
  assumes "threads_inv s" and "cache_pcs s t = Freeing p"
  shows "threads_inv (resume t s (map_option (\<lambda>c. (Idle, c)) (free_snapshot p (shared s))))"
proof -
  have "p \<in> owned dying_of (cache_pcs s)" using assms(2) by (intro owned_here [of _ _ t]) simp
  from free_inv [OF threads_cache_inv [OF assms(1)] this] assms show ?thesis
    by (auto simp: resumed intro!: resume_inv)
qed

lemma fetch_step_inv:
  assumes "threads_inv s" and "cache_pcs s t = Idle" and "lists (shared s) l = None"
    and "pod_list_ok pods"
  shows "threads_inv
    (resume t s (Some (Fetched l, (shared s)\<lparr>lists := (lists (shared s))(l \<mapsto> pods)\<rparr>)))"
proof -
  have "l \<notin> owned list_held (cache_pcs s)"
    using threads_cache_inv [OF assms(1)] assms(3) by (auto simp: cache_inv_def lists_owned_def)
  with fetched_inv [OF threads_cache_inv [OF assms(1)] assms(3,4)] assms show ?thesis
    by (auto simp: resumed simp del: fun_upd_apply intro!: resume_inv)
qed

lemma drop_step_inv:
  assumes "threads_inv s" and "cache_pcs s t = Fetched l"
  shows "threads_inv (resume t s (map_option (\<lambda>c. (Idle, c)) (pod_list_free (Some l) (shared s))))"
proof -
  have "l \<in> owned list_held (cache_pcs s)" using assms(2) by (intro owned_here [of _ _ t]) simp
  from drop_list_inv [OF threads_cache_inv [OF assms(1)] this] assms show ?thesis
    by (auto simp: resumed intro!: resume_inv)
qed

lemma alloc_step_inv:
  assumes "threads_inv s" and "cache_pcs s t = Fetched l" and "lists (shared s) l = Some pods"
    and "pl_count pods \<noteq> 0" and "snapshots (shared s) p = None"
  shows "threads_inv (resume t s (Some (Allocated p, publish_alloc p now l (shared s))))"
proof -
  have "l \<in> owned list_held (cache_pcs s)" using assms(2) by (intro owned_here [of _ _ t]) simp
  from alloc_inv [OF threads_cache_inv [OF assms(1)] this assms(5,3)] assms show ?thesis
    by (auto simp: resumed simp del: fun_upd_apply intro!: resume_inv)
qed

lemma swap_step_inv:
  assumes "threads_inv s" and "cache_pcs s t = (case new of None \<Rightarrow> Idle | Some p \<Rightarrow> Allocated p)"
  shows "threads_inv (resume t s (Some (after_swap (publish_swap new (shared s)))))"
proof -
  have "\<forall>p. new = Some p \<longrightarrow> 0 < held_by (cache_pcs s) p"
    using threads_held_pos [OF assms(1), of t] assms(2) by auto
  from swap_inv [OF threads_cache_inv [OF assms(1)] this] assms show ?thesis
    by (auto simp: after_swap_def publish_swap_def intro!: resume_inv split: option.splits)
qed

lemma describe_ok:
  assumes "cache_inv held dying loose c"
  shows "\<exists>r. describe_current now age c = Some r"
  using view_current [OF assms] by (auto simp: describe_current_def)

lemma cache_step_inv: "cache_step s s' \<Longrightarrow> threads_inv s \<Longrightarrow> threads_inv s'"
proof (induction rule: cache_step.induct)
  case (cache_acquire s t now)
  then show ?case by (simp add: acquire_step_inv)
next
  case (cache_read s t p)
  with read_step_ok [OF cache_read(2,1)] show ?case by (auto intro!: stay_inv)
next
  case (cache_release s t p)
  then show ?case by (intro stay_inv) auto
next
  case (cache_decrement s t p)
  then show ?case by (simp add: decrement_step_inv)
next
  case (cache_free s t p)
  then show ?case by (simp add: free_step_inv)
next
  case (cache_fetch s t l pods)
  then show ?case by (simp add: fetch_step_inv)
next
  case (cache_drop s t l)
  then show ?case by (simp add: drop_step_inv)
next
  case (cache_alloc s t l pods p now)
  then show ?case by (simp add: alloc_step_inv)
next
  case (cache_swap s t p)
  then show ?case by (intro swap_step_inv) simp_all
next
  case (cache_describe s t now age)
  with describe_ok [OF threads_cache_inv [OF cache_describe(2)], of now age] show ?case
    by (auto intro!: stay_inv)
next
  case (cache_stop s t)
  then show ?case by (intro swap_step_inv) simp_all
qed

lemma cache_start_inv: "cache_start s \<Longrightarrow> threads_inv s"
proof -
  assume a: "cache_start s"
  then have "held_by (cache_pcs s) = (\<lambda>_. 0)" "owned dying_of (cache_pcs s) = {}"
    "owned list_held (cache_pcs s) = {}"
    by (auto simp: cache_start_def held_by_def holders_def owned_def)
  moreover from a obtain n where "shared s = empty_cache\<lparr>max_age := n\<rparr>"
    by (auto simp: cache_start_def)
  then have "cache_inv (\<lambda>_. 0) {} {} (shared s)"
    using cache_inv_empty by (simp add: cache_inv_def refs_exact_def alive_def)
  ultimately show ?thesis using a by (simp add: threads_inv_def cache_start_def exclusive_def)
qed

interpretation cache_threads: invariant_system cache_start cache_step threads_inv
  by unfold_locales (auto intro: cache_start_inv cache_step_inv)

abbreviation cache_reachable :: "cache_sys \<Rightarrow> bool" where
  "cache_reachable \<equiv> reach cache_start cache_step"

section \<open>A held list does not change\<close>

text \<open>
  Sections that leave the list behind a snapshot alone: all of them, as long as somebody
  holds the snapshot.
\<close>

lemma free_keeps:
  assumes "cache_inv held dying loose c" and "0 < held p" and "q \<in> dying"
    and "free_snapshot q c = Some c'"
  shows "pods_of c' p = pods_of c p"
proof -
  have "p \<noteq> q" using assms(1-3) by (auto simp: cache_inv_def alive_def)
  from alive_snapshot [OF assms(1), of p] assms(2) obtain s where s: "snapshots c p = Some s" by auto
  from alive_snapshot [OF assms(1), of q] assms(3) obtain r where r: "snapshots c q = Some r" by auto
  from assms(1) have "inj_on (list_of c) (dom (list_of c))"
    by (simp add: cache_inv_def lists_owned_def)
  from inj_onD [OF this, of p q] s r \<open>p \<noteq> q\<close> have "ps_pods s \<noteq> ps_pods r"
    by (auto simp: list_of_def dom_def)
  with s r \<open>p \<noteq> q\<close> assms(4) show ?thesis
    by (auto simp: free_snapshot_def pod_list_free_def pods_of_def split: option.splits)
qed

lemma decrement_keeps:
  "release_locked q c = Some (refs, c') \<Longrightarrow> pods_of c' p = pods_of c p"
  by (cases "p = q") (auto simp: release_locked_def pods_of_def split: option.splits)

lemma fetch_keeps:
  assumes "cache_inv held dying loose c" and "0 < held p" and "lists c l = None"
  shows "pods_of (c\<lparr>lists := (lists c)(l \<mapsto> pods)\<rparr>) p = pods_of c p"
  using inv_pods_of [OF assms(1), of p] assms(2,3) by (auto simp: pods_of_def)

lemma drop_keeps:
  assumes "cache_inv held dying loose c" and "0 < held p" and "l \<in> loose"
    and "pod_list_free (Some l) c = Some c'"
  shows "pods_of c' p = pods_of c p"
proof -
  from alive_snapshot [OF assms(1), of p] assms(2) obtain s where s: "snapshots c p = Some s" by auto
  then have "ps_pods s \<in> ran (list_of c)" by (intro ranI [of _ p]) (simp add: list_of_def)
  with assms(1,3) have "ps_pods s \<noteq> l" by (auto simp: cache_inv_def lists_owned_def)
  with s assms(4) show ?thesis by (auto simp: pod_list_free_def pods_of_def split: option.splits)
qed

lemma alloc_keeps:
  assumes "cache_inv held dying loose c" and "0 < held p" and "snapshots c q = None"
  shows "pods_of (publish_alloc q now l c) p = pods_of c p"
proof -
  from alive_snapshot [OF assms(1), of p] assms(2,3) have "p \<noteq> q" by auto
  then show ?thesis by (simp add: publish_alloc_def pods_of_def split: option.split)
qed

lemma pods_resume:
  "(\<And>pc c. r = Some (pc, c) \<Longrightarrow> pods_of c p = pods_of (shared s) p) \<Longrightarrow>
     pods_of (shared (resume t s r)) p = pods_of (shared s) p"
  by (auto simp: resume_def split: option.split)

lemma pods_of_current [simp]: "pods_of (c\<lparr>current := x\<rparr>) p = pods_of c p"
  by (simp add: pods_of_def split: option.split)

lemma step_keeps_list:
  "cache_step s s' \<Longrightarrow> threads_inv s \<Longrightarrow> 0 < held_by (cache_pcs s) p \<Longrightarrow>
     pods_of (shared s') p = pods_of (shared s) p"
proof (induction rule: cache_step.induct)
  case (cache_acquire s t now)
  have "pods_of c = pods_of (shared s)"
    if "pod_cache_acquire now (shared s) = Some (r, c)" for r c
    using acquire_view [OF that] by simp
  then show ?case by (intro pods_resume) (auto simp: after_acquire_def split: option.splits)
next
  case (cache_decrement s t q)
  show ?case by (intro pods_resume) (auto simp: after_decrement_def decrement_keeps)
next
  case (cache_free s t q)
  have q: "q \<in> owned dying_of (cache_pcs s)" using cache_free(1) by (intro owned_here [of _ _ t]) simp
  note free_keeps [OF threads_cache_inv [OF cache_free(2)] cache_free(3) q]
  then show ?case by (intro pods_resume) auto
next
  case (cache_fetch s t l pods)
  then show ?case by (intro pods_resume) (auto simp: fetch_keeps [OF threads_cache_inv])
next
  case (cache_drop s t l)
  have l: "l \<in> owned list_held (cache_pcs s)" using cache_drop(1) by (intro owned_here [of _ _ t]) simp
  note drop_keeps [OF threads_cache_inv [OF cache_drop(2)] cache_drop(3) l]
  then show ?case by (intro pods_resume) auto
next
  case (cache_alloc s t l pods q now)
  then show ?case by (intro pods_resume) (auto simp: alloc_keeps [OF threads_cache_inv])
qed (auto intro!: pods_resume simp: after_swap_def publish_swap_def split: option.splits)

section \<open>Properties\<close>

lemma reachable_reading:
  "cache_reachable s \<Longrightarrow> cache_pcs s t = Reading p \<Longrightarrow>
     \<exists>l. pods_of (shared s) p = Some l \<and> good_list l"
  by (rule read_step_ok [OF cache_threads.reachable_inv])

lemma reachable_refs:
  assumes "cache_reachable s" and "snapshots (shared s) p = Some sn"
  shows "ps_refs sn = (if current (shared s) = Some p then 1 else 0) + int (card (holders (cache_pcs s) p))"
  using threads_cache_inv [OF cache_threads.reachable_inv [OF assms(1)]] assms(2)
  by (simp add: cache_inv_def refs_exact_def held_by_def)

text \<open>
  C9. However the threads interleave, no section of the cache ever reads, decrements or frees a
  snapshot or a list that was freed already: no use after free and no double free. A reader
  between acquire and release always finds a valid list with at least one pod, and the counter
  of an allocated snapshot is the number of threads holding it plus one while it is current.
\<close>

theorem cache_threads_never_fault:
  assumes "cache_reachable s"
  shows "cache_pcs s t \<noteq> Faulted
     \<and> (\<forall>p. cache_pcs s t = Reading p \<longrightarrow> (\<exists>l. pods_of (shared s) p = Some l \<and> good_list l))
     \<and> (\<forall>p sn. snapshots (shared s) p = Some sn \<longrightarrow>
          ps_refs sn = (if current (shared s) = Some p then 1 else 0)
                        + int (card (holders (cache_pcs s) p)))"
  using cache_threads.reachable_inv [OF assms] reachable_reading [OF assms] reachable_refs [OF assms]
  by (simp add: threads_inv_def)

lemma reading_list_kept:
  assumes "(\<lambda>s s'. cache_step s s' \<and> cache_pcs s' t = Reading p)\<^sup>*\<^sup>* s s'"
    and "threads_inv s" and "cache_pcs s t = Reading p"
  shows "threads_inv s' \<and> cache_pcs s' t = Reading p \<and> pods_of (shared s') p = pods_of (shared s) p"
  using assms
proof (induction rule: rtranclp_induct)
  case (step s' s'')
  then have "0 < held_by (cache_pcs s') p" by (intro threads_held_pos [of s' t]) auto
  with step step_keeps_list [of s' s'' p] cache_step_inv [of s' s''] show ?case by auto
qed simp

text \<open>
  C26. The list behind a snapshot a thread is reading is immutable: whatever the other threads do
  meanwhile - publish newer lists, release, free, stop the cache - the reader sees the same
  list in every state until it releases it.
\<close>

theorem held_list_immutable:
  assumes "cache_reachable s" and "cache_pcs s t = Reading p"
    and "(\<lambda>s s'. cache_step s s' \<and> cache_pcs s' t = Reading p)\<^sup>*\<^sup>* s s'"
  shows "pods_of (shared s') p = pods_of (shared s) p \<and> pods_of (shared s') p \<noteq> None"
  using reading_list_kept [OF assms(3) cache_threads.reachable_inv [OF assms(1)] assms(2)]
    reachable_reading [OF assms(1,2)] by auto

lemma idle_owns_nothing:
  assumes "\<forall>t. cache_pcs s t = Idle"
  shows "held_by (cache_pcs s) = (\<lambda>_. 0)" and "owned dying_of (cache_pcs s) = {}"
    and "owned list_held (cache_pcs s) = {}"
  using assms by (auto simp: held_by_def holders_def owned_def)

lemma idle_leaks_nothing:
  assumes "threads_inv s" and "\<forall>t. cache_pcs s t = Idle"
  shows "dom (snapshots (shared s)) = set_option (current (shared s))
     \<and> dom (lists (shared s)) = (\<Union>p\<in>set_option (current (shared s)). set_option (list_of (shared s) p))
     \<and> card (dom (lists (shared s))) = (if current (shared s) = None then 0 else 1)"
proof -
  from threads_cache_inv [OF assms(1)]
  have inv: "cache_inv (\<lambda>_. 0) {} {} (shared s)" by (simp add: idle_owns_nothing [OF assms(2)])
  then have snaps: "dom (snapshots (shared s)) = set_option (current (shared s))"
    by (auto simp: cache_inv_def alive_def)
  from inv have "dom (lists (shared s)) = ran (list_of (shared s))"
    by (simp add: cache_inv_def lists_owned_def)
  moreover have "ran (list_of (shared s))
      = (\<Union>p\<in>set_option (current (shared s)). set_option (list_of (shared s) p))"
    using snaps by (fastforce simp: ran_def list_of_def dom_def)
  moreover have "\<exists>l. list_of (shared s) p = Some l" if "current (shared s) = Some p" for p
    using snaps that by (auto simp: list_of_def)
  ultimately show ?thesis using snaps by (cases "current (shared s)") auto
qed

text \<open>
  Nothing is leaked: whenever every thread is outside the cache, exactly the current
  snapshot and its list are allocated, and nothing at all when there is no current one.
\<close>

theorem cache_leaks_nothing:
  assumes "cache_reachable s" and "\<forall>t. cache_pcs s t = Idle"
  shows "dom (snapshots (shared s)) = set_option (current (shared s))
     \<and> dom (lists (shared s)) = (\<Union>p\<in>set_option (current (shared s)). set_option (list_of (shared s) p))
     \<and> card (dom (lists (shared s))) = (if current (shared s) = None then 0 else 1)"
  by (rule idle_leaks_nothing [OF cache_threads.reachable_inv [OF assms(1)] assms(2)])

section \<open>Witnesses\<close>

text \<open>
  Thread 1 publishes a list as snapshot 3, thread 0 acquires it, thread 1 publishes a second
  one as snapshot 4 and gives up its reference on the first, which thread 0 still reads.
\<close>

definition demo_sys :: "cache \<Rightarrow> cache_pc \<Rightarrow> cache_pc \<Rightarrow> cache_sys" where
  "demo_sys c a b = \<lparr>shared = c, cache_pcs = (\<lambda>_. Idle)(0 := a, 1 := b)\<rparr>"

lemma demo_sys_simps [simp]:
  "shared (demo_sys c a b) = c" "cache_pcs (demo_sys c a b) 0 = a"
  "cache_pcs (demo_sys c a b) (Suc 0) = b"
  "resume 0 (demo_sys c a b) (Some (a', c')) = demo_sys c' a' b"
  "resume (Suc 0) (demo_sys c a b) (Some (b', c')) = demo_sys c' a b'"
  by (auto simp: demo_sys_def resume_def)

definition demo_c1 :: cache where
  "demo_c1 = empty_cache\<lparr>lists := (lists empty_cache)(7 \<mapsto> demo_list)\<rparr>"
definition demo_c2 :: cache where "demo_c2 = publish_alloc 3 100 7 demo_c1"
definition demo_c3 :: cache where "demo_c3 = demo_c2\<lparr>current := Some 3\<rparr>"
definition demo_c4 :: cache where
  "demo_c4 = demo_c3\<lparr>snapshots := (snapshots demo_c3)
     (3 \<mapsto> \<lparr>ps_refs = 2, ps_received_at = 100, ps_pods = 7\<rparr>)\<rparr>"
definition demo_c5 :: cache where "demo_c5 = demo_c4\<lparr>lists := (lists demo_c4)(8 \<mapsto> demo_list)\<rparr>"
definition demo_c6 :: cache where "demo_c6 = publish_alloc 4 160 8 demo_c5"
definition demo_c7 :: cache where "demo_c7 = demo_c6\<lparr>current := Some 4\<rparr>"
definition demo_c8 :: cache where
  "demo_c8 = demo_c7\<lparr>snapshots := (snapshots demo_c7)
     (3 \<mapsto> \<lparr>ps_refs = 1, ps_received_at = 100, ps_pods = 7\<rparr>)\<rparr>"

lemmas demo_caches = demo_c1_def demo_c2_def demo_c3_def demo_c4_def demo_c5_def demo_c6_def
  demo_c7_def demo_c8_def empty_cache_def publish_alloc_def

lemma demo_acquire: "pod_cache_acquire 150 demo_c3 = Some (Some 3, demo_c4)"
  by (simp add: pod_cache_acquire_def demo_caches)

lemma demo_decrement: "release_locked 3 demo_c7 = Some (1, demo_c8)"
  by (simp add: release_locked_def demo_caches)

lemma demo_list_ok: "pod_list_ok demo_list"
  using demo_list_good by (simp add: good_list_def)

lemma demo_reading: "cache_reachable (demo_sys demo_c4 (Reading 3) Idle)"
proof -
  have "cache_reachable (demo_sys empty_cache Idle Idle)"
  proof (rule reach_init)
    have "empty_cache = empty_cache\<lparr>max_age := 0\<rparr>" by (simp add: empty_cache_def)
    then show "cache_start (demo_sys empty_cache Idle Idle)"
      by (auto simp: cache_start_def demo_sys_def)
  qed
  from reach_step [OF this cache_fetch [of _ 1 7 demo_list]]
  have "cache_reachable (demo_sys demo_c1 Idle (Fetched 7))"
    by (simp add: demo_c1_def demo_list_ok) (simp add: empty_cache_def)
  from reach_step [OF this cache_alloc [of _ 1 7 demo_list 3 100]]
  have "cache_reachable (demo_sys demo_c2 Idle (Allocated 3))"
    by (simp add: demo_c2_def) (simp add: demo_caches demo_list_def)
  from reach_step [OF this cache_swap [of _ 1 3]]
  have "cache_reachable (demo_sys demo_c3 Idle Idle)"
    by (simp add: demo_c3_def publish_swap_def after_swap_def) (simp add: demo_caches after_swap_def)
  from reach_step [OF this cache_acquire [of _ 0 150]] show ?thesis
    by (simp add: demo_acquire after_acquire_def)
qed

lemma demo_meanwhile:
  "(\<lambda>s s'. cache_step s s' \<and> cache_pcs s' 0 = Reading 3)\<^sup>*\<^sup>*
     (demo_sys demo_c4 (Reading 3) Idle) (demo_sys demo_c8 (Reading 3) Idle)"
proof -
  let ?step = "\<lambda>s s'. cache_step s s' \<and> cache_pcs s' 0 = Reading 3"
  have "cache_step (demo_sys demo_c4 (Reading 3) Idle) (demo_sys demo_c5 (Reading 3) (Fetched 8))"
    using cache_fetch [of "demo_sys demo_c4 (Reading 3) Idle" 1 8 demo_list]
    by (simp add: demo_c5_def demo_list_ok) (simp add: demo_caches)
  moreover have "cache_step (demo_sys demo_c5 (Reading 3) (Fetched 8))
      (demo_sys demo_c6 (Reading 3) (Allocated 4))"
    using cache_alloc [of "demo_sys demo_c5 (Reading 3) (Fetched 8)" 1 8 demo_list 4 160]
    by (simp add: demo_c6_def) (simp add: demo_caches demo_list_def)
  moreover have "cache_step (demo_sys demo_c6 (Reading 3) (Allocated 4))
      (demo_sys demo_c7 (Reading 3) (Releasing 3))"
    using cache_swap [of "demo_sys demo_c6 (Reading 3) (Allocated 4)" 1 4]
    by (simp add: demo_c7_def publish_swap_def after_swap_def) (simp add: demo_caches)
  moreover have "cache_step (demo_sys demo_c7 (Reading 3) (Releasing 3))
      (demo_sys demo_c8 (Reading 3) Idle)"
    using cache_decrement [of "demo_sys demo_c7 (Reading 3) (Releasing 3)" 1 3]
    by (simp add: demo_decrement after_decrement_def)
  ultimately show ?thesis
    by (intro converse_rtranclp_into_rtranclp [of ?step, OF _ converse_rtranclp_into_rtranclp [of ?step,
          OF _ converse_rtranclp_into_rtranclp [of ?step, OF _ r_into_rtranclp [of ?step]]]]) auto
qed

lemma cache_threads_never_fault_witness:
  "\<exists>l. pods_of demo_c4 3 = Some l \<and> good_list l"
  using cache_threads_never_fault [OF demo_reading, of 0] by simp

lemma held_list_immutable_witness: "pods_of demo_c8 3 = pods_of demo_c4 3 \<and> current demo_c8 = Some 4"
  using held_list_immutable [OF demo_reading _ demo_meanwhile] by (simp add: demo_c8_def demo_c7_def)

lemma cache_leaks_nothing_witness: "dom (snapshots empty_cache) = {}"
proof -
  have "empty_cache = empty_cache\<lparr>max_age := 0\<rparr>" by (simp add: empty_cache_def)
  then have "cache_reachable (demo_sys empty_cache Idle Idle)"
    by (intro reach_init) (auto simp: cache_start_def demo_sys_def)
  from cache_leaks_nothing [OF this] show ?thesis by (simp add: demo_sys_def empty_cache_def)
qed

end
