(* ===== verification/Cache_Register.thy ===== *)
theory Cache_Register
  imports Cache_Threads
begin

text \<open>
  What the pod cache promises its users, as a program that is obviously right: one register that
  holds the last list and when it was received, with lists that are copied to whoever reads
  them - no heap, no counters, nothing to free. The threads of theory \<open>Cache_Threads\<close>, with
  their snapshots, counters and frees, implement it: every step of theirs is a step of the register
  or invisible.
\<close>

section \<open>The register\<close>

text \<open>
  A thread has nothing to do with the register, uses the list it read, offers a list it received,
  or is about to write one with its time.
\<close>

datatype reg_pc = Away | Using PodList int | Offering PodList | Writing PodList int

record register =
  reg_value :: "(PodList \<times> int) option"
  reg_max_age :: int
  reg_pcs :: "nat \<Rightarrow> reg_pc"

text \<open>A read copies the list to the reader, unless there is none or it is too old.\<close>

definition register_read :: "nat \<Rightarrow> int \<Rightarrow> register \<Rightarrow> register" where
  "register_read t now r =
     (case reg_value r of
        None \<Rightarrow> r
      | Some (l, at) \<Rightarrow>
          if 0 < reg_max_age r \<and> reg_max_age r < now - at then r
          else r\<lparr>reg_pcs := (reg_pcs r)(t := Using l at)\<rparr>)"

inductive register_step :: "register \<Rightarrow> register \<Rightarrow> bool" where
  reg_internal: "register_step r r"
| reg_read: "reg_pcs r t = Away \<Longrightarrow> register_step r (register_read t now r)"
| reg_done: "reg_pcs r t = Using l at \<Longrightarrow> register_step r (r\<lparr>reg_pcs := (reg_pcs r)(t := Away)\<rparr>)"
| reg_receive: "reg_pcs r t = Away \<Longrightarrow> pod_list_ok l \<Longrightarrow>
    register_step r (r\<lparr>reg_pcs := (reg_pcs r)(t := Offering l)\<rparr>)"
| reg_drop: "reg_pcs r t = Offering l \<Longrightarrow> register_step r (r\<lparr>reg_pcs := (reg_pcs r)(t := Away)\<rparr>)"
| reg_accept: "reg_pcs r t = Offering l \<Longrightarrow> 0 < pl_count l \<Longrightarrow>
    register_step r (r\<lparr>reg_pcs := (reg_pcs r)(t := Writing l now)\<rparr>)"
| reg_write: "reg_pcs r t = Writing l at \<Longrightarrow>
    register_step r (r\<lparr>reg_value := Some (l, at), reg_pcs := (reg_pcs r)(t := Away)\<rparr>)"
| reg_clear: "reg_pcs r t = Away \<Longrightarrow> register_step r (r\<lparr>reg_value := None\<rparr>)"

section \<open>The abstraction\<close>

definition entry_of :: "cache \<Rightarrow> nat \<Rightarrow> (PodList \<times> int) option" where
  "entry_of c p =
     (case snapshots c p of
        None \<Rightarrow> None
      | Some s \<Rightarrow> map_option (\<lambda>l. (l, ps_received_at s)) (lists c (ps_pods s)))"

fun abs_pc :: "cache \<Rightarrow> cache_pc \<Rightarrow> reg_pc" where
  "abs_pc c (Reading p) = (case entry_of c p of None \<Rightarrow> Away | Some (l, at) \<Rightarrow> Using l at)"
| "abs_pc c (Fetched l) = (case lists c l of None \<Rightarrow> Away | Some pods \<Rightarrow> Offering pods)"
| "abs_pc c (Allocated p) = (case entry_of c p of None \<Rightarrow> Away | Some (l, at) \<Rightarrow> Writing l at)"
| "abs_pc c _ = Away"

definition abs_register :: "cache_sys \<Rightarrow> register" where
  "abs_register s = \<lparr>reg_value = cache_view (shared s), reg_max_age = max_age (shared s),
     reg_pcs = (\<lambda>t. abs_pc (shared s) (cache_pcs s t))\<rparr>"

lemma view_entry: "cache_view c = Option.bind (current c) (entry_of c)"
  by (auto simp: cache_view_def pods_of_def entry_of_def split: option.split)

lemma entry_pods: "pods_of c p = map_option fst (entry_of c p)"
  by (auto simp: pods_of_def entry_of_def option.map_comp comp_def option.map_ident split: option.split)

lemma entry_stored:
  assumes "lists c' = lists c" and "stored c' = stored c"
  shows "entry_of c' = entry_of c"
proof
  fix p
  from assms(2) have "stored c' p = stored c p" by simp
  with assms(1) show "entry_of c' p = entry_of c p"
    by (cases "snapshots c p"; cases "snapshots c' p") (auto simp: stored_def entry_of_def)
qed

lemma entry_current [simp]: "entry_of (c\<lparr>current := x\<rparr>) = entry_of c"
  by (simp add: entry_of_def fun_eq_iff split: option.split)

lemma entry_alive:
  assumes "cache_inv held dying loose c" and "0 < held p \<or> current c = Some p \<or> p \<in> dying"
  shows "\<exists>l at. entry_of c p = Some (l, at) \<and> good_list l"
proof -
  from alive_snapshot [OF assms] obtain s where s: "snapshots c p = Some s" by blast
  then have "list_of c p = Some (ps_pods s)" by (simp add: list_of_def)
  with assms(1) s show ?thesis by (fastforce simp: cache_inv_def entry_of_def dest: owned_list)
qed

section \<open>What a section leaves to the other threads\<close>

text \<open>The entries somebody can reach, and the lists in \<open>keep\<close>, are as they were.\<close>

definition frame :: "(nat \<Rightarrow> nat) \<Rightarrow> nat set \<Rightarrow> cache \<Rightarrow> cache \<Rightarrow> bool" where
  "frame held keep c c' \<longleftrightarrow> max_age c' = max_age c
     \<and> (\<forall>p. 0 < held p \<or> current c = Some p \<longrightarrow> entry_of c' p = entry_of c p)
     \<and> (\<forall>l\<in>keep. lists c' l = lists c l)"

lemma frame_same: "max_age c' = max_age c \<Longrightarrow> entry_of c' = entry_of c \<Longrightarrow> lists c' = lists c \<Longrightarrow>
    frame held keep c c'"
  by (simp add: frame_def)

lemma frame_acquire: "pod_cache_acquire now c = Some (r, c') \<Longrightarrow> frame held keep c c'"
proof -
  assume a: "pod_cache_acquire now c = Some (r, c')"
  then have "stored c' = stored c"
    by (auto simp: pod_cache_acquire_def stored_def fun_eq_iff split: option.splits if_splits)
  with acquire_frame [OF a] show ?thesis by (auto intro!: frame_same entry_stored)
qed

lemma frame_decrement: "release_locked q c = Some (refs, c') \<Longrightarrow> frame held keep c c' \<and> current c' = current c"
proof -
  assume r: "release_locked q c = Some (refs, c')"
  then have "lists c' = lists c" "max_age c' = max_age c" "stored c' = stored c" "current c' = current c"
    by (auto simp: release_locked_def stored_def fun_eq_iff split: option.splits)
  then show ?thesis by (auto intro!: frame_same entry_stored)
qed

lemma frame_free:
  assumes "cache_inv held dying loose c" and "q \<in> dying" and "free_snapshot q c = Some c'"
  shows "frame held loose c c' \<and> current c' = current c"
proof -
  from alive_snapshot [OF assms(1), of q] assms(2) obtain r where r: "snapshots c q = Some r" by auto
  then have own: "list_of c q = Some (ps_pods r)" by (simp add: list_of_def)
  from assms(3) r have c': "c' = c\<lparr>lists := (lists c)(ps_pods r := None), snapshots := (snapshots c)(q := None)\<rparr>"
    by (auto simp: free_snapshot_def pod_list_free_def split: option.splits)
  have "entry_of c' p = entry_of c p" if "0 < held p \<or> current c = Some p" for p
  proof -
    from that assms(1,2) have "p \<noteq> q" by (auto simp: cache_inv_def alive_def)
    from alive_snapshot [OF assms(1), of p] that obtain s where s: "snapshots c p = Some s" by blast
    from assms(1) have "inj_on (list_of c) (dom (list_of c))"
      by (simp add: cache_inv_def lists_owned_def)
    from inj_onD [OF this, of p q] s own \<open>p \<noteq> q\<close> have "ps_pods s \<noteq> ps_pods r"
      by (auto simp: list_of_def dom_def)
    with s \<open>p \<noteq> q\<close> show ?thesis by (simp add: c' entry_of_def)
  qed
  moreover have "ps_pods r \<notin> loose"
    using assms(1) ranI [of "list_of c" q] own by (auto simp: cache_inv_def lists_owned_def)
  ultimately show ?thesis by (auto simp: frame_def c')
qed

lemma frame_fetch:
  assumes "cache_inv held dying loose c" and "lists c l = None"
  shows "frame held loose c (c\<lparr>lists := (lists c)(l \<mapsto> pods)\<rparr>)"
proof -
  have "l \<notin> loose" using assms by (auto simp: cache_inv_def lists_owned_def)
  moreover have "entry_of (c\<lparr>lists := (lists c)(l \<mapsto> pods)\<rparr>) p = entry_of c p"
    if "0 < held p \<or> current c = Some p" for p
    using entry_alive [OF assms(1), of p] that assms(2) by (auto simp: entry_of_def split: option.splits)
  ultimately show ?thesis by (auto simp: frame_def)
qed

lemma frame_drop:
  assumes "cache_inv held dying loose c" and "l \<in> loose" and "pod_list_free (Some l) c = Some c'"
  shows "frame held (loose - {l}) c c' \<and> current c' = current c"
proof -
  from assms(3) have c': "c' = c\<lparr>lists := (lists c)(l := None)\<rparr>"
    by (auto simp: pod_list_free_def split: option.splits)
  have "entry_of c' p = entry_of c p" for p
  proof (cases "snapshots c p")
    case (Some s)
    then have "ps_pods s \<in> ran (list_of c)" by (intro ranI [of _ p]) (simp add: list_of_def)
    with assms(1,2) have "ps_pods s \<noteq> l" by (auto simp: cache_inv_def lists_owned_def)
    with Some show ?thesis by (simp add: c' entry_of_def)
  qed (simp add: c' entry_of_def)
  then show ?thesis by (auto simp: frame_def c')
qed

lemma frame_alloc:
  assumes "cache_inv held dying loose c" and "snapshots c q = None"
  shows "frame held keep c (publish_alloc q now l c)"
proof -
  have "entry_of (publish_alloc q now l c) p = entry_of c p" if "0 < held p \<or> current c = Some p" for p
    using alive_snapshot [OF assms(1), of p] that assms(2) by (auto simp: publish_alloc_def entry_of_def)
  then show ?thesis by (auto simp: frame_def publish_alloc_def)
qed

section \<open>The simulation\<close>

lemma abs_resume:
  assumes "threads_inv s"
    and "frame (held_by (cache_pcs s)) (owned list_held (cache_pcs s) - set_option (list_held (cache_pcs s t)))
           (shared s) c"
  shows "abs_register (resume t s (Some (pc, c))) =
     (abs_register s)\<lparr>reg_value := cache_view c, reg_pcs := (reg_pcs (abs_register s))(t := abs_pc c pc)\<rparr>"
proof -
  have "abs_pc c (cache_pcs s u) = abs_pc (shared s) (cache_pcs s u)" if "u \<noteq> t" for u
  proof (cases "cache_pcs s u")
    case (Fetched l)
    then have "l \<in> owned list_held (cache_pcs s)" by (intro owned_here [of _ _ u]) simp
    moreover have "list_held (cache_pcs s t) \<noteq> Some l"
    proof
      assume "list_held (cache_pcs s t) = Some l"
      with assms(1) Fetched have "t = u" unfolding threads_inv_def exclusive_def
        by (metis list_held.simps(1))
      with that show False by simp
    qed
    ultimately show ?thesis using assms(2) Fetched by (simp add: frame_def elem_set)
  qed (use assms threads_held_pos [OF assms(1), of u] in \<open>auto simp: frame_def\<close>)
  then show ?thesis using assms(2) by (auto simp: abs_register_def resume_def frame_def fun_eq_iff)
qed

text \<open>A section that leaves the current snapshot alone does not change the value.\<close>

lemma frame_view:
  "frame held keep c c' \<Longrightarrow> current c' = current c \<Longrightarrow> cache_view c' = cache_view c"
  by (cases "current c") (auto simp: frame_def view_entry)

lemma abs_resume_same:
  assumes "threads_inv s"
    and "frame (held_by (cache_pcs s)) (owned list_held (cache_pcs s) - set_option (list_held (cache_pcs s t)))
           (shared s) c"
    and "current c = current (shared s)"
  shows "abs_register (resume t s (Some (pc, c))) =
     (abs_register s)\<lparr>reg_pcs := (reg_pcs (abs_register s))(t := abs_pc c pc)\<rparr>"
  using abs_resume [OF assms(1,2), of pc] frame_view [OF assms(2,3)] by (simp add: abs_register_def)

lemma frame_refl [simp]: "frame held keep c c"
  by (simp add: frame_def)

lemma abs_simps [simp]:
  "reg_value (abs_register s) = cache_view (shared s)"
  "reg_max_age (abs_register s) = max_age (shared s)"
  "reg_pcs (abs_register s) t = abs_pc (shared s) (cache_pcs s t)"
  by (simp_all add: abs_register_def)

text \<open>\<open>pod_cache_acquire\<close> is the read of the register, result included.\<close>

lemma acquire_is_read:
  assumes "threads_inv s" and "cache_pcs s t = Idle"
  shows "abs_register (resume t s (map_option after_acquire (pod_cache_acquire now (shared s))))
     = register_read t now (abs_register s)"
proof -
  note inv = threads_cache_inv [OF assms(1)]
  obtain r c where a: "pod_cache_acquire now (shared s) = Some (r, c)"
    using acquire_inv [OF inv, of now] by auto
  have cur: "current c = current (shared s)" using acquire_frame [OF a] by simp
  have entries: "entry_of c = entry_of (shared s)" "cache_view c = cache_view (shared s)"
    using frame_acquire [OF a, of "\<lambda>_. 1" "{}"] acquire_view [OF a] by (auto simp: frame_def)
  have idle: "(reg_pcs (abs_register s))(t := Away) = reg_pcs (abs_register s)"
    using assms(2) by auto
  have abs: "abs_register (resume t s (Some (pc, c))) =
     (abs_register s)\<lparr>reg_pcs := (reg_pcs (abs_register s))(t := abs_pc c pc)\<rparr>" for pc
    using abs_resume_same [OF assms(1) frame_acquire [OF a] cur] .
  show ?thesis
  proof (cases "current (shared s)")
    case None
    with a have "r = None" by (simp add: pod_cache_acquire_def)
    then show ?thesis using a None abs [of Idle] idle
      by (simp add: after_acquire_def register_read_def view_entry)
  next
    case (Some p)
    with entry_alive [OF inv] obtain l at where l: "entry_of (shared s) p = Some (l, at)" by blast
    then obtain sn where sn: "snapshots (shared s) p = Some sn" "ps_received_at sn = at"
      by (auto simp: entry_of_def split: option.splits)
    show ?thesis
    proof (cases "0 < max_age (shared s) \<and> max_age (shared s) < now - at")
      case True
      with a Some sn have "r = None" by (simp add: pod_cache_acquire_def)
      then show ?thesis using a Some l True abs [of Idle] idle
        by (simp add: after_acquire_def register_read_def view_entry)
    next
      case False
      with a Some sn have "r = Some p" by (auto simp: pod_cache_acquire_def split: if_splits)
      then show ?thesis using a Some l False abs [of "Reading p"] entries
        by (auto simp: after_acquire_def register_read_def view_entry)
    qed
  qed
qed

lemma pcs_idle [simp]:
  "abs_pc (shared s) (cache_pcs s t) = Away \<Longrightarrow>
     (abs_register s)\<lparr>reg_pcs := (reg_pcs (abs_register s))(t := Away)\<rparr> = abs_register s"
  by (auto simp: abs_register_def)

lemma simulation: "cache_step s s' \<Longrightarrow> threads_inv s \<Longrightarrow> register_step (abs_register s) (abs_register s')"
proof (induction rule: cache_step.induct)
  case (cache_acquire s t now)
  from acquire_is_read [OF cache_acquire(2,1)] cache_acquire(1) show ?case
    by (simp add: reg_read)
next
  case (cache_read s t p)
  have "resume t s (Some (Reading p, shared s)) = s"
    using cache_read(1) fun_upd_triv [of "cache_pcs s" t] by (simp add: resume_def)
  with read_step_ok [OF cache_read(2,1)] show ?case by (auto simp: reg_internal)
next
  case (cache_release s t p)
  from threads_held_pos [OF cache_release(2), of t p] cache_release(1)
    entry_alive [OF threads_cache_inv [OF cache_release(2)], of p]
  obtain l at where "entry_of (shared s) p = Some (l, at)" by auto
  with cache_release abs_resume_same [OF cache_release(2), of t "shared s" "Releasing p"]
    reg_done [of "abs_register s" t l at] show ?case by simp
next
  case (cache_decrement s t p)
  from threads_held_pos [OF cache_decrement(2), of t p] cache_decrement(1)
  have "0 < held_by (cache_pcs s) p" by simp
  from release_inv [OF threads_cache_inv [OF cache_decrement(2)] this] obtain refs c where
    c: "release_locked p (shared s) = Some (refs, c)" by blast
  have "abs_pc c (if refs = 0 then Freeing p else Idle) = Away" by simp
  with abs_resume_same [OF cache_decrement(2), of t c "if refs = 0 then Freeing p else Idle"]
    frame_decrement [OF c] c cache_decrement(1) show ?case
    by (simp add: after_decrement_def reg_internal)
next
  case (cache_free s t p)
  note inv = threads_cache_inv [OF cache_free(2)]
  have p: "p \<in> owned dying_of (cache_pcs s)" using cache_free(1) by (intro owned_here [of _ _ t]) simp
  from free_inv [OF inv p] obtain c where c: "free_snapshot p (shared s) = Some c" by blast
  from abs_resume_same [OF cache_free(2), of t c Idle] frame_free [OF inv p c] c cache_free(1)
  show ?case by (simp add: reg_internal)
next
  case (cache_fetch s t l pods)
  note inv = threads_cache_inv [OF cache_fetch(4)]
  from abs_resume_same [OF cache_fetch(4), of t _ "Fetched l"] frame_fetch [OF inv cache_fetch(2), of pods]
    cache_fetch(1,3) reg_receive [of "abs_register s" t pods] show ?case by simp
next
  case (cache_drop s t l)
  note inv = threads_cache_inv [OF cache_drop(2)]
  have l: "l \<in> owned list_held (cache_pcs s)" using cache_drop(1) by (intro owned_here [of _ _ t]) simp
  from drop_list_inv [OF inv l] obtain c where c: "pod_list_free (Some l) (shared s) = Some c" by blast
  then obtain pods where "lists (shared s) l = Some pods"
    by (auto simp: pod_list_free_def split: option.splits)
  with abs_resume_same [OF cache_drop(2), of t c Idle] frame_drop [OF inv l c] c cache_drop(1)
    reg_drop [of "abs_register s" t pods] show ?case by simp
next
  case (cache_alloc s t l pods p now)
  note inv = threads_cache_inv [OF cache_alloc(5)]
  have "entry_of (publish_alloc p now l (shared s)) p = Some (pods, now)"
    using cache_alloc(2) by (simp add: publish_alloc_def entry_of_def)
  with abs_resume_same [OF cache_alloc(5), of t _ "Allocated p"] frame_alloc [OF inv cache_alloc(4), of _ now l]
    cache_alloc(1-3) reg_accept [of "abs_register s" t pods now] show ?case
    by (simp add: publish_alloc_def)
next
  case (cache_swap s t p)
  from threads_held_pos [OF cache_swap(2), of t p] cache_swap(1)
    entry_alive [OF threads_cache_inv [OF cache_swap(2)], of p]
  obtain l at where l: "entry_of (shared s) p = Some (l, at)" by auto
  let ?c = "(shared s)\<lparr>current := Some p\<rparr>"
  obtain pc where pc: "after_swap (publish_swap (Some p) (shared s)) = (pc, ?c)" "abs_pc ?c pc = Away"
    by (cases "current (shared s)") (auto simp: after_swap_def publish_swap_def)
  have "frame (held_by (cache_pcs s)) keep (shared s) ?c" for keep by (simp add: frame_same)
  with abs_resume [OF cache_swap(2), of t ?c pc] pc l cache_swap(1)
    reg_write [of "abs_register s" t l at] show ?case by (simp add: view_entry)
next
  case (cache_describe s t now age)
  with describe_ok [OF threads_cache_inv [OF cache_describe(2)], of now age]
    abs_resume_same [OF cache_describe(2), of t "shared s" Idle] show ?case
    by (auto simp: reg_internal)
next
  case (cache_stop s t)
  let ?c = "(shared s)\<lparr>current := None\<rparr>"
  obtain pc where pc: "after_swap (publish_swap None (shared s)) = (pc, ?c)" "abs_pc ?c pc = Away"
    by (cases "current (shared s)") (auto simp: after_swap_def publish_swap_def)
  have "frame (held_by (cache_pcs s)) keep (shared s) ?c" for keep by (simp add: frame_same)
  moreover have "(reg_pcs (abs_register s))(t := Away) = reg_pcs (abs_register s)"
    using cache_stop(1) by auto
  ultimately show ?case using abs_resume [OF cache_stop(2), of t ?c pc] pc cache_stop(1)
      reg_clear [of "abs_register s" t] by (simp add: view_entry)
qed

text \<open>
  C2. The pod cache implements the register. In every state the threads can reach, each of their
  sections - acquiring, using, releasing, decrementing, freeing, receiving, dropping,
  publishing, stopping - is a step of the register or invisible to it; and what a thread gets from
  \<open>pod_cache_acquire\<close> is exactly what a read of the register at that moment gives, which is
  nothing when the register is empty or its value too old.
\<close>

theorem cache_implements_register:
  assumes "cache_reachable s"
  shows "(\<forall>s'. cache_step s s' \<longrightarrow> register_step (abs_register s) (abs_register s'))
     \<and> (\<forall>t now. cache_pcs s t = Idle \<longrightarrow>
          abs_register (resume t s (map_option after_acquire (pod_cache_acquire now (shared s))))
            = register_read t now (abs_register s))"
  using simulation acquire_is_read cache_threads.reachable_inv [OF assms] by blast

text \<open>Thread 0 reads the list that was published, thread 1 received it at second 100.\<close>

lemma cache_implements_register_witness:
  "register_step (abs_register (demo_sys demo_c4 (Reading 3) Idle))
     (abs_register (demo_sys demo_c4 (Releasing 3) Idle))
   \<and> reg_pcs (abs_register (demo_sys demo_c4 (Reading 3) Idle)) 0 = Using demo_list 100"
proof -
  have "cache_step (demo_sys demo_c4 (Reading 3) Idle) (demo_sys demo_c4 (Releasing 3) Idle)"
    using cache_release [of "demo_sys demo_c4 (Reading 3) Idle" 0 3] by simp
  moreover have "entry_of demo_c4 3 = Some (demo_list, 100)"
    by (simp add: entry_of_def demo_caches)
  ultimately show ?thesis using cache_implements_register [OF demo_reading] by simp
qed

end
