(* ===== verification/Refresher.thy ===== *)
theory Refresher
  imports Cache_Ownership
begin

text \<open>
  \<^verbatim>\<open>pod_cache.c\<close>, the refresh thread: \<open>log_failure\<close> and the loop of \<open>refresh_pods\<close>, one
  definition per branch of the loop body, and the run over a sequence of rounds. What the
  thread does to the outside is the list of its events: requests, log lines and sleeps. The cache is
  the one of theory \<open>Pod_Cache\<close>, with readers holding any references on its snapshots.
\<close>

section \<open>The loop's variables and the world\<close>

record refresher =
  rf_failures :: int
  rf_last_count :: nat
  rf_expiry_reported :: bool
  rf_failing_since :: int
  rf_last_reminder :: int

definition new_refresher :: refresher where
  "new_refresher = \<lparr>rf_failures = 0, rf_last_count = 0, rf_expiry_reported = False,
     rf_failing_since = 0, rf_last_reminder = 0\<rparr>"

text \<open>
  What one round finds: the closing flag at its two tests, libcurl and the files the request
  reads, the blocks \<open>malloc\<close> returns for the list and the snapshot, the environment, and the
  clock at each of the calls that read it.
\<close>

record round_world =
  rw_closing :: bool
  rw_curl :: curl_api
  rw_fetch :: fetch_world
  rw_list :: nat
  rw_closing_after :: bool
  rw_block :: "nat option"
  rw_published_at :: int
  rw_recovered_at :: int
  rw_now :: int
  rw_expiry_at :: int
  rw_described_at :: int
  rw_getenv :: environ

datatype refresh_event = Requested | Log log_line | Sleep int

section \<open>log_failure\<close>

definition failure_text :: "string \<Rightarrow> int \<Rightarrow> string" where
  "failure_text reason failing_for =
     (if failing_for \<noteq> 0
      then snprintf 640 (''pod list requests failing for '' @ show_int failing_for @ ''s ('' @ reason @ '')'')
      else snprintf 640 (''pod list request failed ('' @ reason @ '')''))"

definition no_list_text :: string where
  "no_list_text = ''; there is no pod list yet, nothing is announced until a request succeeds''"

definition expired_text :: "int \<Rightarrow> int \<Rightarrow> string" where
  "expired_text age maximum = ''; the last pod list is '' @ show_int age
     @ ''s old, over REDIS_BROADCAST_PODS_MAX_AGE='' @ show_int maximum @ '', nothing is announced''"

definition still_text :: "nat \<Rightarrow> int \<Rightarrow> string" where
  "still_text n age = ''; still announcing to the last pod list, '' @ show_int (int n)
     @ '' pods, '' @ show_int age @ ''s old''"

definition log_failure :: "environ \<Rightarrow> int \<Rightarrow> string \<Rightarrow> int \<Rightarrow> cache \<Rightarrow> log_line option" where
  "log_failure getenv described_at reason failing_for c =
     (case describe_current described_at 0 c of
        None \<Rightarrow> None
      | Some (n, age) \<Rightarrow>
          (let prefix = get_service_name getenv @ '': '' @ failure_text reason failing_for
           in Some (Log_warning,
                if n = 0 then prefix @ no_list_text
                else if max_age c > 0 \<and> age > max_age c then prefix @ expired_text age (max_age c)
                else prefix @ still_text n age)))"

section \<open>The loop body\<close>

definition empty_list_error :: string where
  "empty_list_error = ''the API listed no pod with an IPv4 address''"

definition success_log :: "string \<Rightarrow> round_world \<Rightarrow> nat \<Rightarrow> refresher \<Rightarrow> refresh_event list" where
  "success_log name w n rf =
     (if rf_failures rf \<noteq> 0
      then [Log (Log_notice, name @ '': pod list request succeeded again after ''
              @ show_int (rw_recovered_at w - rf_failing_since rf) @ ''s, announcing to ''
              @ show_int (int n) @ '' pods'')]
      else if rf_last_count rf = 0
      then [Log (Log_notice, name @ '': announcing to '' @ show_int (int n) @ '' pods'')]
      else if n \<noteq> rf_last_count rf
      then [Log (Log_verbose, name @ '': pod list now has '' @ show_int (int n) @ '' pods'')]
      else [])"

definition round_succeeded ::
  "string \<Rightarrow> int \<Rightarrow> round_world \<Rightarrow> nat \<Rightarrow> refresher \<Rightarrow> refresh_event list \<times> refresher" where
  "round_succeeded name refresh w n rf =
     (success_log name w n rf @ [Sleep refresh],
      rf\<lparr>rf_failures := 0, rf_expiry_reported := False, rf_last_count := n\<rparr>)"

text \<open>The two tests that decide whether a failure is logged, and the update they share.\<close>

definition failure_log ::
  "round_world \<Rightarrow> string \<Rightarrow> bool \<Rightarrow> refresher \<Rightarrow> cache \<Rightarrow> (refresh_event list \<times> refresher) option" where
  "failure_log w error expired rf c =
     (let now = rw_now w
      in if rf_failures rf = 0
         then map_option (\<lambda>line. ([Log line], rf\<lparr>rf_failing_since := now, rf_last_reminder := now\<rparr>))
                (log_failure (rw_getenv w) (rw_described_at w) error 0 c)
         else if now - rf_last_reminder rf \<ge> FAILURE_REMINDER \<or> expired \<and> \<not> rf_expiry_reported rf
         then map_option (\<lambda>line. ([Log line], rf\<lparr>rf_last_reminder := now\<rparr>))
                (log_failure (rw_getenv w) (rw_described_at w) error (now - rf_failing_since rf) c)
         else Some ([], rf))"

definition round_failed ::
  "int \<Rightarrow> round_world \<Rightarrow> string \<Rightarrow> refresher \<Rightarrow> cache \<Rightarrow> (refresh_event list \<times> refresher) option" where
  "round_failed refresh w error rf c =
     do {
       expired \<leftarrow> is_expired (rw_expiry_at w) c;
       (events, rf1) \<leftarrow> failure_log w error expired rf c;
       failures \<leftarrow> int_add (rf_failures rf1) 1;
       delay \<leftarrow> next_delay refresh failures;
       Some (events @ [Sleep delay], rf1\<lparr>rf_expiry_reported := expired, rf_failures := failures\<rparr>)
     }"

text \<open>
  From the outcome of the request to the list that was published, if any (with the number of
  its pods), or the error; the cache has the received list in block \<open>rw_list\<close>.
\<close>

definition take_list ::
  "round_world \<Rightarrow> string + PodList \<Rightarrow> cache \<Rightarrow> ((string + nat) \<times> cache) option" where
  "take_list w r c =
     (case r of
        Inl error \<Rightarrow> Some (Inl error, c)
      | Inr l \<Rightarrow>
          if pl_count l = 0
          then map_option (\<lambda>c1. (Inl (snprintf 512 empty_list_error), c1)) (pod_list_free (Some (rw_list w)) c)
          else (case publish (rw_block w) (rw_published_at w) (rw_list w) c of
                  None \<Rightarrow> None
                | Some (ok, c1) \<Rightarrow>
                    Some (if ok then Inr (pl_count l) else Inl (snprintf 512 ''out of memory''), c1)))"

text \<open>One iteration: whether the loop goes on, its events, its variables and the cache.\<close>

definition refresh_round ::
  "'j json_api \<Rightarrow> string \<Rightarrow> int \<Rightarrow> int \<Rightarrow> round_world \<Rightarrow> refresher \<Rightarrow> cache
     \<Rightarrow> (bool \<times> refresh_event list \<times> refresher \<times> cache) option" where
  "refresh_round api name refresh timeout w rf c =
     (if rw_closing w then Some (False, [], rf, c)
      else do {
        handle \<leftarrow> client c;
        (r, handle') \<leftarrow> pod_list_fetch api (rw_curl w) (rw_fetch w) handle timeout 512;
        let c1 = c\<lparr>client := Some handle',
                   lists := (case r of Inl e \<Rightarrow> lists c | Inr l \<Rightarrow> (lists c)(rw_list w \<mapsto> l))\<rparr>;
        if rw_closing_after w
        then map_option (\<lambda>c2. (False, [Requested], rf, c2))
               (pod_list_free (case r of Inl e \<Rightarrow> None | Inr l \<Rightarrow> Some (rw_list w)) c1)
        else do {
          (taken, c2) \<leftarrow> take_list w r c1;
          (events, rf') \<leftarrow> (case taken of
              Inr n \<Rightarrow> Some (round_succeeded name refresh w n rf)
            | Inl error \<Rightarrow> round_failed refresh w error rf c2);
          Some (True, Requested # events, rf', c2)
        }
      })"

text \<open>The thread over a sequence of rounds; the flag says whether it has left its loop.\<close>

fun refresh_pods ::
  "'j json_api \<Rightarrow> string \<Rightarrow> int \<Rightarrow> int \<Rightarrow> round_world list \<Rightarrow> refresher \<Rightarrow> cache
     \<Rightarrow> (bool \<times> refresh_event list \<times> refresher \<times> cache) option" where
  "refresh_pods api name refresh timeout [] rf c = Some (False, [], rf, c)"
| "refresh_pods api name refresh timeout (w # ws) rf c =
     do {
       (go_on, events, rf1, c1) \<leftarrow> refresh_round api name refresh timeout w rf c;
       if go_on
       then map_option (\<lambda>(left, events', rf2, c2). (left, events @ events', rf2, c2))
              (refresh_pods api name refresh timeout ws rf1 c1)
       else Some (True, events, rf1, c1)
     }"

section \<open>What a round depends on\<close>

text \<open>Every option of the handle is set again, so an old handle does not matter.\<close>

lemma set_options_fresh: "set_options url auth timeout h = set_options url auth timeout new_handle"
  by (simp add: set_options_def)

lemma fetch_any_handle:
  "map_option fst (pod_list_fetch api curl fw h timeout n)
     = map_option fst (pod_list_fetch api curl fw new_handle timeout n)"
  by (simp add: pod_list_fetch_def Let_def set_options_fresh [of _ _ _ h] option.map_comp comp_def
      split: sum.split option.split)

definition fetched :: "'j json_api \<Rightarrow> int \<Rightarrow> round_world \<Rightarrow> (string + PodList) option" where
  "fetched api timeout w =
     map_option fst (pod_list_fetch api (rw_curl w) (rw_fetch w) new_handle timeout 512)"

lemma fetched_handle:
  assumes "fetched api timeout w = Some r"
  shows "\<exists>h'. pod_list_fetch api (rw_curl w) (rw_fetch w) h timeout 512 = Some (r, h')"
  using assms fetch_any_handle [of api "rw_curl w" "rw_fetch w" h timeout 512]
  by (auto simp: fetched_def)

lemma fetched_list_ok: "fetched api timeout w = Some (Inr l) \<Longrightarrow> pod_list_ok l"
  by (auto simp: fetched_def dest: fetch_list_ok)

text \<open>The list a round publishes.\<close>

definition delivered :: "'j json_api \<Rightarrow> int \<Rightarrow> round_world \<Rightarrow> PodList option" where
  "delivered api timeout w =
     (case fetched api timeout w of
        Some (Inr l) \<Rightarrow> if pl_count l \<noteq> 0 \<and> rw_block w \<noteq> None then Some l else None
      | _ \<Rightarrow> None)"

definition fresh_blocks :: "round_world \<Rightarrow> cache \<Rightarrow> bool" where
  "fresh_blocks w c \<longleftrightarrow>
     lists c (rw_list w) = None
     \<and> (case rw_block w of None \<Rightarrow> True | Some p \<Rightarrow> snapshots c p = None)"

lemma fetched_view:
  assumes "cache_inv held dying loose c" and "lists c l = None"
  shows "cache_view (c\<lparr>lists := (lists c)(l \<mapsto> pods)\<rparr>) = cache_view c"
  using view_current [OF assms(1)] assms(2) by (auto simp: cache_view_def pods_of_def)

section \<open>Reading the age of the current list\<close>

definition view_age :: "int \<Rightarrow> int \<Rightarrow> (PodList \<times> int) option \<Rightarrow> nat \<times> int" where
  "view_age now age v = (case v of None \<Rightarrow> (0, age) | Some (l, at) \<Rightarrow> (pl_count l, now - at))"

definition view_expired :: "int \<Rightarrow> int \<Rightarrow> (PodList \<times> int) option \<Rightarrow> bool" where
  "view_expired now maximum v \<longleftrightarrow>
     0 < maximum \<and> (case v of None \<Rightarrow> False | Some (l, at) \<Rightarrow> maximum < now - at)"

lemma describe_view:
  "cache_inv held dying loose c \<Longrightarrow> describe_current now age c = Some (view_age now age (cache_view c))"
  using view_current [of held dying loose c] by (auto simp: describe_current_def view_age_def)

lemma expired_view:
  "cache_inv held dying loose c \<Longrightarrow>
     is_expired now c = Some (view_expired now (max_age c) (cache_view c))"
  using view_current [of held dying loose c]
  by (auto simp: is_expired_def describe_view view_age_def view_expired_def good_list_def)

lemma log_failure_line:
  "cache_inv held dying loose c \<Longrightarrow> \<exists>msg. log_failure env at reason since c = Some (Log_warning, msg)"
  by (auto simp: log_failure_def describe_view Let_def split: prod.split)

section \<open>One round\<close>

lemma free_list_frame:
  "pod_list_free r c = Some c' \<Longrightarrow>
     client c' = client c \<and> max_age c' = max_age c \<and> snapshots c' = snapshots c"
  by (auto simp: pod_list_free_def split: option.splits)

lemma publish_frame:
  "publish block now l c = Some (ok, c') \<Longrightarrow> client c' = client c \<and> max_age c' = max_age c"
  by (auto simp: publish_def publish_swap_def publish_alloc_def
      dest: release_frame free_list_frame split: option.splits)

lemma free_list_op:
  assumes "cache_inv held {} loose c" and "l \<in> loose"
  shows "\<exists>c'. pod_list_free (Some l) c = Some c' \<and> cache_inv held {} (loose - {l}) c'
     \<and> cache_view c' = cache_view c \<and> client c' = client c \<and> max_age c' = max_age c"
  using publish_oom_inv [OF assms, of 0] by (auto simp: publish_def dest: free_list_frame)

lemma take_list_inv:
  assumes inv: "cache_inv held {} {rw_list w} c" and "lists c (rw_list w) = Some l"
    and "\<forall>p. rw_block w = Some p \<longrightarrow> snapshots c p = None"
  shows "\<exists>taken c2. take_list w (Inr l) c = Some (taken, c2) \<and> cache_inv held {} {} c2
     \<and> client c2 = client c \<and> max_age c2 = max_age c
     \<and> (if pl_count l \<noteq> 0 \<and> rw_block w \<noteq> None
        then taken = Inr (pl_count l) \<and> cache_view c2 = Some (l, rw_published_at w)
        else (\<exists>e. taken = Inl e) \<and> cache_view c2 = cache_view c)"
proof (cases "pl_count l = 0")
  case True
  with free_list_op [OF inv, of "rw_list w"] show ?thesis by (auto simp: take_list_def)
next
  case False
  show ?thesis
  proof (cases "rw_block w")
    case None
    from publish_oom_inv [OF inv, of "rw_list w" "rw_published_at w"] obtain c' where
      "publish None (rw_published_at w) (rw_list w) c = Some (False, c')"
      "cache_inv held {} {} c'" "cache_view c' = cache_view c" by auto
    with False None publish_frame [OF this(1)] show ?thesis by (auto simp: take_list_def)
  next
    case (Some p)
    with publish_op_inv [OF inv _ _ assms(2), of p "rw_published_at w"] False assms(3)
    obtain c' where
      "publish (Some p) (rw_published_at w) (rw_list w) c = Some (True, c')"
      "cache_inv held {} {} c'" "cache_view c' = Some (l, rw_published_at w)" by auto
    with False Some publish_frame [OF this(1)] show ?thesis by (auto simp: take_list_def)
  qed
qed

text \<open>A round that fails: what it logs and how long it then sleeps.\<close>

definition failure_logged :: "round_world \<Rightarrow> bool \<Rightarrow> refresher \<Rightarrow> bool" where
  "failure_logged w expired rf \<longleftrightarrow>
     rf_failures rf = 0 \<or> FAILURE_REMINDER \<le> rw_now w - rf_last_reminder rf
     \<or> expired \<and> \<not> rf_expiry_reported rf"

lemma round_failed_value:
  fixes w :: round_world
  assumes "cache_inv held dying loose c" and "1 \<le> refresh"
    and "0 \<le> rf_failures rf" and "rf_failures rf < INT_MAX"
  defines "expired \<equiv> view_expired (rw_expiry_at w) (max_age c) (cache_view c)"
  shows "\<exists>msg d. round_failed refresh w error rf c = Some
     ((if failure_logged w expired rf then [Log (Log_warning, msg)] else []) @ [Sleep d],
      rf\<lparr>rf_failing_since := (if rf_failures rf = 0 then rw_now w else rf_failing_since rf),
         rf_last_reminder := (if failure_logged w expired rf then rw_now w else rf_last_reminder rf),
         rf_expiry_reported := expired, rf_failures := rf_failures rf + 1\<rparr>)
     \<and> next_delay refresh (rf_failures rf + 1) = Some d"
proof -
  have add: "int_add (rf_failures rf) 1 = Some (rf_failures rf + 1)"
    using assms(3,4) by (simp add: int_add_def in_int_def)
  obtain d where d: "next_delay refresh (rf_failures rf + 1) = Some d"
    using next_delay_value [OF assms(2)] by blast
  have e: "is_expired (rw_expiry_at w) c = Some expired"
    unfolding expired_def by (rule expired_view [OF assms(1)])
  define since where
    "since = (if rf_failures rf = 0 then 0 else rw_now w - rf_failing_since rf)"
  obtain msg where t:
    "log_failure (rw_getenv w) (rw_described_at w) error since c = Some (Log_warning, msg)"
    using log_failure_line [OF assms(1)] by blast
  have "failure_log w error expired rf c = Some
      (if failure_logged w expired rf then [Log (Log_warning, msg)] else [],
       rf\<lparr>rf_failing_since := (if rf_failures rf = 0 then rw_now w else rf_failing_since rf),
          rf_last_reminder := (if failure_logged w expired rf then rw_now w else rf_last_reminder rf)\<rparr>)"
    using t by (auto simp: failure_log_def failure_logged_def since_def Let_def)
  with e d add show ?thesis by (auto simp: round_failed_def)
qed

text \<open>
  A round as a whole. It never faults; it goes on unless the module is closing at one of the
  two tests; what it leaves as the current list is the list delivered, or the old one.
\<close>

definition leaving :: "round_world \<Rightarrow> bool" where
  "leaving w \<longleftrightarrow> rw_closing w \<or> rw_closing_after w"

definition view_after ::
  "'j json_api \<Rightarrow> int \<Rightarrow> round_world \<Rightarrow> (PodList \<times> int) option \<Rightarrow> (PodList \<times> int) option" where
  "view_after api timeout w v =
     (if leaving w then v
      else case delivered api timeout w of None \<Rightarrow> v | Some l \<Rightarrow> Some (l, rw_published_at w))"

definition round_effect ::
  "'j json_api \<Rightarrow> string \<Rightarrow> int \<Rightarrow> int \<Rightarrow> round_world \<Rightarrow> refresher \<Rightarrow> cache
     \<Rightarrow> refresh_event list \<Rightarrow> refresher \<Rightarrow> bool" where
  "round_effect api name refresh timeout w rf c' events rf' \<longleftrightarrow>
     (if leaving w then events = (if rw_closing w then [] else [Requested]) \<and> rf' = rf
      else \<exists>rest. events = Requested # rest \<and>
             (case delivered api timeout w of
                Some l \<Rightarrow> (rest, rf') = round_succeeded name refresh w (pl_count l) rf
              | None \<Rightarrow> \<exists>error. round_failed refresh w error rf c' = Some (rest, rf')))"

lemma take_list_round:
  fixes h :: easy_handle
  assumes inv: "cache_inv held {} {} c" and "fresh_blocks w c" and "fetched api timeout w = Some r"
  defines "c1 \<equiv> c\<lparr>client := Some h,
    lists := (case r of Inl e \<Rightarrow> lists c | Inr l \<Rightarrow> (lists c)(rw_list w \<mapsto> l))\<rparr>"
  shows "(\<exists>c2. pod_list_free (case r of Inl e \<Rightarrow> None | Inr l \<Rightarrow> Some (rw_list w)) c1 = Some c2
           \<and> cache_inv held {} {} c2 \<and> client c2 = Some h \<and> max_age c2 = max_age c
           \<and> cache_view c2 = cache_view c)
     \<and> (\<exists>taken c2. take_list w r c1 = Some (taken, c2) \<and> cache_inv held {} {} c2
           \<and> client c2 = Some h \<and> max_age c2 = max_age c
           \<and> (case delivered api timeout w of
                Some l \<Rightarrow> taken = Inr (pl_count l) \<and> cache_view c2 = Some (l, rw_published_at w)
              | None \<Rightarrow> (\<exists>e. taken = Inl e) \<and> cache_view c2 = cache_view c))"
proof (cases r)
  case (Inl e)
  with inv assms(3) show ?thesis
    by (simp add: c1_def pod_list_free_def take_list_def delivered_def)
next
  case (Inr l)
  let ?c = "c\<lparr>client := Some h\<rparr>"
  have c1: "c1 = ?c\<lparr>lists := (lists ?c)(rw_list w \<mapsto> l)\<rparr>" using Inr by (simp add: c1_def)
  have fresh: "lists ?c (rw_list w) = None" "\<forall>p. rw_block w = Some p \<longrightarrow> snapshots c1 p = None"
    using assms(2) by (auto simp: fresh_blocks_def c1_def)
  from assms(3) Inr have ok: "pod_list_ok l" by (simp add: fetched_list_ok)
  from fetched_inv [OF _ fresh(1) ok, of held "{}" "{}"] inv
  have inv1: "cache_inv held {} {rw_list w} c1" by (simp add: c1)
  have view1: "cache_view c1 = cache_view c"
    using fetched_view [of held "{}" "{}" ?c "rw_list w" l] inv fresh(1) by (simp add: c1)
  have l: "lists c1 (rw_list w) = Some l" "client c1 = Some h" "max_age c1 = max_age c"
    by (simp_all add: c1)
  have d: "delivered api timeout w = (if pl_count l \<noteq> 0 \<and> rw_block w \<noteq> None then Some l else None)"
    using assms(3) Inr by (simp add: delivered_def)
  from free_list_op [OF inv1, of "rw_list w"] take_list_inv [OF inv1 l(1) fresh(2)]
  show ?thesis using l(2,3) view1 by (auto simp: Inr d split: if_splits)
qed

lemma refresh_round_value:
  assumes inv: "cache_inv held {} {} c" and "client c \<noteq> None" and "1 \<le> refresh"
    and "0 \<le> rf_failures rf" and "rf_failures rf < INT_MAX"
    and "fetched api timeout w \<noteq> None" and "fresh_blocks w c"
  shows "\<exists>events rf' c'. refresh_round api name refresh timeout w rf c
         = Some (\<not> leaving w, events, rf', c')
     \<and> cache_inv held {} {} c' \<and> client c' \<noteq> None \<and> max_age c' = max_age c
     \<and> cache_view c' = view_after api timeout w (cache_view c)
     \<and> round_effect api name refresh timeout w rf c' events rf'"
proof (cases "rw_closing w")
  case True
  with assms show ?thesis
    by (simp add: refresh_round_def round_effect_def view_after_def leaving_def)
next
  case False
  from assms(2,6) obtain h r where h: "client c = Some h" and r: "fetched api timeout w = Some r"
    by auto
  from fetched_handle [OF r] obtain h' where
    f: "pod_list_fetch api (rw_curl w) (rw_fetch w) h timeout 512 = Some (r, h')" by blast
  note t = take_list_round [OF inv assms(7) r, of h']
  show ?thesis
  proof (cases "rw_closing_after w")
    case True
    from t obtain c2 where
      "pod_list_free (case r of Inl e \<Rightarrow> None | Inr l \<Rightarrow> Some (rw_list w))
        (c\<lparr>client := Some h',
           lists := (case r of Inl e \<Rightarrow> lists c | Inr l \<Rightarrow> (lists c)(rw_list w \<mapsto> l))\<rparr>) = Some c2"
      "cache_inv held {} {} c2" "client c2 = Some h'" "max_age c2 = max_age c"
      "cache_view c2 = cache_view c" by blast
    with False True h f show ?thesis
      by (simp add: refresh_round_def round_effect_def view_after_def leaving_def)
  next
    case nclose: False
    from t obtain taken c2 where c2:
      "take_list w r (c\<lparr>client := Some h',
         lists := (case r of Inl e \<Rightarrow> lists c | Inr l \<Rightarrow> (lists c)(rw_list w \<mapsto> l))\<rparr>) = Some (taken, c2)"
      "cache_inv held {} {} c2" "client c2 = Some h'" "max_age c2 = max_age c"
      "case delivered api timeout w of
         Some l \<Rightarrow> taken = Inr (pl_count l) \<and> cache_view c2 = Some (l, rw_published_at w)
       | None \<Rightarrow> (\<exists>e. taken = Inl e) \<and> cache_view c2 = cache_view c" by blast
    show ?thesis
    proof (cases "delivered api timeout w")
      case None
      with c2(5) obtain e where e: "taken = Inl e" "cache_view c2 = cache_view c" by auto
      from round_failed_value [OF c2(2) assms(3-5), of w e] obtain ev rf' where
        fl: "round_failed refresh w e rf c2 = Some (ev, rf')" by blast
      with None e c2 False nclose h f show ?thesis
        by (auto simp: refresh_round_def round_effect_def view_after_def leaving_def)
    next
      case (Some l)
      obtain ev rf' where
        "round_succeeded name refresh w (pl_count l) rf = (ev, rf')" by fastforce
      with Some c2 False nclose h f show ?thesis
        by (simp add: refresh_round_def round_effect_def view_after_def leaving_def)
    qed
  qed
qed

text \<open>
  What every round does to the counter of failures and to the pace: a round that goes on is one
  request, log lines, and one sleep of a bounded time.
\<close>

definition timed_round :: "int \<Rightarrow> refresh_event list \<Rightarrow> bool" where
  "timed_round refresh events \<longleftrightarrow>
     (\<exists>lines d. events = Requested # map Log lines @ [Sleep d]
        \<and> refresh \<le> d \<and> d \<le> max refresh MAX_RETRY_DELAY)"

lemma timed_shape:
  "timed_round refresh events \<Longrightarrow> \<exists>lines d. events = Requested # map Log lines @ [Sleep d]"
  by (auto simp: timed_round_def)

text \<open>The request of the round that finds the module closing: made unless it was closing before.\<close>

definition last_request :: "round_world list \<Rightarrow> refresh_event list" where
  "last_request ws =
     (case dropWhile (\<lambda>w. \<not> leaving w) ws of
        [] \<Rightarrow> []
      | w # _ \<Rightarrow> if rw_closing w then [] else [Requested])"

definition paced :: "int \<Rightarrow> round_world list \<Rightarrow> refresh_event list \<Rightarrow> bool" where
  "paced refresh ws events \<longleftrightarrow>
     (\<exists>rounds. events = concat rounds @ last_request ws
        \<and> length rounds = length (takeWhile (\<lambda>w. \<not> leaving w) ws)
        \<and> list_all (timed_round refresh) rounds)"

lemma paced_simps:
  "paced refresh [] []"
  "leaving w \<Longrightarrow> paced refresh (w # ws) (if rw_closing w then [] else [Requested])"
  "\<not> leaving w \<Longrightarrow> timed_round refresh events \<Longrightarrow> paced refresh ws events' \<Longrightarrow>
     paced refresh (w # ws) (events @ events')"
proof -
  assume "\<not> leaving w" and "timed_round refresh events" and "paced refresh ws events'"
  moreover from this(3) obtain rounds where "events' = concat rounds @ last_request ws"
    "length rounds = length (takeWhile (\<lambda>w. \<not> leaving w) ws)" "list_all (timed_round refresh) rounds"
    by (auto simp: paced_def)
  ultimately show "paced refresh (w # ws) (events @ events')"
    by (auto simp: paced_def last_request_def intro!: exI [of _ "events # rounds"])
qed (simp_all add: paced_def last_request_def)

lemma success_lines: "\<exists>lines. success_log name w n rf = map Log lines"
  by (auto simp: success_log_def intro: exI [of _ "[]"] exI [of _ "[_]"])

lemma next_delay_range:
  assumes "1 \<le> refresh" and "next_delay refresh failures = Some d"
  shows "refresh \<le> d \<and> d \<le> max refresh MAX_RETRY_DELAY"
proof -
  have "1 * refresh \<le> 2 ^ nat (failures - 1) * refresh"
    using assms(1) by (intro mult_right_mono) auto
  with assms next_delay_value [OF assms(1), of failures] show ?thesis
    by (auto simp: mult.commute)
qed

lemma round_effect_bounds:
  assumes "round_effect api name refresh timeout w rf c events rf'" and "cache_inv held dying loose c"
    and "1 \<le> refresh" and "0 \<le> rf_failures rf" and "rf_failures rf < INT_MAX"
  shows "0 \<le> rf_failures rf' \<and> rf_failures rf' \<le> rf_failures rf + 1
     \<and> (leaving w \<or> timed_round refresh events)"
proof (cases "leaving w")
  case True
  with assms show ?thesis by (simp add: round_effect_def)
next
  case False
  show ?thesis
  proof (cases "delivered api timeout w")
    case None
    with assms(1) False obtain e rest where
      f: "round_failed refresh w e rf c = Some (rest, rf')" "events = Requested # rest"
      unfolding round_effect_def by auto
    from round_failed_value [OF assms(2-5), of w e] f(1) obtain lines d where
      "rest = map Log lines @ [Sleep d]" "next_delay refresh (rf_failures rf + 1) = Some d"
      "rf_failures rf' = rf_failures rf + 1"
      by (auto intro: that [of "[_]"] that [of "[]"] split: if_splits)
    with f(2) assms(4) next_delay_range [OF assms(3)] show ?thesis
      by (auto simp: timed_round_def)
  next
    case (Some l)
    obtain lines where "success_log name w (pl_count l) rf = map Log lines" using success_lines by blast
    with Some assms(1,4) False show ?thesis
      by (auto simp: round_effect_def round_succeeded_def timed_round_def)
  qed
qed

section \<open>The whole thread\<close>

text \<open>
  What a sequence of rounds needs: libcurl returns from every request, and \<open>malloc\<close> returns
  blocks that are not allocated at that moment.
\<close>

fun rounds_ok ::
  "'j json_api \<Rightarrow> string \<Rightarrow> int \<Rightarrow> int \<Rightarrow> round_world list \<Rightarrow> refresher \<Rightarrow> cache \<Rightarrow> bool" where
  "rounds_ok api name refresh timeout [] rf c = True"
| "rounds_ok api name refresh timeout (w # ws) rf c =
     (fetched api timeout w \<noteq> None \<and> fresh_blocks w c \<and>
      (case refresh_round api name refresh timeout w rf c of
         Some (True, _, rf', c') \<Rightarrow> rounds_ok api name refresh timeout ws rf' c'
       | _ \<Rightarrow> True))"

definition refresher_ok :: "cache \<Rightarrow> int \<Rightarrow> refresher \<Rightarrow> nat \<Rightarrow> bool" where
  "refresher_ok c refresh rf n \<longleftrightarrow>
     client c \<noteq> None \<and> 1 \<le> refresh \<and> 0 \<le> rf_failures rf \<and> rf_failures rf + int n \<le> INT_MAX"

lemma refresh_pods_run:
  assumes "cache_inv held {} {} c" and "refresher_ok c refresh rf (length ws)"
    and "rounds_ok api name refresh timeout ws rf c"
  shows "\<exists>events rf' c'. refresh_pods api name refresh timeout ws rf c
         = Some (list_ex leaving ws, events, rf', c')
     \<and> cache_inv held {} {} c' \<and> max_age c' = max_age c \<and> client c' \<noteq> None
     \<and> cache_view c' = fold (view_after api timeout) (takeWhile (\<lambda>w. \<not> leaving w) ws) (cache_view c)
     \<and> paced refresh ws events"
  using assms
proof (induction ws arbitrary: rf c)
  case Nil
  then show ?case by (simp add: paced_simps refresher_ok_def)
next
  case (Cons w ws)
  from Cons.prems(2) have ok: "client c \<noteq> None" "1 \<le> refresh" "0 \<le> rf_failures rf"
    "rf_failures rf < INT_MAX" by (auto simp: refresher_ok_def)
  from Cons.prems(3) have "fetched api timeout w \<noteq> None" "fresh_blocks w c" by auto
  from refresh_round_value [OF Cons.prems(1) ok this, of name] obtain events rf' c' where
    r: "refresh_round api name refresh timeout w rf c = Some (\<not> leaving w, events, rf', c')"
      "cache_inv held {} {} c'" "client c' \<noteq> None" "max_age c' = max_age c"
      "cache_view c' = view_after api timeout w (cache_view c)"
      "round_effect api name refresh timeout w rf c' events rf'" by blast
  note b = round_effect_bounds [OF r(6,2) ok(2-4)]
  show ?case
  proof (cases "leaving w")
    case True
    moreover have "events = (if rw_closing w then [] else [Requested])"
      using r(6) True by (simp add: round_effect_def)
    ultimately show ?thesis using r paced_simps(2) [OF True] by (simp add: view_after_def)
  next
    case False
    with Cons.prems(2,3) r b have "refresher_ok c' refresh rf' (length ws)"
      "rounds_ok api name refresh timeout ws rf' c'" by (auto simp: refresher_ok_def)
    from Cons.IH [OF r(2) this] obtain events' rf2 c2 where
      "refresh_pods api name refresh timeout ws rf' c' = Some (list_ex leaving ws, events', rf2, c2)"
      "cache_inv held {} {} c2" "max_age c2 = max_age c'" "client c2 \<noteq> None"
      "cache_view c2 = fold (view_after api timeout) (takeWhile (\<lambda>w. \<not> leaving w) ws) (cache_view c')"
      "paced refresh ws events'" by blast
    with False r b show ?thesis by (auto intro: paced_simps(3))
  qed
qed

text \<open>
  C3. Only a good answer replaces the list. Over any sequence of rounds - time-outs, refusals,
  answers that are no pod list, empty lists, lists for which memory ran out - and whatever
  the readers hold, the thread never faults, leaks nothing, and the current list is the last
  one delivered with at least one pod before the module started closing, at the time it was
  received: the starting one when no round delivered any. The thread leaves its loop exactly
  when it finds the module closing, and never publishes a list after that.
\<close>

theorem refresher_keeps_last_good_list:
  assumes "cache_inv held {} {} c" and "refresher_ok c refresh rf (length ws)"
    and "rounds_ok api name refresh timeout ws rf c"
  shows "\<exists>events rf' c'. refresh_pods api name refresh timeout ws rf c
         = Some (list_ex leaving ws, events, rf', c')
     \<and> cache_inv held {} {} c'
     \<and> cache_view c' = fold (view_after api timeout) (takeWhile (\<lambda>w. \<not> leaving w) ws) (cache_view c)"
  using refresh_pods_run [OF assms] by blast

text \<open>
  C33. The pace. Whatever the requests return and however many failed in a row, a run is a sequence
  of rounds, one for each round before the module closes, each of them exactly one request, then log
  lines, then exactly one sleep, which lasts at least the refresh interval and at most 30 seconds, or
  the interval where that is longer; a request that finds the module closing is the last thing the
  thread does. So between two requests there always is such a sleep.
\<close>

theorem refresher_pace:
  assumes "cache_inv held {} {} c" and "refresher_ok c refresh rf (length ws)"
    and "rounds_ok api name refresh timeout ws rf c"
  shows "\<exists>rounds rf' c'. refresh_pods api name refresh timeout ws rf c
         = Some (list_ex leaving ws, concat rounds @ last_request ws, rf', c')
     \<and> length rounds = length (takeWhile (\<lambda>w. \<not> leaving w) ws)
     \<and> (\<forall>events\<in>set rounds. \<exists>lines d. events = Requested # map Log lines @ [Sleep d]
          \<and> refresh \<le> d \<and> d \<le> max refresh 30)"
  using refresh_pods_run [OF assms]
  by (fastforce simp: paced_def timed_round_def list_all_iff MAX_RETRY_DELAY_def)

section \<open>How often failures are logged\<close>

fun is_log :: "refresh_event \<Rightarrow> bool" where
  "is_log (Log l) = True"
| "is_log (Sleep d) = False"
| "is_log Requested = False"

definition log_count :: "refresh_event list \<Rightarrow> nat" where
  "log_count events = length (filter is_log events)"

lemma log_count_append [simp]: "log_count (xs @ ys) = log_count xs + log_count ys"
  by (simp add: log_count_def)

text \<open>Rounds that all fail, read off a clock that never goes back.\<close>

definition failing_rounds :: "'j json_api \<Rightarrow> int \<Rightarrow> round_world list \<Rightarrow> bool" where
  "failing_rounds api timeout ws \<longleftrightarrow>
     list_all (\<lambda>w. \<not> leaving w \<and> delivered api timeout w = None) ws
     \<and> sorted (map rw_now ws) \<and> sorted (map rw_expiry_at ws)"

lemma failing_rounds_Cons:
  "failing_rounds api timeout (w # ws) \<longleftrightarrow>
     \<not> leaving w \<and> delivered api timeout w = None \<and> failing_rounds api timeout ws
     \<and> (\<forall>v\<in>set ws. rw_now w \<le> rw_now v \<and> rw_expiry_at w \<le> rw_expiry_at v)"
  by (auto simp: failing_rounds_def)

lemma last_is_latest: "failing_rounds api timeout ws \<Longrightarrow> w \<in> set ws \<Longrightarrow> rw_now w \<le> rw_now (last ws)"
proof (induction ws)
  case (Cons v ws)
  then show ?case by (cases "ws = []") (auto simp: failing_rounds_Cons)
qed simp

lemma view_expired_later: "view_expired a m v \<Longrightarrow> a \<le> b \<Longrightarrow> view_expired b m v"
  by (auto simp: view_expired_def split: option.splits)

definition warns :: "refresh_event list \<Rightarrow> bool" where
  "warns events \<longleftrightarrow> (\<exists>line. Log (Log_warning, line) \<in> set events)"

text \<open>
  Failures are reminded of: a round that warns nobody comes less than a minute after one that did,
  or after \<open>since\<close>.
\<close>

fun reminded :: "int \<Rightarrow> round_world list \<Rightarrow> refresh_event list list \<Rightarrow> bool" where
  "reminded since [] [] = True"
| "reminded since (w # ws) (events # rounds) =
     (if warns events then reminded (rw_now w) ws rounds
      else rw_now w - since < 60 \<and> reminded since ws rounds)"
| "reminded since _ _ = False"

lemma reminded_at:
  "reminded since ws rounds \<Longrightarrow> i < length ws \<Longrightarrow>
     rw_now (ws ! i) - since < 60
     \<or> (\<exists>j\<le>i. warns (rounds ! j) \<and> rw_now (ws ! i) - rw_now (ws ! j) < 60)"
proof (induction since ws rounds arbitrary: i rule: reminded.induct)
  case (2 since w ws events rounds)
  show ?case
  proof (cases i)
    case 0
    with 2 show ?thesis by (auto split: if_splits)
  next
    case (Suc k)
    with "2.prems" "2.IH" [of k] consider
      "warns events" "rw_now (ws ! k) - rw_now w < 60" | "rw_now (ws ! k) - since < 60"
      | j where "j \<le> k" "warns (rounds ! j)" "rw_now (ws ! k) - rw_now (ws ! j) < 60"
      by (auto split: if_splits)
    then show ?thesis
    proof cases
      case 1
      with Suc show ?thesis by (intro disjI2 exI [of _ 0]) simp
    next
      case 3
      with Suc show ?thesis by (intro disjI2 exI [of _ "Suc j"]) simp
    qed (use Suc in simp)
  qed
qed simp_all

lemma failing_round:
  assumes inv: "cache_inv held {} {} c" and rok: "refresher_ok c refresh rf (Suc n)"
    and "fetched api timeout w \<noteq> None" and "fresh_blocks w c"
    and "\<not> leaving w" and "delivered api timeout w = None"
  defines "expired \<equiv> view_expired (rw_expiry_at w) (max_age c) (cache_view c)"
  shows "\<exists>events rf' c'. refresh_round api name refresh timeout w rf c = Some (True, events, rf', c')
     \<and> cache_inv held {} {} c' \<and> max_age c' = max_age c \<and> cache_view c' = cache_view c
     \<and> refresher_ok c' refresh rf' n
     \<and> log_count events = (if failure_logged w expired rf then 1 else 0)
     \<and> timed_round refresh events \<and> warns events = failure_logged w expired rf
     \<and> rf_last_reminder rf' = (if failure_logged w expired rf then rw_now w else rf_last_reminder rf)
     \<and> rf_expiry_reported rf' = expired \<and> rf_failures rf' = rf_failures rf + 1"
proof -
  from rok have ok: "client c \<noteq> None" "1 \<le> refresh" "0 \<le> rf_failures rf" "rf_failures rf < INT_MAX"
    by (auto simp: refresher_ok_def)
  from refresh_round_value [OF inv ok assms(3,4), of name] obtain events rf' c' where
    r: "refresh_round api name refresh timeout w rf c = Some (\<not> leaving w, events, rf', c')"
      "cache_inv held {} {} c'" "client c' \<noteq> None" "max_age c' = max_age c"
      "cache_view c' = view_after api timeout w (cache_view c)"
      "round_effect api name refresh timeout w rf c' events rf'" by blast
  with assms(5,6) have v: "cache_view c' = cache_view c" by (simp add: view_after_def)
  from r(6) assms(5,6) obtain e rest where f: "round_failed refresh w e rf c' = Some (rest, rf')"
    and "events = Requested # rest" by (auto simp: round_effect_def)
  with round_failed_value [OF r(2) ok(2-4), of w e] v r(4) obtain msg d where
    "events = Requested # (if failure_logged w expired rf then [Log (Log_warning, msg)] else []) @ [Sleep d]"
    "rf' = rf\<lparr>rf_failing_since := (if rf_failures rf = 0 then rw_now w else rf_failing_since rf),
       rf_last_reminder := (if failure_logged w expired rf then rw_now w else rf_last_reminder rf),
       rf_expiry_reported := expired, rf_failures := rf_failures rf + 1\<rparr>"
    unfolding expired_def by auto
  moreover have "timed_round refresh events"
    using round_effect_bounds [OF r(6,2) ok(2-4)] assms(5) by simp
  ultimately show ?thesis using r assms(5) v rok
    by (auto simp: log_count_def refresher_ok_def warns_def simp del: fun_upd_apply)
qed

lemma div_reminder:
  fixes t now r :: int
  shows "FAILURE_REMINDER \<le> now - r \<Longrightarrow>
      (t - now) div FAILURE_REMINDER + 1 \<le> (t - r) div FAILURE_REMINDER"
    and "r \<le> now \<Longrightarrow> (t - now) div FAILURE_REMINDER \<le> (t - r) div FAILURE_REMINDER"
proof -
  have "(t - now) div 60 + 1 = (t - now + 60) div 60" by simp
  moreover assume "FAILURE_REMINDER \<le> now - r"
  then have "(t - now + 60) div 60 \<le> (t - r) div 60"
    by (intro zdiv_mono1) (auto simp: FAILURE_REMINDER_def)
  ultimately show "(t - now) div FAILURE_REMINDER + 1 \<le> (t - r) div FAILURE_REMINDER"
    by (simp add: FAILURE_REMINDER_def)
next
  assume "r \<le> now"
  then show "(t - now) div FAILURE_REMINDER \<le> (t - r) div FAILURE_REMINDER"
    by (intro zdiv_mono1) (auto simp: FAILURE_REMINDER_def)
qed

text \<open>
  Inside a streak of failures: each reminder uses up a minute since the last one, except at most
  one, for the moment the list expires.
\<close>

lemma failing_streak:
  assumes "cache_inv held {} {} c" and "refresher_ok c refresh rf (length ws)"
    and "rounds_ok api name refresh timeout ws rf c" and "failing_rounds api timeout ws"
    and "0 < rf_failures rf" and "rf_last_reminder rf \<le> t"
    and "\<forall>w\<in>set ws. rf_last_reminder rf \<le> rw_now w \<and> rw_now w \<le> t"
    and "rf_expiry_reported rf \<longrightarrow>
      (\<forall>w\<in>set ws. view_expired (rw_expiry_at w) (max_age c) (cache_view c))"
  shows "\<exists>left rounds rf' c'. refresh_pods api name refresh timeout ws rf c = Some (left, concat rounds, rf', c')
     \<and> int (log_count (concat rounds)) \<le> (t - rf_last_reminder rf) div FAILURE_REMINDER
         + (if rf_expiry_reported rf then 0 else 1)
     \<and> length rounds = length ws \<and> list_all (timed_round refresh) rounds
     \<and> reminded (rf_last_reminder rf) ws rounds"
  using assms
proof (induction ws arbitrary: rf c)
  case Nil
  then have "int (log_count (concat [])) \<le> (t - rf_last_reminder rf) div FAILURE_REMINDER
      + (if rf_expiry_reported rf then 0 else 1)"
    by (simp add: log_count_def FAILURE_REMINDER_def pos_imp_zdiv_nonneg_iff)
  then show ?case by (intro exI [of _ False] exI [of _ "[]"] exI [of _ rf] exI [of _ c]) simp
next
  case (Cons w ws)
  let ?expired = "view_expired (rw_expiry_at w) (max_age c) (cache_view c)"
  from Cons.prems(3,4) have "fetched api timeout w \<noteq> None" "fresh_blocks w c" "\<not> leaving w"
    "delivered api timeout w = None" by (auto simp: failing_rounds_Cons)
  from failing_round [OF Cons.prems(1) _ this, of refresh rf "length ws" name] Cons.prems(2)
  obtain events rf' c' where
    r: "refresh_round api name refresh timeout w rf c = Some (True, events, rf', c')"
      "cache_inv held {} {} c'" "max_age c' = max_age c" "cache_view c' = cache_view c"
      "refresher_ok c' refresh rf' (length ws)"
      "log_count events = (if failure_logged w ?expired rf then 1 else 0)"
      "rf_last_reminder rf' = (if failure_logged w ?expired rf then rw_now w else rf_last_reminder rf)"
      "rf_expiry_reported rf' = ?expired" "rf_failures rf' = rf_failures rf + 1"
      "timed_round refresh events" "warns events = failure_logged w ?expired rf" by auto
  have later: "\<forall>v\<in>set ws. rw_now w \<le> rw_now v \<and> rw_expiry_at w \<le> rw_expiry_at v"
    using Cons.prems(4) by (simp add: failing_rounds_Cons)
  have "rounds_ok api name refresh timeout ws rf' c'" "failing_rounds api timeout ws"
    using Cons.prems(3,4) r(1) by (auto simp: failing_rounds_Cons)
  moreover have "rf_last_reminder rf' \<le> t" "\<forall>v\<in>set ws. rf_last_reminder rf' \<le> rw_now v \<and> rw_now v \<le> t"
    using Cons.prems(6,7) later r(7) by auto
  moreover have "rf_expiry_reported rf' \<longrightarrow>
      (\<forall>v\<in>set ws. view_expired (rw_expiry_at v) (max_age c') (cache_view c'))"
    using later r(3,4,8) view_expired_later by auto
  moreover have "0 < rf_failures rf'" using Cons.prems(5) r(9) by simp
  ultimately obtain left rounds rf2 c2 where
    i: "refresh_pods api name refresh timeout ws rf' c' = Some (left, concat rounds, rf2, c2)"
      "int (log_count (concat rounds)) \<le> (t - rf_last_reminder rf') div FAILURE_REMINDER
         + (if rf_expiry_reported rf' then 0 else 1)"
      "length rounds = length ws" "list_all (timed_round refresh) rounds"
      "reminded (rf_last_reminder rf') ws rounds"
    using Cons.IH [OF r(2,5)] by blast
  have run: "refresh_pods api name refresh timeout (w # ws) rf c = Some (left, concat (events # rounds), rf2, c2)"
    using r(1) i(1) by simp
  have "reminded (rf_last_reminder rf) (w # ws) (events # rounds)"
    using i(5) r(7,11) Cons.prems(5) by (auto simp: failure_logged_def FAILURE_REMINDER_def)
  moreover have "rf_expiry_reported rf \<longrightarrow> ?expired" using Cons.prems(8) by simp
  moreover have "rf_last_reminder rf \<le> rw_now w" using Cons.prems(7) by simp
  ultimately have "int (log_count events) + int (log_count (concat rounds))
      \<le> (t - rf_last_reminder rf) div FAILURE_REMINDER + (if rf_expiry_reported rf then 0 else 1)"
    using i(2) r(6-8) div_reminder [where t = t and now = "rw_now w" and r = "rf_last_reminder rf"]
      Cons.prems(5)
    by (auto simp: failure_logged_def split: if_splits)
  with run i(3,4) r(10) \<open>reminded (rf_last_reminder rf) (w # ws) (events # rounds)\<close> show ?case
    by (intro exI [of _ left] exI [of _ "events # rounds"] exI [of _ rf2] exI [of _ c2]) simp
qed

text \<open>
  C34. Failures are logged when they start and then about once a minute. While every request fails,
  over a clock that never goes back, a run is a sequence of rounds, each one request, log lines and
  one sleep. The first failure is logged as a warning in its own round; every later round either
  logs a warning itself or comes less than 60 seconds after one that did; and the number of
  log lines is at most one per minute that has passed plus two (the first, and one more for the
  moment the list outlives its maximal age).
\<close>

theorem failures_logged_once_a_minute:
  assumes "cache_inv held {} {} c" and "refresher_ok c refresh rf (length ws)"
    and "rounds_ok api name refresh timeout ws rf c" and "failing_rounds api timeout ws"
    and "ws \<noteq> []" and "rf_failures rf = 0"
  shows "\<exists>left rounds rf' c'. refresh_pods api name refresh timeout ws rf c
         = Some (left, concat rounds, rf', c')
     \<and> length rounds = length ws
     \<and> (\<forall>events\<in>set rounds. \<exists>lines d. events = Requested # map Log lines @ [Sleep d])
     \<and> warns (hd rounds)
     \<and> (\<forall>i<length ws. \<exists>j\<le>i. warns (rounds ! j) \<and> rw_now (ws ! i) - rw_now (ws ! j) < 60)
     \<and> int (log_count (concat rounds)) \<le> (rw_now (last ws) - rw_now (hd ws)) div FAILURE_REMINDER + 2"
proof -
  from assms(5) obtain w vs where ws: "ws = w # vs" by (cases ws) auto
  let ?expired = "view_expired (rw_expiry_at w) (max_age c) (cache_view c)"
  have logged: "failure_logged w ?expired rf" using assms(6) by (simp add: failure_logged_def)
  from assms(3,4) ws have "fetched api timeout w \<noteq> None" "fresh_blocks w c" "\<not> leaving w"
    "delivered api timeout w = None" by (auto simp: failing_rounds_Cons)
  from failing_round [OF assms(1) _ this, of refresh rf "length vs" name] assms(2) ws logged
  obtain events rf' c' where
    r: "refresh_round api name refresh timeout w rf c = Some (True, events, rf', c')"
      "cache_inv held {} {} c'" "max_age c' = max_age c" "cache_view c' = cache_view c"
      "refresher_ok c' refresh rf' (length vs)" "log_count events = 1"
      "rf_last_reminder rf' = rw_now w" "rf_expiry_reported rf' = ?expired" "rf_failures rf' = 1"
      "timed_round refresh events" "warns events"
    using assms(6) by auto
  have times: "\<forall>v\<in>set vs. rw_now w \<le> rw_now v \<and> rw_expiry_at w \<le> rw_expiry_at v
      \<and> rw_now v \<le> rw_now (last ws)" "rw_now w \<le> rw_now (last ws)"
    using last_is_latest [OF assms(4)] assms(4) ws by (auto simp: failing_rounds_Cons)
  have "rounds_ok api name refresh timeout vs rf' c'" "failing_rounds api timeout vs"
    using assms(3,4) r(1) ws by (auto simp: failing_rounds_Cons)
  from failing_streak [OF r(2,5) this, of "rw_now (last ws)"] r times view_expired_later
  obtain left rounds rf2 c2 where
    i: "refresh_pods api name refresh timeout vs rf' c' = Some (left, concat rounds, rf2, c2)"
      "int (log_count (concat rounds)) \<le> (rw_now (last ws) - rw_now w) div FAILURE_REMINDER + 1"
      "length rounds = length vs" "list_all (timed_round refresh) rounds"
      "reminded (rw_now w) vs rounds"
    by (auto split: if_splits)
  have at: "\<exists>j\<le>i. warns ((events # rounds) ! j) \<and> rw_now (ws ! i) - rw_now (ws ! j) < 60"
    if "i < length ws" for i
  proof -
    have "reminded (rw_now w - 60) ws (events # rounds)" using i(5) r(11) ws by simp
    from reminded_at [OF this that] consider "rw_now (ws ! i) - (rw_now w - 60) < 60"
      | "\<exists>j\<le>i. warns ((events # rounds) ! j) \<and> rw_now (ws ! i) - rw_now (ws ! j) < 60" by blast
    then show ?thesis
    proof cases
      case 1
      with r(11) ws show ?thesis by (intro exI [of _ 0]) simp
    qed
  qed
  have "\<forall>es\<in>set (events # rounds). \<exists>lines d. es = Requested # map Log lines @ [Sleep d]"
    using i(4) r(10) timed_shape by (auto simp: list_all_iff)
  moreover have "int (log_count (concat (events # rounds)))
      \<le> (rw_now (last ws) - rw_now (hd ws)) div FAILURE_REMINDER + 2"
    using i(2) r(6) ws by simp
  moreover have "refresh_pods api name refresh timeout ws rf c = Some (left, concat (events # rounds), rf2, c2)"
    using r(1) i(1) ws by simp
  ultimately show ?thesis using at i(3) r(11) ws
    by (intro exI [of _ left] exI [of _ "events # rounds"] exI [of _ rf2] exI [of _ c2]) simp
qed

section \<open>Witnesses\<close>

text \<open>
  Rounds answered with the given document: \<open>pods\<close> is the list of two pods, \<open>denied\<close> is no pod
  list. The list is received in block \<open>n\<close> and published as snapshot \<open>n\<close>, at time \<open>t\<close>.
\<close>

definition demo_round :: "string \<Rightarrow> nat \<Rightarrow> int \<Rightarrow> bool \<Rightarrow> round_world" where
  "demo_round doc n t is_last = \<lparr>rw_closing = is_last, rw_curl = demo_curl [doc], rw_fetch = demo_world,
     rw_list = n, rw_closing_after = False, rw_block = Some n, rw_published_at = t,
     rw_recovered_at = t, rw_now = t, rw_expiry_at = t, rw_described_at = t,
     rw_getenv = (\<lambda>_. None)\<rparr>"

definition demo_cache :: cache where "demo_cache = empty_cache\<lparr>client := Some new_handle\<rparr>"

lemma demo_cache_inv: "cache_inv (\<lambda>_. 0) {} {} demo_cache"
  by (simp add: demo_cache_def cache_inv_empty)

lemma demo_refresher_ok: "n < 100 \<Longrightarrow> refresher_ok demo_cache 5 new_refresher n"
  by (simp add: refresher_ok_def demo_cache_def new_refresher_def)

lemma demo_fetched_doc:
  assumes "ch_nul \<notin> set doc" and "length doc < 2 ^ 63"
  shows "fetched demo_api 5 (demo_round doc n t b) = Some (parse_pod_list demo_api True doc 512)"
proof -
  have "takeWhile (\<lambda>c. c \<noteq> ch_nul) doc = doc" using assms by (auto simp: takeWhile_eq_all_conv)
  then have "c_string_of (concat [doc]) = doc" by (simp add: c_string_of_def)
  then have "\<exists>h. pod_list_fetch demo_api (demo_curl [doc]) demo_world new_handle 5 512
      = Some (parse_pod_list demo_api True doc 512, h)"
    using fetch_response [OF demo_namespace demo_token _ demo_delivers [of "[doc]"], of demo_api new_handle 5]
      assms(2) by (simp add: demo_world_def)
  then show ?thesis by (auto simp: fetched_def demo_round_def)
qed

lemma demo_fetched_pods: "fetched demo_api 5 (demo_round ''pods'' n t b) = Some (Inr demo_list)"
  by (simp add: demo_fetched_doc demo_parsed ch_defs)

lemma demo_fetched_denied:
  "fetched demo_api 5 (demo_round ''denied'' n t b) = Some (Inl ''the response has no `items` array'')"
proof -
  have "parse_pod_list demo_api True ''denied'' 512 = Inl ''the response has no `items` array''"
    by code_simp
  then show ?thesis by (simp add: demo_fetched_doc ch_defs)
qed

text \<open>A failed request leaves the heap as it was.\<close>

lemma failed_round_heap:
  assumes "fetched api timeout w = Some (Inl e)"
    and "refresh_round api name refresh timeout w rf c = Some (go_on, events, rf', c')"
  shows "lists c' = lists c \<and> snapshots c' = snapshots c"
proof (cases "rw_closing w \<or> client c = None")
  case True
  with assms(2) show ?thesis by (cases "rw_closing w") (auto simp: refresh_round_def)
next
  case False
  then obtain h where h: "client c = Some h" "\<not> rw_closing w" by auto
  from fetched_handle [OF assms(1)] obtain h' where
    "pod_list_fetch api (rw_curl w) (rw_fetch w) h timeout 512 = Some (Inl e, h')" by blast
  with assms(2) h show ?thesis
    by (auto simp: refresh_round_def take_list_def pod_list_free_def Let_def bind_eq_Some_conv
        split: if_splits)
qed

lemma rounds_ok_pair:
  assumes "fetched api timeout w1 = Some (Inl e)" and "fetched api timeout w2 \<noteq> None"
    and "fresh_blocks w1 c" and "fresh_blocks w2 c"
  shows "rounds_ok api name refresh timeout [w1, w2] rf c"
proof (cases "refresh_round api name refresh timeout w1 rf c")
  case (Some r)
  obtain go_on events rf' c' where r: "r = (go_on, events, rf', c')" by (cases r) auto
  with Some failed_round_heap [OF assms(1)] have "lists c' = lists c \<and> snapshots c' = snapshots c"
    by blast
  then have "fresh_blocks w2 c'" using assms(4)
    by (simp add: fresh_blocks_def split: option.splits)
  with Some r assms(1-3) show ?thesis by (cases go_on) (auto split: option.split bool.split)
qed (use assms in simp)

lemma demo_fresh: "fresh_blocks (demo_round doc n t b) demo_cache"
  by (simp add: fresh_blocks_def demo_round_def demo_cache_def empty_cache_def)

lemma demo_delivered:
  "delivered demo_api 5 (demo_round ''pods'' n t b) = Some demo_list"
  "delivered demo_api 5 (demo_round ''denied'' n t b) = None"
  by (simp_all add: delivered_def demo_fetched_pods demo_fetched_denied)
     (simp add: demo_round_def demo_list_def)

lemma demo_leaving [simp]: "leaving (demo_round doc n t b) = b"
  by (simp add: leaving_def demo_round_def)

lemma refresher_keeps_last_good_list_witness:
  "\<exists>events rf' c'. refresh_pods demo_api ''b'' 5 5
       [demo_round ''denied'' 1 20 False, demo_round ''pods'' 1 30 False] new_refresher demo_cache
     = Some (False, events, rf', c') \<and> cache_view c' = Some (demo_list, 30)"
proof -
  let ?ws = "[demo_round ''denied'' 1 20 False, demo_round ''pods'' 1 30 False]"
  have "rounds_ok demo_api ''b'' 5 5 ?ws new_refresher demo_cache"
    by (rule rounds_ok_pair) (simp_all add: demo_fetched_denied demo_fetched_pods demo_fresh)
  from refresher_keeps_last_good_list [OF demo_cache_inv demo_refresher_ok this]
  show ?thesis by (auto simp: view_after_def demo_delivered) (simp add: demo_round_def)
qed

lemma demo_failing: "rounds_ok demo_api ''b'' 5 5
    [demo_round ''denied'' 1 20 False, demo_round ''denied'' 1 90 False] new_refresher demo_cache"
  by (rule rounds_ok_pair) (simp_all add: demo_fetched_denied demo_fresh)

lemma failures_logged_once_a_minute_witness:
  "\<exists>left rounds rf' c'. refresh_pods demo_api ''b'' 5 5
       [demo_round ''denied'' 1 20 False, demo_round ''denied'' 1 90 False] new_refresher demo_cache
     = Some (left, concat rounds, rf', c') \<and> warns (rounds ! 0) \<and> warns (rounds ! 1)
     \<and> log_count (concat rounds) \<le> 3"
proof -
  let ?ws = "[demo_round ''denied'' 1 20 False, demo_round ''denied'' 1 90 False]"
  have f: "failing_rounds demo_api 5 ?ws"
    by (simp add: failing_rounds_def demo_delivered) (simp add: demo_round_def)
  have t: "rw_now (demo_round d n t b) = t" for d n t b by (simp add: demo_round_def)
  from failures_logged_once_a_minute [OF demo_cache_inv demo_refresher_ok demo_failing f]
  obtain left rounds rf' c' where
    r: "refresh_pods demo_api ''b'' 5 5 ?ws new_refresher demo_cache = Some (left, concat rounds, rf', c')"
      "\<forall>i<length ?ws. \<exists>j\<le>i. warns (rounds ! j) \<and> rw_now (?ws ! i) - rw_now (?ws ! j) < 60"
      "int (log_count (concat rounds)) \<le> (rw_now (last ?ws) - rw_now (hd ?ws)) div FAILURE_REMINDER + 2"
    by (auto simp: new_refresher_def)
  have "warns (rounds ! 0)" using spec [OF r(2), of 0] by simp
  moreover have "warns (rounds ! 1)" using spec [OF r(2), of 1] by (auto simp: t le_Suc_eq)
  ultimately show ?thesis using r(1,3) by (auto simp: t FAILURE_REMINDER_def)
qed

lemma refresher_pace_witness:
  "\<exists>events1 events2 lines d rf' c'. refresh_pods demo_api ''b'' 5 5
       [demo_round ''denied'' 1 20 False, demo_round ''denied'' 1 90 False] new_refresher demo_cache
     = Some (False, events1 @ events2, rf', c')
     \<and> events1 = Requested # map Log lines @ [Sleep d] \<and> 5 \<le> d \<and> d \<le> 30"
proof -
  let ?ws = "[demo_round ''denied'' 1 20 False, demo_round ''denied'' 1 90 False]"
  from refresher_pace [OF demo_cache_inv demo_refresher_ok demo_failing] obtain rounds rf' c' where
    "refresh_pods demo_api ''b'' 5 5 ?ws new_refresher demo_cache
       = Some (list_ex leaving ?ws, concat rounds @ last_request ?ws, rf', c')"
    "length rounds = length (takeWhile (\<lambda>w. \<not> leaving w) ?ws)"
    "\<forall>events\<in>set rounds. \<exists>lines d. events = Requested # map Log lines @ [Sleep d]
        \<and> 5 \<le> d \<and> d \<le> max 5 30" by auto
  moreover from this(2) obtain es1 es2 where "rounds = [es1, es2]"
    by (auto simp: length_Suc_conv)
  ultimately show ?thesis by (auto simp: last_request_def)
qed

end
