(* ===== verification/Ip_Patterns.thy ===== *)
theory Ip_Patterns
  imports Settings "HOL-Library.Sublist"
begin

text \<open>
  \<^verbatim>\<open>unicaster.c\<close>, the interface selection: \<open>init_ip_patterns\<close>, \<open>cleanup_ip_patterns\<close> and
  \<open>ip_matches_pattern\<close>, over the list of the first \<open>ip_pattern_count\<close> entries of
  \<open>ip_patterns\<close>. An entry is \<open>None\<close> where \<open>strdup\<close> returned \<open>NULL\<close>; a result \<open>None\<close> is an access
  through \<open>NULL\<close>. The debug lines of the comparison are not modelled.
\<close>

section \<open>Operations\<close>

definition MAX_IP_PATTERNS :: nat where "MAX_IP_PATTERNS = 16"

type_synonym ip_patterns = "string option list"

text \<open>\<open>while (end > pattern && *end == ' ') end--\<close>, with \<open>end\<close> as an offset from \<open>pattern\<close>.\<close>

function trim_end :: "string \<Rightarrow> int \<Rightarrow> int" where
  "trim_end pattern e =
     (if e > 0 \<and> pattern ! nat e = CHR '' '' then trim_end pattern (e - 1) else e)"
  by pat_completeness auto
termination by (relation "measure (\<lambda>(pattern, e). nat e)") auto

declare trim_end.simps [simp del]

definition trim_pattern :: "string \<Rightarrow> string" where
  "trim_pattern token =
     (let pattern = dropWhile (\<lambda>c. c = CHR '' '') token;
          e = trim_end pattern (int (length pattern) - 1)
      in take (nat (e + 1)) pattern)"

definition found_log :: "string \<Rightarrow> log_line" where
  "found_log pattern = (Log_debug, ''DEBUG: pattern found: '' @ pattern)"

text \<open>
  The loop over the tokens. \<open>dup n\<close> says whether the \<open>strdup\<close> for entry \<open>n\<close> succeeds.
\<close>

function pattern_loop ::
  "(nat \<Rightarrow> bool) \<Rightarrow> (string \<times> string) option \<Rightarrow> ip_patterns \<Rightarrow> log_line list \<times> ip_patterns" where
  "pattern_loop dup tok ps =
     (case tok of
        None \<Rightarrow> ([], ps)
      | Some (token, rest) \<Rightarrow>
          if length ps < MAX_IP_PATTERNS
          then (let pattern = trim_pattern token;
                    ps1 = (if length pattern > 0
                           then ps @ [if dup (length ps) then Some pattern else None] else ps);
                    (logs, ps2) = pattern_loop dup (strtok '','' rest) ps1
                in (found_log pattern # logs, ps2))
          else ([], ps))"
  by pat_completeness auto
termination
  by (relation "measure (\<lambda>(dup, tok, ps). case tok of None \<Rightarrow> 0 | Some (t, r) \<Rightarrow> Suc (length r))")
     (auto dest: strtok_rest_shorter split: option.splits)

declare pattern_loop.simps [simp del]

definition init_ip_patterns ::
  "environ \<Rightarrow> bool \<Rightarrow> (nat \<Rightarrow> bool) \<Rightarrow> ip_patterns \<Rightarrow> (log_line list \<times> ip_patterns) option" where
  "init_ip_patterns getenv dup_env dup ps =
     (case getenv ''SELECTED_INTERFACES'' of
        None \<Rightarrow> Some ([(Log_warning, ''DEBUG: SELECTED_INTERFACES is not defined'')], ps)
      | Some env \<Rightarrow>
          if \<not> dup_env then None
          else (case pattern_loop dup (strtok '','' env) ps of
                  (logs, ps1) \<Rightarrow>
                    Some ((Log_debug, ''DEBUG: SELECTED_INTERFACES: '' @ env) # logs, ps1)))"

definition cleanup_ip_patterns :: "ip_patterns \<Rightarrow> ip_patterns" where
  "cleanup_ip_patterns ps = []"

fun match_loop :: "ip_patterns \<Rightarrow> string \<Rightarrow> bool option" where
  "match_loop [] ip = Some False"
| "match_loop (None # ps) ip = None"
| "match_loop (Some p # ps) ip =
     (if strncmp ip p (length p) = 0 then Some True else match_loop ps ip)"

definition ip_matches_pattern :: "ip_patterns \<Rightarrow> string \<Rightarrow> bool option" where
  "ip_matches_pattern ps ip = (if length ps = 0 then Some True else match_loop ps ip)"

section \<open>Trimming\<close>

text \<open>\<open>end\<close> stays inside the token: the byte written is one of it, or its NUL.\<close>

lemma trim_end_bounds: "trim_end p e \<le> e \<and> (-1 \<le> e \<longrightarrow> -1 \<le> trim_end p e)"
proof (induction p e rule: trim_end.induct)
  case (1 p e)
  then show ?case by (subst (1 2) trim_end.simps) auto
qed

definition strip :: "string \<Rightarrow> string" where
  "strip s = rev (dropWhile (\<lambda>c. c = CHR '' '') (rev (dropWhile (\<lambda>c. c = CHR '' '') s)))"

lemma trim_end_strip:
  assumes "p \<noteq> []" and "hd p \<noteq> CHR '' ''" and "0 \<le> e" and "e < int (length p)"
  shows "take (nat (trim_end p e + 1)) p
    = rev (dropWhile (\<lambda>c. c = CHR '' '') (rev (take (nat (e + 1)) p)))"
  using assms
proof (induction p e rule: trim_end.induct)
  case (1 p e)
  have t: "take (nat (e + 1)) p = take (nat e) p @ [p ! nat e]"
    using 1 by (simp add: nat_add_distrib take_Suc_conv_app_nth)
  show ?case
  proof (cases "e > 0 \<and> p ! nat e = CHR '' ''")
    case True
    with 1 have "take (nat (trim_end p (e - 1) + 1)) p
        = rev (dropWhile (\<lambda>c. c = CHR '' '') (rev (take (nat e) p)))" by simp
    with True t show ?thesis by (subst trim_end.simps) simp
  next
    case False
    have "p ! nat e \<noteq> CHR '' ''"
    proof (cases "e = 0")
      case True
      with 1 show ?thesis by (cases p) auto
    qed (use False 1 in simp)
    with False t show ?thesis by (subst trim_end.simps) auto
  qed
qed

lemma trim_pattern_strip: "trim_pattern token = strip token"
proof (cases "dropWhile (\<lambda>c. c = CHR '' '') token = []")
  case True
  then show ?thesis unfolding trim_pattern_def strip_def Let_def by (simp only: True) simp
next
  case False
  then have "hd (dropWhile (\<lambda>c. c = CHR '' '') token) \<noteq> CHR '' ''" by (rule hd_dropWhile)
  from trim_end_strip [OF False this, of "int (length (dropWhile (\<lambda>c. c = CHR '' '') token)) - 1"] False
  show ?thesis by (simp add: trim_pattern_def strip_def Let_def)
qed

section \<open>The list of patterns\<close>

lemma fields_token:
  "t \<noteq> [] \<Longrightarrow> c \<notin> set t \<Longrightarrow> d = [] \<or> hd d = c \<Longrightarrow>
     filter (\<lambda>f. f \<noteq> []) (split_on c (t @ d)) = t # filter (\<lambda>f. f \<noteq> []) (split_on c (drop 1 d))"
  by (cases d) (auto simp: split_on_field split_on_append)

lemma fields_strtok:
  "filter (\<lambda>f. f \<noteq> []) (split_on c s)
     = (case strtok [c] s of None \<Rightarrow> []
        | Some (t, r) \<Rightarrow> t # filter (\<lambda>f. f \<noteq> []) (split_on c r))"
proof -
  let ?s = "dropWhile (\<lambda>x. x = c) s"
  have skip: "filter (\<lambda>f. f \<noteq> []) (split_on c s) = filter (\<lambda>f. f \<noteq> []) (split_on c ?s)"
    by (induction s) auto
  show ?thesis
  proof (cases "?s = []")
    case True
    with skip show ?thesis by (simp add: strtok_def)
  next
    case False
    let ?t = "takeWhile (\<lambda>x. x \<noteq> c) ?s" and ?d = "dropWhile (\<lambda>x. x \<noteq> c) ?s"
    have tok: "strtok [c] s = Some (?t, drop 1 ?d)" using False by (simp add: strtok_def Let_def)
    have t: "?t \<noteq> []" "c \<notin> set ?t"
      by (rule strtok_token(1) [OF tok]) (blast dest: set_takeWhileD)
    have "filter (\<lambda>f. f \<noteq> []) (split_on c s) = filter (\<lambda>f. f \<noteq> []) (split_on c (?t @ ?d))"
      using skip by simp
    also have "\<dots> = ?t # filter (\<lambda>f. f \<noteq> []) (split_on c (drop 1 ?d))"
    proof (rule fields_token [OF t])
      show "?d = [] \<or> hd ?d = c" using hd_dropWhile [of "\<lambda>x. x \<noteq> c" ?s] by blast
    qed
    finally show ?thesis unfolding tok by simp
  qed
qed

text \<open>The blank-free fields of the variable.\<close>

definition selected :: "string \<Rightarrow> string list" where
  "selected env = filter (\<lambda>f. f \<noteq> []) (map strip (split_on CHR '','' env))"

lemma selected_strtok:
  "selected env = (case strtok '','' env of None \<Rightarrow> []
     | Some (t, r) \<Rightarrow> (if strip t = [] then [] else [strip t]) @ selected r)"
proof -
  have strip_nil: "strip [] = []" by (simp add: strip_def)
  have "filter (\<lambda>f. f \<noteq> []) (map strip fs)
      = filter (\<lambda>f. f \<noteq> []) (map strip (filter (\<lambda>f. f \<noteq> []) fs))" for fs
    by (induction fs) (simp_all add: strip_nil)
  then have sel: "selected s
      = filter (\<lambda>f. f \<noteq> []) (map strip (filter (\<lambda>f. f \<noteq> []) (split_on CHR '','' s)))" for s
    unfolding selected_def .
  show ?thesis
  proof (cases "strtok '','' env")
    case None
    then show ?thesis using fields_strtok [of "CHR '',''" env] by (simp add: sel [of env])
  next
    case (Some tr)
    then obtain t r where tok: "strtok '','' env = Some (t, r)" by (cases tr) auto
    have "selected env = filter (\<lambda>f. f \<noteq> [])
        (map strip (t # filter (\<lambda>f. f \<noteq> []) (split_on CHR '','' r)))"
      using fields_strtok [of "CHR '',''" env] tok by (simp add: sel [of env])
    with tok show ?thesis by (simp add: sel [of r])
  qed
qed

lemma pattern_loop_selected:
  assumes "\<forall>n. dup n" and "length ps \<le> MAX_IP_PATTERNS"
  shows "snd (pattern_loop dup (strtok '','' s) ps)
    = ps @ map Some (take (MAX_IP_PATTERNS - length ps) (selected s))"
  using assms(2)
proof (induction "length s" arbitrary: s ps rule: less_induct)
  case less
  show ?case
  proof (cases "strtok '','' s")
    case None
    then show ?thesis by (subst pattern_loop.simps) (simp add: selected_strtok)
  next
    case (Some tr)
    then obtain t r where tok: "strtok '','' s = Some (t, r)" by (cases tr) auto
    note sel = selected_strtok [of s, unfolded tok]
    show ?thesis
    proof (cases "length ps < MAX_IP_PATTERNS")
      case True
      let ?ps = "if strip t = [] then ps else ps @ [Some (strip t)]"
      from True have "length ?ps \<le> MAX_IP_PATTERNS" by simp
      from less.hyps [OF strtok_rest_shorter [OF tok] this]
      have "snd (pattern_loop dup (strtok '','' r) ?ps)
          = ?ps @ map Some (take (MAX_IP_PATTERNS - length ?ps) (selected r))" .
      moreover have "snd (pattern_loop dup (Some (t, r)) ps)
          = snd (pattern_loop dup (strtok '','' r) ?ps)"
        using True assms(1)
        by (subst pattern_loop.simps) (simp add: trim_pattern_strip Let_def split: prod.split)
      ultimately show ?thesis using True tok sel by (auto simp: take_Suc_conv_app_nth Suc_diff_Suc [symmetric])
    next
      case False
      with less.prems tok show ?thesis by (subst pattern_loop.simps) simp
    qed
  qed
qed

lemma match_loop_Some:
  "match_loop (map Some ps) ip = Some (\<exists>p\<in>set ps. prefix p ip)"
proof (induction ps)
  case (Cons p ps)
  have "strncmp ip p (length p) = 0 \<longleftrightarrow> prefix p ip"
    unfolding strncmp_prefix by (metis append_eq_conv_conj prefix_def append_take_drop_id)
  with Cons show ?case by auto
qed simp

section \<open>Properties\<close>

definition accepts :: "environ \<Rightarrow> string \<Rightarrow> bool" where
  "accepts getenv ip \<longleftrightarrow>
     (case getenv ''SELECTED_INTERFACES'' of
        None \<Rightarrow> True
      | Some env \<Rightarrow> selected env = [] \<or> (\<exists>p\<in>set (take 16 (selected env)). prefix p ip))"

lemma patterns_accept:
  assumes "\<forall>n. dup n"
  shows "\<exists>logs ps. init_ip_patterns getenv True dup [] = Some (logs, ps)
     \<and> length ps \<le> MAX_IP_PATTERNS \<and> None \<notin> set ps
     \<and> (\<forall>ip. ip_matches_pattern ps ip = Some (accepts getenv ip))"
proof (cases "getenv ''SELECTED_INTERFACES''")
  case None
  then show ?thesis by (simp add: init_ip_patterns_def ip_matches_pattern_def accepts_def)
next
  case (Some env)
  obtain logs ps where l: "pattern_loop dup (strtok '','' env) [] = (logs, ps)" by fastforce
  with pattern_loop_selected [OF assms, of "[]" env]
  have ps: "ps = map Some (take 16 (selected env))" by (simp add: MAX_IP_PATTERNS_def)
  show ?thesis
    using Some l by (auto simp: init_ip_patterns_def ip_matches_pattern_def accepts_def
        match_loop_Some ps MAX_IP_PATTERNS_def)
qed

text \<open>
  C29. Which interfaces are used: with memory not exhausted, an address is accepted exactly when
  SELECTED_INTERFACES is unset or has no field but blanks, or one of its first 16 such fields,
  blanks around it removed, is a textual prefix of the address. A second cleanup and load
  starts from nothing again.
\<close>

theorem interface_selection:
  assumes "\<forall>n. dup n"
  shows "\<exists>logs ps. init_ip_patterns getenv True dup (cleanup_ip_patterns old) = Some (logs, ps)
     \<and> length ps \<le> MAX_IP_PATTERNS
     \<and> ip_matches_pattern ps ip = Some
         (case getenv ''SELECTED_INTERFACES'' of
            None \<Rightarrow> True
          | Some env \<Rightarrow> selected env = [] \<or> (\<exists>p\<in>set (take 16 (selected env)). prefix p ip))"
  using patterns_accept [OF assms, of getenv] unfolding cleanup_ip_patterns_def accepts_def by blast

lemma interface_selection_witness:
  "\<exists>logs ps. init_ip_patterns (\<lambda>_. Some ''10., 192.168 ,,'') True (\<lambda>_. True) (cleanup_ip_patterns [])
       = Some (logs, ps)
     \<and> ip_matches_pattern ps ''192.168.0.7'' = Some True"
proof -
  have "selected ''10., 192.168 ,,'' = [''10.'', ''192.168'']" by code_simp
  then show ?thesis
    using interface_selection [of "\<lambda>_. True" "\<lambda>_. Some ''10., 192.168 ,,''" "[]" "''192.168.0.7''"]
    by (auto simp: prefix_def)
qed

text \<open>
  A pattern is a prefix of the text, not of the octets: the pattern 10 of the README's example
  also accepts addresses outside 10.0.0.0/8.
\<close>

lemma pattern_is_text_prefix:
  "map_option snd (init_ip_patterns (\<lambda>_. Some ''10,192.168,172.20'') True (\<lambda>_. True) [])
     = Some [Some ''10'', Some ''192.168'', Some ''172.20'']
   \<and> ip_matches_pattern [Some ''10'', Some ''192.168'', Some ''172.20''] ''100.64.0.1'' = Some True"
  by code_simp

text \<open>Neither copy made with \<open>strdup\<close> is tested: without memory the next access is through \<open>NULL\<close>.\<close>

lemma unchecked_strdup:
  "init_ip_patterns (\<lambda>_. Some ''10'') False (\<lambda>_. True) [] = None
   \<and> map_option snd (init_ip_patterns (\<lambda>_. Some ''10'') True (\<lambda>_. False) []) = Some [None]
   \<and> ip_matches_pattern [None] ip = None"
proof -
  have "map_option snd (init_ip_patterns (\<lambda>_. Some ''10'') True (\<lambda>_. False) []) = Some [None]"
    by code_simp
  then show ?thesis by (simp add: init_ip_patterns_def ip_matches_pattern_def)
qed

end
