(* ===== verification/Announce.thy ===== *)
theory Announce
  imports Settings C_Inet
begin

text \<open>
  \<^verbatim>\<open>unicaster.c\<close>, what is announced: reading the running configuration
  (\<open>get_config_int\<close>, \<open>load_redis_bind_ips\<close>), choosing the port (\<open>get_tls_preference\<close>,
  \<open>resolve_announced_port\<close>) and the two datagrams of \<open>unicast_thread\<close>. The module API of
  Redis is the record \<open>reply_api\<close>; what is created and freed through it is a list of events.
\<close>

section \<open>Replies of Redis\<close>

text \<open>\<open>NULL\<close> is \<open>None\<close>; a string element stands for the C string of the module string made of it.\<close>

record 'r reply_api =
  call_config_get :: "string \<Rightarrow> 'r option"
  reply_type :: "'r \<Rightarrow> int"
  reply_length :: "'r \<Rightarrow> nat"
  reply_element :: "'r \<Rightarrow> nat \<Rightarrow> 'r option"
  reply_cstring :: "'r \<Rightarrow> string"

definition REDISMODULE_REPLY_STRING :: int where "REDISMODULE_REPLY_STRING = 0"
definition REDISMODULE_REPLY_ARRAY :: int where "REDISMODULE_REPLY_ARRAY = 3"

datatype reply_event = Reply_made | Reply_freed | String_made | String_freed

text \<open>The test every reader of the configuration starts with.\<close>

definition is_pair :: "'r reply_api \<Rightarrow> 'r \<Rightarrow> bool" where
  "is_pair api reply \<longleftrightarrow> reply_type api reply = REDISMODULE_REPLY_ARRAY \<and> reply_length api reply = 2"

definition string_value :: "'r reply_api \<Rightarrow> 'r \<Rightarrow> string option" where
  "string_value api reply =
     (case reply_element api reply 1 of
        None \<Rightarrow> None
      | Some v \<Rightarrow> if reply_type api v = REDISMODULE_REPLY_STRING then Some (reply_cstring api v) else None)"

section \<open>Reading the configuration\<close>

definition get_config_int :: "'r reply_api \<Rightarrow> string \<Rightarrow> int \<Rightarrow> int \<times> reply_event list" where
  "get_config_int api name fallback =
     (case call_config_get api name of
        None \<Rightarrow> (fallback, [])
      | Some reply \<Rightarrow>
          if is_pair api reply
          then (case string_value api reply of
                  Some value_cstr \<Rightarrow>
                    (parse_int value_cstr, [Reply_made, String_made, String_freed, Reply_freed])
                | None \<Rightarrow> (fallback, [Reply_made, Reply_freed]))
          else (fallback, [Reply_made, Reply_freed]))"

definition MAX_REDIS_BINDS :: nat where "MAX_REDIS_BINDS = 16"

text \<open>The entries of \<open>redis_bind_ips\<close> in use: \<open>strncpy\<close> stores at most 16 bytes of a token.\<close>

record redis_binds =
  bind_ips :: "string list"
  allow_all_interfaces :: bool

function bind_loop :: "(string \<times> string) option \<Rightarrow> redis_binds \<Rightarrow> redis_binds" where
  "bind_loop tok b =
     (case tok of
        None \<Rightarrow> b
      | Some (token, rest) \<Rightarrow>
          if length (bind_ips b) < MAX_REDIS_BINDS
          then (if strcmp token ''0.0.0.0'' = 0 then b\<lparr>allow_all_interfaces := True\<rparr>
                else bind_loop (strtok '' '' rest)
                       (b\<lparr>bind_ips := bind_ips b @ [take INET_ADDRSTRLEN token]\<rparr>))
          else b)"
  by pat_completeness auto
termination
  by (relation "measure (\<lambda>(tok, b). case tok of None \<Rightarrow> 0 | Some (t, r) \<Rightarrow> Suc (length r))")
     (auto dest: strtok_rest_shorter split: option.splits)

declare bind_loop.simps [simp del]

definition load_redis_bind_ips :: "'r reply_api \<Rightarrow> redis_binds \<times> reply_event list" where
  "load_redis_bind_ips api =
     (let b = \<lparr>bind_ips = [], allow_all_interfaces = False\<rparr>
      in case call_config_get api ''bind'' of
           None \<Rightarrow> (b\<lparr>allow_all_interfaces := True\<rparr>, [])
         | Some reply \<Rightarrow>
             if \<not> is_pair api reply
             then (b\<lparr>allow_all_interfaces := True\<rparr>, [Reply_made, Reply_freed])
             else (case string_value api reply of
                     None \<Rightarrow> (b, [Reply_made, Reply_freed])
                   | Some bind_cstr \<Rightarrow>
                       (bind_loop (strtok '' '' (take 255 bind_cstr)) b,
                        [Reply_made, String_made, String_freed, Reply_freed])))"

section \<open>The port\<close>

definition is_one_of :: "string \<Rightarrow> string list \<Rightarrow> bool" where
  "is_one_of env texts \<longleftrightarrow> list_ex (\<lambda>t. strcasecmp env t = 0) texts"

definition tls_ignored_log :: "environ \<Rightarrow> string \<Rightarrow> log_line" where
  "tls_ignored_log getenv env = (Log_warning, get_service_name getenv @ '': REDIS_BROADCAST_TLS=''
     @ [CHR 0x27] @ env @ [CHR 0x27]
     @ '' is not one of 1/0, yes/no, true/false, on/off - ignored, the listening port decides'')"

definition get_tls_preference :: "environ \<Rightarrow> int \<times> log_line list" where
  "get_tls_preference getenv =
     (case getenv ''REDIS_BROADCAST_TLS'' of
        None \<Rightarrow> (-1, [])
      | Some env \<Rightarrow>
          if env = [] then (-1, [])
          else if is_one_of env [''1'', ''yes'', ''true'', ''on''] then (1, [])
          else if is_one_of env [''0'', ''no'', ''false'', ''off''] then (0, [])
          else (-1, [tls_ignored_log getenv env]))"

definition no_tls_log :: "environ \<Rightarrow> log_line" where
  "no_tls_log getenv = (Log_warning, get_service_name getenv
     @ '': REDIS_BROADCAST_TLS asks for the TLS listener, but `tls-port` is 0 or unsupported by this build'')"

definition no_plain_log :: "environ \<Rightarrow> log_line" where
  "no_plain_log getenv = (Log_warning, get_service_name getenv
     @ '': REDIS_BROADCAST_TLS asks for the plaintext listener, but `port` is 0'')"

text \<open>The port, whether it is the TLS one, and what is logged.\<close>

definition resolve_announced_port :: "'r reply_api \<Rightarrow> environ \<Rightarrow> int \<times> bool \<times> log_line list" where
  "resolve_announced_port api getenv =
     (let port = fst (get_config_int api ''port'' 0);
          tls_port = fst (get_config_int api ''tls-port'' 0);
          (prefer_tls, logs) = get_tls_preference getenv
      in if prefer_tls = 1
         then (if tls_port > 0 then (tls_port, True, logs) else (0, False, logs @ [no_tls_log getenv]))
         else if prefer_tls = 0
         then (if port > 0 then (port, False, logs) else (0, False, logs @ [no_plain_log getenv]))
         else if port > 0 then (port, False, logs)
         else if tls_port > 0 then (tls_port, True, logs)
         else (0, False, logs))"

section \<open>The datagrams\<close>

record BroadcastTask =
  source_ip :: string
  redis_port :: int
  redis_tls :: bool

definition address_field :: "BroadcastTask \<Rightarrow> string" where
  "address_field task = source_ip task @ '':'' @ show_int (redis_port task)"

definition down_text :: "string \<Rightarrow> string \<Rightarrow> BroadcastTask \<Rightarrow> string" where
  "down_text name guid task = name @ [ch_tab] @ guid @ [ch_tab] @ ''down'' @ [ch_tab] @ address_field task"

definition up_text :: "string \<Rightarrow> string \<Rightarrow> BroadcastTask \<Rightarrow> int \<Rightarrow> string" where
  "up_text name guid task interval =
     name @ [ch_tab] @ guid @ [ch_tab] @ ''up'' @ [ch_tab] @ address_field task @ [ch_tab]
     @ show_int interval @ [ch_tab] @ (if redis_tls task then ''tls'' else ''plain'')"

definition down_message :: "string \<Rightarrow> string \<Rightarrow> BroadcastTask \<Rightarrow> string" where
  "down_message name guid task = snprintf 256 (down_text name guid task)"

definition up_message :: "string \<Rightarrow> string \<Rightarrow> BroadcastTask \<Rightarrow> int \<Rightarrow> string" where
  "up_message name guid task interval = snprintf 256 (up_text name guid task interval)"

section \<open>What the readers of the configuration guarantee\<close>

definition balanced :: "reply_event list \<Rightarrow> bool" where
  "balanced es \<longleftrightarrow>
     length (filter (\<lambda>e. e = Reply_made) es) = length (filter (\<lambda>e. e = Reply_freed) es)
     \<and> length (filter (\<lambda>e. e = String_made) es) = length (filter (\<lambda>e. e = String_freed) es)"

lemma bind_loop_bounds:
  "length (bind_ips b) \<le> MAX_REDIS_BINDS \<Longrightarrow> \<forall>ip\<in>set (bind_ips b). length ip \<le> INET_ADDRSTRLEN \<Longrightarrow>
     length (bind_ips (bind_loop tok b)) \<le> MAX_REDIS_BINDS
     \<and> (\<forall>ip\<in>set (bind_ips (bind_loop tok b)). length ip \<le> INET_ADDRSTRLEN)"
proof (induction tok b rule: bind_loop.induct)
  case (1 tok b)
  show ?case
  proof (cases tok)
    case None
    with 1 show ?thesis by (subst (1 2) bind_loop.simps) simp
  next
    case (Some tr)
    then obtain t r where tok: "tok = Some (t, r)" by (cases tr) auto
    show ?thesis
    proof (cases "length (bind_ips b) < MAX_REDIS_BINDS \<and> strcmp t ''0.0.0.0'' \<noteq> 0")
      case True
      let ?b = "b\<lparr>bind_ips := bind_ips b @ [take INET_ADDRSTRLEN t]\<rparr>"
      have "bind_loop tok b = bind_loop (strtok '' '' r) ?b"
        using True tok by (subst bind_loop.simps) simp
      moreover have "length (bind_ips (bind_loop (strtok '' '' r) ?b)) \<le> MAX_REDIS_BINDS
          \<and> (\<forall>ip\<in>set (bind_ips (bind_loop (strtok '' '' r) ?b)). length ip \<le> INET_ADDRSTRLEN)"
        using True 1(2,3) by (intro 1(1) [OF tok refl]) auto
      ultimately show ?thesis by simp
    next
      case False
      with 1(2,3) tok show ?thesis by (subst (1 2) bind_loop.simps) auto
    qed
  qed
qed

lemma get_config_int_range: "in_int fallback \<Longrightarrow> in_int (fst (get_config_int api name fallback))"
  by (simp add: get_config_int_def parse_int_range split: option.split)

lemma tls_preference_cases: "fst (get_tls_preference getenv) \<in> {-1, 0, 1}"
  by (simp add: get_tls_preference_def split: option.split)

lemma load_binds_bounded:
  "length (bind_ips (fst (load_redis_bind_ips api))) \<le> 16
     \<and> (\<forall>ip\<in>set (bind_ips (fst (load_redis_bind_ips api))). length ip \<le> 16)"
  using bind_loop_bounds [of "\<lparr>bind_ips = [], allow_all_interfaces = False\<rparr>"]
  by (auto simp: load_redis_bind_ips_def Let_def MAX_REDIS_BINDS_def INET_ADDRSTRLEN_def
      split: option.split)

lemma announced_range:
  "resolve_announced_port api getenv = (port, is_tls, logs) \<Longrightarrow> 0 \<le> port \<and> in_int port"
  using get_config_int_range [of 0 api]
  by (auto simp: resolve_announced_port_def Let_def in_int_def split: prod.splits if_splits)

text \<open>
  C32. Reading the configuration neither overruns the fixed arrays nor leaks: whatever Redis answers -
  an error, an empty array, a list of any length with entries of any length - at most 16
  entries of at most 16 bytes are stored, an integer directive is an \<open>int\<close>, and every reply
  and every string is freed exactly once.
\<close>

theorem configuration_is_bounded:
  "(case load_redis_bind_ips api of (b, es) \<Rightarrow>
      length (bind_ips b) \<le> 16 \<and> (\<forall>ip\<in>set (bind_ips b). length ip \<le> 16) \<and> balanced es)
   \<and> (\<forall>name. case get_config_int api name 0 of (n, es) \<Rightarrow> in_int n \<and> balanced es)"
proof -
  have "in_int n" if "get_config_int api name 0 = (n, es)" for name n es
    using get_config_int_range [of 0 api name] that by (simp add: in_int_def)
  moreover have "balanced es" if "get_config_int api name 0 = (n, es)" for name n es
    using that by (auto simp: get_config_int_def balanced_def split: option.splits if_splits)
  moreover have "balanced (snd (load_redis_bind_ips api))"
    by (simp add: load_redis_bind_ips_def balanced_def Let_def split: option.split)
  ultimately show ?thesis using load_binds_bounded [of api] by (cases "load_redis_bind_ips api") (auto split: prod.split)
qed

text \<open>
  C11. The announced port. The result is 0 or a port the configuration names, positive, and
  flagged as TLS exactly when it is \<open>tls-port\<close>; with no preference the plaintext listener wins
  when it is up and the TLS one is next; an explicit request for one of them is never answered
  with the other: when that listener is not up nothing is announced and a warning says why.
\<close>

theorem announced_port:
  "case resolve_announced_port api getenv of (port, is_tls, logs) \<Rightarrow>
     (let plain = fst (get_config_int api ''port'' 0); tls = fst (get_config_int api ''tls-port'' 0);
          preference = fst (get_tls_preference getenv)
      in 0 \<le> port \<and> in_int port \<and> (is_tls \<longrightarrow> port = tls) \<and> (\<not> is_tls \<longrightarrow> port = plain \<or> port = 0)
         \<and> (preference = 1 \<longrightarrow> is_tls \<and> 0 < tls \<or> port = 0 \<and> tls \<le> 0 \<and> no_tls_log getenv \<in> set logs)
         \<and> (preference = 0 \<longrightarrow> \<not> is_tls \<and> (0 < plain \<and> port = plain
               \<or> port = 0 \<and> plain \<le> 0 \<and> no_plain_log getenv \<in> set logs))
         \<and> (preference = -1 \<longrightarrow> (0 < plain \<longrightarrow> port = plain \<and> \<not> is_tls)
               \<and> (plain \<le> 0 \<and> 0 < tls \<longrightarrow> port = tls \<and> is_tls) \<and> (port = 0 \<longrightarrow> plain \<le> 0 \<and> tls \<le> 0)))"
  using get_config_int_range [of 0 api] tls_preference_cases [of getenv]
  by (cases "get_tls_preference getenv") (auto simp: resolve_announced_port_def Let_def in_int_def)

section \<open>What a reader of the datagrams sees\<close>

definition task_ok :: "BroadcastTask \<Rightarrow> bool" where
  "task_ok task \<longleftrightarrow> inet_pton (source_ip task) \<noteq> None \<and> in_int (redis_port task)"

lemma tab_not_digit [simp]: "\<not> is_digit ch_tab"
  by (simp add: is_digit_def ch_defs)

lemma show_int_no_tab [simp]: "ch_tab \<notin> set (show_int n)"
  using show_int_chars [of ch_tab n] by (auto simp: is_digit_def ch_defs)

lemma show_int_no_colon [simp]: "CHR '':'' \<notin> set (show_int n)"
  using show_int_chars [of "CHR '':''" n] by (auto simp: is_digit_def)

lemma ip_chars:
  assumes "inet_pton ip \<noteq> None" and "c \<in> set ip"
  shows "is_digit c \<or> c = CHR ''.''"
proof -
  from assms(1) obtain a where "inet_pton ip = Some a" by blast
  from inet_ntop_pton [OF this] assms(2) inet_ntop_chars [of c a] show ?thesis by simp
qed

lemma ip_length: "inet_pton ip \<noteq> None \<Longrightarrow> length ip < 16"
  using inet_ntop_length by (auto dest!: inet_ntop_pton simp: INET_ADDRSTRLEN_def)

lemma address_no_tab:
  assumes "task_ok task"
  shows "ch_tab \<notin> set (address_field task)" and "CHR '':'' \<notin> set (source_ip task)"
proof -
  have ok: "inet_pton (source_ip task) \<noteq> None" using assms by (simp add: task_ok_def)
  from ip_chars [OF ok, of ch_tab] have "ch_tab \<notin> set (source_ip task)"
    by (auto simp: is_digit_def ch_defs)
  then show "ch_tab \<notin> set (address_field task)" by (simp add: address_field_def) (simp add: ch_defs)
  from ip_chars [OF ok, of "CHR '':''"] show "CHR '':'' \<notin> set (source_ip task)"
    by (auto simp: is_digit_def)
qed

lemma address_length:
  assumes "task_ok task"
  shows "length (address_field task) \<le> 27"
  using ip_length [of "source_ip task"] show_int_length [of "redis_port task"] assms
  by (auto simp: address_field_def task_ok_def)

lemma up_text_fields:
  "up_text name guid task interval = join_on ch_tab [name, guid, ''up'', address_field task,
     show_int interval, if redis_tls task then ''tls'' else ''plain'']"
  by (simp add: up_text_def)

lemma down_text_fields:
  "down_text name guid task = join_on ch_tab [name, guid, ''down'', address_field task]"
  by (simp add: down_text_def)

lemma status_no_tab [simp]: "ch_tab \<notin> set ''up''" "ch_tab \<notin> set ''down''"
  "ch_tab \<notin> set (if b then ''tls'' else ''plain'')"
  by (simp_all add: ch_defs)

lemma up_fits:
  assumes "task_ok task" and "in_int interval" and "length name + length guid \<le> 205"
  shows "up_message name guid task interval = up_text name guid task interval"
    and "down_message name guid task = down_text name guid task"
  using address_length [OF assms(1)] show_int_length [OF assms(2)] assms(3)
  by (simp_all add: up_message_def down_message_def up_text_def down_text_def snprintf_fits)

lemma up_split:
  assumes "task_ok task" and "in_int interval" and "length name + length guid \<le> 205"
    and "ch_tab \<notin> set name" and "ch_tab \<notin> set guid"
  shows "split_on ch_tab (up_message name guid task interval)
      = [name, guid, ''up'', address_field task, show_int interval,
         if redis_tls task then ''tls'' else ''plain'']"
  unfolding up_fits(1) [OF assms(1-3)] up_text_fields
  using assms(4,5) address_no_tab(1) [OF assms(1)] status_no_tab by (intro split_join) auto

text \<open>
  C28. The datagrams say what they mean. With a service name of at most 169 characters (a UUID
  has 36) and no tab in it, neither message is cut, a reader that splits at tabs finds six
  fields in \<open>up\<close> and the first four of the same shape in \<open>down\<close>, the address splits at its
  colon, and port and interval read back as the numbers that were sent.
\<close>

theorem datagram_roundtrip:
  assumes "task_ok task" and "in_int interval" and "length name + length guid \<le> 205"
    and "ch_tab \<notin> set name" and "ch_tab \<notin> set guid"
  shows "split_on ch_tab (up_message name guid task interval)
      = [name, guid, ''up'', address_field task, show_int interval,
         if redis_tls task then ''tls'' else ''plain'']
    \<and> split_on ch_tab (down_message name guid task) = [name, guid, ''down'', address_field task]
    \<and> split_on CHR '':'' (address_field task) = [source_ip task, show_int (redis_port task)]
    \<and> parse_int (show_int (redis_port task)) = redis_port task
    \<and> parse_int (show_int interval) = interval"
proof -
  have "in_int (redis_port task)" using assms(1) by (simp add: task_ok_def)
  moreover note up_split [OF assms]
  moreover have "split_on ch_tab (down_message name guid task) = [name, guid, ''down'', address_field task]"
    unfolding up_fits(2) [OF assms(1-3)] down_text_fields
    using assms(4,5) address_no_tab(1) [OF assms(1)] status_no_tab by (intro split_join) auto
  moreover have "split_on CHR '':'' (address_field task) = [source_ip task, show_int (redis_port task)]"
    using address_no_tab(2) [OF assms(1)]
    by (simp add: address_field_def split_on_append split_on_field)
  ultimately show ?thesis using assms(2) by (simp add: parse_show)
qed

lemma take_one_more: "length xs = n \<Longrightarrow> take (Suc n) (xs @ ys) = xs @ take 1 ys"
  by simp

lemma show_int_two_digits: "10 \<le> n \<Longrightarrow> 1 < length (show_int n)"
proof -
  assume "10 \<le> n"
  then have "show_int n = dec_nat (nat n div 10) @ [digit_char (nat n mod 10)]"
    by (simp add: show_int_def dec_nat.simps [of "nat n"])
  then show ?thesis by (cases "dec_nat (nat n div 10)") auto
qed

text \<open>
  C36. A service name that is too long is not refused but cuts the datagram: where name, UUID and
  source address leave room for one character of the port, the \<open>down\<close> message is still
  well-formed, with the four fields of any other, but names a port that is only the first
  digit; and from 255 characters on \<open>up\<close> and \<open>down\<close> are the same text.
\<close>

theorem long_name_cuts_datagram:
  assumes "task_ok task" and "10 \<le> redis_port task"
    and "ch_tab \<notin> set name" and "ch_tab \<notin> set guid"
  shows "(length name + length guid + length (source_ip task) = 246 \<longrightarrow>
       split_on ch_tab (down_message name guid task)
         = [name, guid, ''down'', source_ip task @ '':'' @ take 1 (show_int (redis_port task))]
       \<and> take 1 (show_int (redis_port task)) \<noteq> show_int (redis_port task))
    \<and> (255 \<le> length name \<longrightarrow> up_message name guid task interval = down_message name guid task)"
proof -
  let ?p = "show_int (redis_port task)" and ?pre = "name @ [ch_tab] @ guid @ [ch_tab] @ ''down'' @ [ch_tab]"
  have down: "down_text name guid task = (?pre @ source_ip task @ '':'') @ ?p"
    by (simp add: down_text_def address_field_def)
  have "split_on ch_tab (down_message name guid task)
        = [name, guid, ''down'', source_ip task @ '':'' @ take 1 ?p] \<and> take 1 ?p \<noteq> ?p"
    if l: "length name + length guid + length (source_ip task) = 246"
  proof -
    have "length (?pre @ source_ip task @ '':'') = 254" using l by simp
    from take_one_more [OF this, of ?p]
    have "down_message name guid task = (?pre @ source_ip task @ '':'') @ take 1 ?p"
      unfolding down_message_def snprintf_def down by simp
    also have "\<dots> = join_on ch_tab [name, guid, ''down'', source_ip task @ '':'' @ take 1 ?p]" by simp
    finally have d: "down_message name guid task
        = join_on ch_tab [name, guid, ''down'', source_ip task @ '':'' @ take 1 ?p]" .
    have "ch_tab \<notin> set (take 1 ?p)" by (auto dest: in_set_takeD)
    then have "ch_tab \<notin> set (source_ip task @ '':'' @ take 1 ?p)"
      using address_no_tab(1) [OF assms(1)] by (simp add: address_field_def)
    then have "split_on ch_tab (down_message name guid task)
        = [name, guid, ''down'', source_ip task @ '':'' @ take 1 ?p]"
      unfolding d using assms(3,4) status_no_tab(2) by (intro split_join) auto
    moreover have "1 < length ?p" using show_int_two_digits [OF assms(2)] .
    then have "take 1 ?p \<noteq> ?p" by (metis length_take less_irrefl min_less_iff_conj)
    ultimately show ?thesis by blast
  qed
  moreover have "up_message name guid task interval = down_message name guid task"
    if "255 \<le> length name"
    using that by (simp add: up_message_def down_message_def snprintf_def up_text_def down_text_def)
  ultimately show ?thesis by blast
qed

definition demo_task :: BroadcastTask where
  "demo_task = \<lparr>source_ip = ''10.0.0.1'', redis_port = 6379, redis_tls = False\<rparr>"

lemma demo_task_ok: "task_ok demo_task"
proof -
  have "inet_pton ''10.0.0.1'' \<noteq> None" by code_simp
  then show ?thesis by (simp add: task_ok_def demo_task_def in_int_def)
qed

lemma demo_port: "show_int 6379 = ''6379''"
  by (simp add: show_int_def dec_nat.simps digit_char_def) code_simp

lemma datagram_roundtrip_witness:
  "split_on ch_tab (up_message ''imq-broker'' ''2cc7c345'' demo_task 1)
     = [''imq-broker'', ''2cc7c345'', ''up'', ''10.0.0.1:6379'', ''1'', ''plain'']"
proof -
  note demo_port
  moreover have "show_int 1 = ''1''"
    by (simp add: show_int_def dec_nat.simps digit_char_def) code_simp
  moreover have "ch_tab \<notin> set ''imq-broker''" "ch_tab \<notin> set ''2cc7c345''" by (simp_all add: ch_defs)
  moreover have "in_int 1" by (simp add: in_int_def)
  ultimately show ?thesis
    using datagram_roundtrip [OF demo_task_ok, of 1 "''imq-broker''" "''2cc7c345''"]
    by (simp add: address_field_def demo_task_def)
qed

lemma long_name_cuts_datagram_witness:
  "split_on ch_tab (down_message (replicate 202 CHR ''a'') (replicate 36 CHR ''0'') demo_task)
     = [replicate 202 CHR ''a'', replicate 36 CHR ''0'', ''down'', ''10.0.0.1:6'']"
proof -
  note demo_port
  moreover have "ch_tab \<notin> set (replicate 202 CHR ''a'')" "ch_tab \<notin> set (replicate 36 CHR ''0'')"
    by (simp_all add: ch_defs)
  ultimately show ?thesis
    using long_name_cuts_datagram [OF demo_task_ok, of "replicate 202 CHR ''a''" "replicate 36 CHR ''0''"]
    by (simp add: demo_task_def)
qed

text \<open>A Redis whose answers are the entries of an association list.\<close>

datatype demo_reply = Reply_text string | Reply_list "demo_reply list"

definition demo_config :: "(string \<times> string) list \<Rightarrow> demo_reply reply_api" where
  "demo_config entries = \<lparr>
     call_config_get = (\<lambda>name. Some (Reply_list (case map_of entries name of None \<Rightarrow> []
        | Some v \<Rightarrow> [Reply_text name, Reply_text v]))),
     reply_type = (\<lambda>r. case r of Reply_text _ \<Rightarrow> 0 | Reply_list _ \<Rightarrow> 3),
     reply_length = (\<lambda>r. case r of Reply_text s \<Rightarrow> length s | Reply_list rs \<Rightarrow> length rs),
     reply_element = (\<lambda>r i. case r of Reply_text _ \<Rightarrow> None
        | Reply_list rs \<Rightarrow> if i < length rs then Some (rs ! i) else None),
     reply_cstring = (\<lambda>r. case r of Reply_text s \<Rightarrow> s | Reply_list _ \<Rightarrow> [])\<rparr>"

lemma configuration_is_bounded_witness:
  "bind_ips (fst (load_redis_bind_ips (demo_config [(''bind'', ''127.0.0.1 10.0.0.1'')])))
       = [''127.0.0.1'', ''10.0.0.1'']
   \<and> length (bind_ips (fst (load_redis_bind_ips (demo_config [(''bind'', ''127.0.0.1 10.0.0.1'')])))) \<le> 16"
proof
  show "bind_ips (fst (load_redis_bind_ips (demo_config [(''bind'', ''127.0.0.1 10.0.0.1'')])))
       = [''127.0.0.1'', ''10.0.0.1'']" by code_simp
  show "length (bind_ips (fst (load_redis_bind_ips (demo_config [(''bind'', ''127.0.0.1 10.0.0.1'')])))) \<le> 16"
    using configuration_is_bounded [of "demo_config [(''bind'', ''127.0.0.1 10.0.0.1'')]"]
    by (auto split: prod.splits)
qed

text \<open>Both listeners are up and the environment asks for the TLS one.\<close>

lemma announced_port_witness:
  "\<exists>logs. resolve_announced_port (demo_config [(''port'', ''6379''), (''tls-port'', ''6380'')])
     (\<lambda>_. Some ''yes'') = (6380, True, logs)"
proof -
  let ?api = "demo_config [(''port'', ''6379''), (''tls-port'', ''6380'')]"
  have "fst (get_config_int ?api ''tls-port'' 0) = 6380" "fst (get_tls_preference (\<lambda>_. Some ''yes'')) = 1"
    by code_simp+
  then show ?thesis using announced_port [of ?api "\<lambda>_. Some ''yes''"]
    by (cases "resolve_announced_port ?api (\<lambda>_. Some ''yes'')") auto
qed

end
