(* ===== verification/Sender.thy ===== *)
theory Sender
  imports Announce Cache_Ownership
begin

text \<open>
  \<^verbatim>\<open>unicaster.c\<close>, the sender threads: \<open>send_unicast_message\<close> and the loop of
  \<open>unicast_thread\<close>. The outcomes of the socket calls are arguments; what the thread does to the
  outside is the list of its events. The pod cache is the one of theory \<open>Pod_Cache\<close>, which
  other threads may change between two rounds in any way that keeps it well-formed.
\<close>

section \<open>One datagram\<close>

text \<open>What \<open>socket\<close>, \<open>sendto\<close> and \<open>close\<close> return, and the \<open>errno\<close> each leaves.\<close>

record net_call =
  nc_socket :: int
  nc_socket_errno :: int
  nc_sent :: int
  nc_sent_errno :: int
  nc_close_errno :: int

datatype net_event = Opened int | Sent int in_addr "16 word" string | Closed int

definition EINVAL :: int where "EINVAL = 22"

text \<open>
  What the calls change: the descriptors that are open, \<open>errno\<close>, and the calls made so far.
  \<open>socket\<close> and \<open>sendto\<close> set \<open>errno\<close> when they fail; \<open>close\<close> may leave anything in it.
\<close>

record net_state =
  ns_open :: "int list"
  ns_errno :: int
  ns_events :: "net_event list"

definition sys_socket :: "net_call \<Rightarrow> net_state \<Rightarrow> int \<times> net_state" where
  "sys_socket nc s =
     (nc_socket nc,
      if nc_socket nc < 0 then s\<lparr>ns_errno := nc_socket_errno nc\<rparr>
      else s\<lparr>ns_open := nc_socket nc # ns_open s, ns_events := ns_events s @ [Opened (nc_socket nc)]\<rparr>)"

definition sys_sendto ::
  "net_call \<Rightarrow> int \<Rightarrow> in_addr \<Rightarrow> 16 word \<Rightarrow> string \<Rightarrow> net_state \<Rightarrow> int \<times> net_state" where
  "sys_sendto nc sock addr port message s =
     (nc_sent nc, s\<lparr>ns_errno := (if nc_sent nc < 0 then nc_sent_errno nc else ns_errno s),
                     ns_events := ns_events s @ [Sent sock addr port message]\<rparr>)"

definition sys_close :: "net_call \<Rightarrow> int \<Rightarrow> net_state \<Rightarrow> net_state" where
  "sys_close nc sock s =
     s\<lparr>ns_open := remove1 sock (ns_open s), ns_errno := nc_close_errno nc,
       ns_events := ns_events s @ [Closed sock]\<rparr>"

text \<open>\<open>NULL\<close> arguments are \<open>None\<close>; \<open>sin_port\<close> holds 16 bits.\<close>

definition send_unicast_message ::
  "net_call \<Rightarrow> string option \<Rightarrow> int \<Rightarrow> string option \<Rightarrow> net_state \<Rightarrow> int \<times> net_state" where
  "send_unicast_message nc ip port message s =
     (case (ip, message) of
        (Some ip, Some message) \<Rightarrow>
          (case inet_pton ip of
             None \<Rightarrow> (-1, s\<lparr>ns_errno := EINVAL\<rparr>)
           | Some sin_addr \<Rightarrow>
               (let (sock, s1) = sys_socket nc s
                in if sock < 0 then (-1, s1)
                   else (let (sent, s2) = sys_sendto nc sock sin_addr (word_of_int port) message s1;
                             send_errno = ns_errno s2;
                             s3 = sys_close nc sock s2
                         in if sent < 0 then (-1, s3\<lparr>ns_errno := send_errno\<rparr>) else (0, s3))))
      | _ \<Rightarrow> (-1, s\<lparr>ns_errno := EINVAL\<rparr>))"

lemmas send_defs = send_unicast_message_def sys_socket_def sys_sendto_def sys_close_def

text \<open>The datagrams handed to the kernel.\<close>

fun handed_over :: "net_event list \<Rightarrow> (in_addr \<times> 16 word \<times> string) list" where
  "handed_over [] = []"
| "handed_over (Sent sock addr port message # es) = (addr, port, message) # handed_over es"
| "handed_over (_ # es) = handed_over es"

text \<open>The address the arguments name, when they are good.\<close>

definition destination :: "string option \<Rightarrow> string option \<Rightarrow> in_addr option" where
  "destination ip message = (if message = None then None else Option.bind ip inet_pton)"

text \<open>
  C35. Sending one datagram, on every path, \<open>NULL\<close> arguments and texts that are no address included:
  every socket that was opened is closed again and no other, the result is 0 exactly when the
  arguments are good and both calls succeed and -1 otherwise, and then \<open>errno\<close> is \<open>EINVAL\<close> for bad
  arguments and else that of the call that failed, although \<open>close\<close> may have overwritten it. At
  most one datagram is handed to the kernel: the message, for the address and the port that were
  meant, and that unless the arguments are bad or no socket could be opened.
\<close>

theorem send_closes_its_socket:
  assumes "send_unicast_message nc ip port message s = (r, s')"
  shows "ns_open s' = ns_open s
     \<and> r = (if destination ip message \<noteq> None \<and> 0 \<le> nc_socket nc \<and> 0 \<le> nc_sent nc then 0 else -1)
     \<and> (r = -1 \<longrightarrow> ns_errno s' = (if destination ip message = None then EINVAL
           else if nc_socket nc < 0 then nc_socket_errno nc else nc_sent_errno nc))
     \<and> (\<exists>es. ns_events s' = ns_events s @ es
          \<and> (if destination ip message \<noteq> None \<and> 0 \<le> nc_socket nc
             then \<exists>p. uint p = port mod 65536
                    \<and> handed_over es = [(the (destination ip message), p, the message)]
             else es = []))"
proof -
  have "uint (word_of_int port :: 16 word) = port mod 65536" by (simp add: uint_word_of_int)
  then show ?thesis using assms
    by (auto simp: send_defs destination_def Let_def split: option.splits if_splits prod.splits)
qed

definition demo_call :: net_call where
  "demo_call = \<lparr>nc_socket = 7, nc_socket_errno = 0, nc_sent = -1, nc_sent_errno = 113, nc_close_errno = 9\<rparr>"

text \<open>What a call finds that has nothing open, and what it leaves.\<close>

definition no_sockets :: net_state where
  "no_sockets = \<lparr>ns_open = [], ns_errno = 0, ns_events = []\<rparr>"

lemma send_closes_its_socket_witness:
  "\<exists>s'. send_unicast_message demo_call (Some ''10.0.0.7'') 63000 (Some ''m'') no_sockets = (-1, s')
     \<and> ns_open s' = [] \<and> ns_errno s' = 113
     \<and> (\<exists>p. uint p = 63000 \<and> handed_over (ns_events s') = [(In_addr 10 0 0 7, p, ''m'')])"
proof -
  have "inet_pton ''10.0.0.7'' = Some (In_addr 10 0 0 7)" by code_simp
  then have d: "destination (Some ''10.0.0.7'') (Some ''m'') = Some (In_addr 10 0 0 7)"
    by (simp add: destination_def)
  obtain r s' where "send_unicast_message demo_call (Some ''10.0.0.7'') 63000 (Some ''m'') no_sockets = (r, s')"
    by fastforce
  with send_closes_its_socket [OF this] d show ?thesis
    by (auto simp: demo_call_def no_sockets_def)
qed

section \<open>The thread\<close>

text \<open>What the thread reads once: its task, the settings and the module's statics.\<close>

record sender =
  se_name :: string
  se_guid :: string
  se_task :: BroadcastTask
  se_interval :: int
  se_port :: int
  se_logging :: bool
  se_strerror :: "int \<Rightarrow> string"

text \<open>
  What a round finds: the closing flag, what other threads did to the cache before it, the clock at
  \<open>pod_cache_acquire\<close>, and the outcome of the socket calls for each pod.
\<close>

record sender_round =
  sr_closing :: bool
  sr_before :: "cache \<Rightarrow> cache"
  sr_now :: int
  sr_calls :: "nat \<Rightarrow> net_call"

datatype sender_event =
    Net net_event
  | Sent_log log_line | Failing_log log_line | Recovered_log log_line
  | Slept int | Task_freed

definition unicast_log :: "sender \<Rightarrow> string \<Rightarrow> string \<Rightarrow> log_line" where
  "unicast_log se ip message = (Log_notice, se_name se @ '': UDP unicast from '' @ source_ip (se_task se)
     @ '' to '' @ ip @ '':'' @ show_int (se_port se) @ '': '' @ message)"

definition failing_log :: "sender \<Rightarrow> nat \<Rightarrow> nat \<Rightarrow> string \<Rightarrow> int \<Rightarrow> log_line" where
  "failing_log se failed n ip errno = (Log_warning, se_name se @ '': '' @ show_int (int failed) @ '' of ''
     @ show_int (int n) @ '' announcements from '' @ source_ip (se_task se) @ '' failed, e.g. to ''
     @ ip @ '':'' @ show_int (se_port se) @ '': '' @ se_strerror se errno)"

definition recovered_log :: "sender \<Rightarrow> log_line" where
  "recovered_log se = (Log_notice, se_name se @ '': announcements from '' @ source_ip (se_task se)
     @ '' are delivered again'')"

text \<open>The variables the loop over the pods keeps: \<open>failed\<close>, \<open>last_errno\<close>, \<open>last_failed_ip\<close>.\<close>

type_synonym send_result = "nat \<times> int \<times> string option"

definition send_one ::
  "sender \<Rightarrow> string \<Rightarrow> net_call \<Rightarrow> string \<Rightarrow> send_result \<Rightarrow> sender_event list \<times> send_result" where
  "send_one se message nc ip r =
     (case r of (failed, last_errno, last_failed_ip) \<Rightarrow>
        case send_unicast_message nc (Some ip) (se_port se) (Some message) no_sockets of (result, s) \<Rightarrow>
          if result < 0 then (map Net (ns_events s), (failed + 1, ns_errno s, Some ip))
          else (map Net (ns_events s)
                  @ (if se_logging se then [Sent_log (unicast_log se ip message)] else []),
                (failed, last_errno, last_failed_ip)))"

fun send_loop ::
  "sender \<Rightarrow> string \<Rightarrow> (nat \<Rightarrow> net_call) \<Rightarrow> nat \<Rightarrow> string list \<Rightarrow> send_result
     \<Rightarrow> sender_event list \<times> send_result" where
  "send_loop se message calls i [] r = ([], r)"
| "send_loop se message calls i (ip # ips) r =
     (let (events, r1) = send_one se message (calls i) ip r;
          (events', r2) = send_loop se message calls (i + 1) ips r1
      in (events @ events', r2))"

text \<open>The two log lines after the loop; the first reads through \<open>snapshot\<close> and \<open>last_failed_ip\<close>.\<close>

definition result_log ::
  "sender \<Rightarrow> PodList option \<Rightarrow> bool \<Rightarrow> send_result \<Rightarrow> sender_event list option" where
  "result_log se pods was_failing r =
     (case r of (failed, last_errno, last_failed_ip) \<Rightarrow>
        if failed \<noteq> 0 \<and> \<not> was_failing
        then (case (pods, last_failed_ip) of
                (Some l, Some ip) \<Rightarrow> Some [Failing_log (failing_log se failed (pl_count l) ip last_errno)]
              | _ \<Rightarrow> None)
        else if failed = 0 \<and> was_failing \<and> pods \<noteq> None
        then Some [Recovered_log (recovered_log se)]
        else Some [])"

text \<open>Which of the two texts a round sends: \<open>closing ? down_message : up_message\<close>.\<close>

datatype message_kind = Up | Down

definition chosen_message :: "bool \<Rightarrow> message_kind" where
  "chosen_message is_last = (if is_last then Down else Up)"

definition round_message :: "sender \<Rightarrow> bool \<Rightarrow> string" where
  "round_message se is_last =
     (case chosen_message is_last of
        Down \<Rightarrow> down_message (se_name se) (se_guid se) (se_task se)
      | Up \<Rightarrow> up_message (se_name se) (se_guid se) (se_task se) (se_interval se))"

lemma round_message_text:
  "round_message se is_last =
     (if is_last then down_message (se_name se) (se_guid se) (se_task se)
      else up_message (se_name se) (se_guid se) (se_task se) (se_interval se))"
  by (simp add: round_message_def chosen_message_def)

text \<open>One iteration: whether the loop goes on, its events, \<open>was_failing\<close> and the cache.\<close>

definition unicast_round ::
  "sender \<Rightarrow> sender_round \<Rightarrow> bool \<Rightarrow> cache \<Rightarrow> (bool \<times> sender_event list \<times> bool \<times> cache) option" where
  "unicast_round se sr was_failing c =
     (let message = round_message se (sr_closing sr)
      in do {
        (snapshot, c1) \<leftarrow> pod_cache_acquire (sr_now sr) (sr_before sr c);
        pods \<leftarrow> (case snapshot of
                   None \<Rightarrow> Some None
                 | Some p \<Rightarrow> map_option Some (pods_of c1 p));
        let (sends, r) = send_loop se message (sr_calls sr) 0
                           (case pods of None \<Rightarrow> [] | Some l \<Rightarrow> pod_ips l) (0, 0, None);
        logs \<leftarrow> result_log se pods was_failing r;
        let was_failing' = (if pods \<noteq> None then fst r > 0 else was_failing);
        c2 \<leftarrow> pod_cache_release snapshot c1;
        Some (\<not> sr_closing sr,
              sends @ logs @ (if sr_closing sr then [Task_freed] else [Slept (se_interval se)]),
              was_failing', c2)
      })"

fun unicast_thread ::
  "sender \<Rightarrow> sender_round list \<Rightarrow> bool \<Rightarrow> cache \<Rightarrow> (bool \<times> sender_event list \<times> bool \<times> cache) option" where
  "unicast_thread se [] was_failing c = Some (False, [], was_failing, c)"
| "unicast_thread se (sr # srs) was_failing c =
     do {
       (go_on, events, was_failing1, c1) \<leftarrow> unicast_round se sr was_failing c;
       if go_on
       then map_option (\<lambda>(left, events', f, c2). (left, events @ events', f, c2))
              (unicast_thread se srs was_failing1 c1)
       else Some (True, events, was_failing1, c1)
     }"

section \<open>What one pass over the pods sends\<close>

fun datagrams :: "sender_event list \<Rightarrow> (in_addr \<times> 16 word \<times> string) list" where
  "datagrams [] = []"
| "datagrams (Net (Sent sock addr port message) # es) = (addr, port, message) # datagrams es"
| "datagrams (_ # es) = datagrams es"

lemma datagrams_append [simp]: "datagrams (xs @ ys) = datagrams xs @ datagrams ys"
  by (induction xs rule: datagrams.induct) auto

lemma datagrams_logs [simp]: "result_log se pods f r = Some logs \<Longrightarrow> datagrams logs = []"
  by (auto simp: result_log_def split: prod.splits if_splits option.splits)

text \<open>One datagram for each pod a socket could be opened for.\<close>

definition round_datagrams ::
  "sender \<Rightarrow> string \<Rightarrow> (nat \<Rightarrow> net_call) \<Rightarrow> nat \<Rightarrow> string list \<Rightarrow> (in_addr \<times> 16 word \<times> string) list" where
  "round_datagrams se message calls n ips =
     List.map_filter (\<lambda>(i, ip). if nc_socket (calls i) < 0 then None
                            else Some (the (inet_pton ip), word_of_int (se_port se), message))
       (enumerate n ips)"

lemma round_datagrams_Cons:
  "round_datagrams se message calls n (ip # ips) =
     (if nc_socket (calls n) < 0 then [] else [(the (inet_pton ip), word_of_int (se_port se), message)])
     @ round_datagrams se message calls (Suc n) ips"
  by (simp add: round_datagrams_def map_filter_simps)

lemma send_loop_Cons:
  "fst (send_loop se message calls i (ip # ips) r) = fst (send_one se message (calls i) ip r)
     @ fst (send_loop se message calls (Suc i) ips (snd (send_one se message (calls i) ip r)))"
  "snd (send_loop se message calls i (ip # ips) r)
     = snd (send_loop se message calls (Suc i) ips (snd (send_one se message (calls i) ip r)))"
  by (simp_all add: Let_def split: prod.split)

lemma send_one_datagrams:
  "inet_pton ip \<noteq> None \<Longrightarrow> datagrams (fst (send_one se message nc ip r)) =
     (if nc_socket nc < 0 then [] else [(the (inet_pton ip), word_of_int (se_port se), message)])"
  by (cases r; cases "nc_socket nc < 0"; cases "nc_sent nc < 0")
     (auto simp: send_one_def send_defs no_sockets_def Let_def)

lemma send_loop_datagrams:
  "list_all (\<lambda>ip. inet_pton ip \<noteq> None) ips \<Longrightarrow>
     datagrams (fst (send_loop se message calls n ips r)) = round_datagrams se message calls n ips"
proof (induction ips arbitrary: n r)
  case Nil
  then show ?case by (simp add: round_datagrams_def map_filter_def)
next
  case (Cons ip ips)
  then show ?case
    by (simp add: send_loop_Cons send_one_datagrams round_datagrams_Cons del: send_loop.simps)
qed

text \<open>How many of them failed, and that a failure leaves the address it was for.\<close>

definition send_failed :: "sender \<Rightarrow> string \<Rightarrow> net_call \<Rightarrow> string \<Rightarrow> bool" where
  "send_failed se message nc ip \<longleftrightarrow>
     fst (send_unicast_message nc (Some ip) (se_port se) (Some message) no_sockets) < 0"

definition sends_failed :: "sender \<Rightarrow> string \<Rightarrow> (nat \<Rightarrow> net_call) \<Rightarrow> nat \<Rightarrow> string list \<Rightarrow> nat" where
  "sends_failed se message calls n ips =
     length (filter (\<lambda>(i, ip). send_failed se message (calls i) ip) (enumerate n ips))"

definition failure_named :: "send_result \<Rightarrow> bool" where
  "failure_named r \<longleftrightarrow> fst r = 0 \<or> snd (snd r) \<noteq> None"

lemma send_one_result:
  "fst (snd (send_one se message nc ip r))
     = fst r + (if send_failed se message nc ip then 1 else 0)"
  "failure_named r \<Longrightarrow> failure_named (snd (send_one se message nc ip r))"
  by (auto simp: send_one_def send_failed_def failure_named_def split: prod.splits option.splits)

lemma send_loop_result:
  "fst (snd (send_loop se message calls n ips r)) = fst r + sends_failed se message calls n ips"
  "failure_named r \<Longrightarrow> failure_named (snd (send_loop se message calls n ips r))"
proof (induction ips arbitrary: n r)
  case Nil
  {
    case 1
    then show ?case by (simp add: sends_failed_def)
  next
    case 2
    then show ?case by simp
  }
next
  case (Cons ip ips)
  {
    case 1
    then show ?case
      by (simp add: send_loop_Cons Cons.IH send_one_result sends_failed_def del: send_loop.simps)
  next
    case 2
    then show ?case by (simp add: send_loop_Cons Cons.IH send_one_result del: send_loop.simps)
  }
qed

text \<open>Only the result line reports on failure.\<close>

fun status_logs :: "sender_event list \<Rightarrow> bool list" where
  "status_logs [] = []"
| "status_logs (Failing_log l # es) = True # status_logs es"
| "status_logs (Recovered_log l # es) = False # status_logs es"
| "status_logs (_ # es) = status_logs es"

lemma status_logs_append [simp]: "status_logs (xs @ ys) = status_logs xs @ status_logs ys"
  by (induction xs rule: status_logs.induct) auto

lemma status_logs_net [simp]: "status_logs (map Net es) = []"
  by (induction es) auto

lemma send_loop_status: "status_logs (fst (send_loop se message calls n ips r)) = []"
proof (induction ips arbitrary: n r)
  case (Cons ip ips)
  have "status_logs (fst (send_one se message (calls n) ip r)) = []"
    by (simp add: send_one_def split: prod.split option.split)
  with Cons show ?case by (simp add: send_loop_Cons del: send_loop.simps)
qed simp

lemma send_loop_no_free: "Task_freed \<notin> set (fst (send_loop se message calls n ips r))"
proof (induction ips arbitrary: n r)
  case (Cons ip ips)
  have "Task_freed \<notin> set (fst (send_one se message (calls n) ip r))"
    by (auto simp: send_one_def split: prod.split option.split)
  with Cons show ?case by (simp add: send_loop_Cons del: send_loop.simps)
qed simp

section \<open>One round\<close>

text \<open>The list a reader of the cache sees.\<close>

definition visible_list :: "int \<Rightarrow> cache \<Rightarrow> PodList option" where
  "visible_list now c =
     (case cache_view c of
        None \<Rightarrow> None
      | Some (l, at) \<Rightarrow> if 0 < max_age c \<and> max_age c < now - at then None else Some l)"

lemma acquire_visible:
  assumes "cache_inv held {} loose c"
  shows "\<exists>snapshot c1. pod_cache_acquire now c = Some (snapshot, c1)
     \<and> (case snapshot of
          None \<Rightarrow> visible_list now c = None \<and> c1 = c
        | Some p \<Rightarrow> pods_of c1 p = visible_list now c
            \<and> (\<exists>l. visible_list now c = Some l \<and> good_list l)
            \<and> cache_inv (held(p := Suc (held p))) {} loose c1 \<and> cache_view c1 = cache_view c)"
proof -
  have "c1 = c" if "pod_cache_acquire now c = Some (None, c1)" for c1
    using that by (auto simp: pod_cache_acquire_def split: option.splits if_splits)
  with acquire_value [OF assms, of now] show ?thesis
    by (fastforce simp: visible_list_def split: option.splits if_splits prod.splits)
qed

lemma good_list_addresses: "good_list l \<Longrightarrow> list_all (\<lambda>ip. inet_pton ip \<noteq> None) (pod_ips l)"
  by (simp add: good_list_def pod_list_ok_def)

definition pass ::
  "sender \<Rightarrow> sender_round \<Rightarrow> PodList option \<Rightarrow> sender_event list \<times> send_result" where
  "pass se sr pods = send_loop se (round_message se (sr_closing sr)) (sr_calls sr) 0
     (case pods of None \<Rightarrow> [] | Some l \<Rightarrow> pod_ips l) (0, 0, None)"

definition round_failures :: "sender \<Rightarrow> sender_round \<Rightarrow> PodList option \<Rightarrow> nat" where
  "round_failures se sr pods = sends_failed se (round_message se (sr_closing sr)) (sr_calls sr) 0
     (case pods of None \<Rightarrow> [] | Some l \<Rightarrow> pod_ips l)"

text \<open>The result line never reads through \<open>NULL\<close>, and what it says.\<close>

lemma result_log_value:
  "\<exists>logs. result_log se pods f (snd (pass se sr pods)) = Some logs
     \<and> status_logs logs = (if round_failures se sr pods \<noteq> 0 \<and> \<not> f then [True]
         else if round_failures se sr pods = 0 \<and> f \<and> pods \<noteq> None then [False] else [])"
proof -
  let ?r = "snd (pass se sr pods)"
  have n: "fst ?r = round_failures se sr pods"
    by (simp add: pass_def round_failures_def send_loop_result)
  have named: "failure_named ?r"
    unfolding pass_def by (rule send_loop_result) (simp add: failure_named_def)
  have "round_failures se sr None = 0" by (simp add: round_failures_def sends_failed_def)
  with n named show ?thesis
    by (cases ?r; cases pods) (auto simp: result_log_def failure_named_def split: option.splits)
qed

lemma unicast_round_value:
  assumes inv: "cache_inv held {} loose (sr_before sr c)"
  defines "pods \<equiv> visible_list (sr_now sr) (sr_before sr c)"
  shows "\<exists>events logs c'. unicast_round se sr f c
        = Some (\<not> sr_closing sr, events,
                if pods \<noteq> None then round_failures se sr pods > 0 else f, c')
     \<and> events = fst (pass se sr pods) @ logs
         @ (if sr_closing sr then [Task_freed] else [Slept (se_interval se)])
     \<and> result_log se pods f (snd (pass se sr pods)) = Some logs
     \<and> (\<exists>loose. cache_inv held {} loose c') \<and> cache_view c' = cache_view (sr_before sr c)"
proof -
  let ?c = "sr_before sr c"
  have n: "fst (snd (pass se sr pods)) = round_failures se sr pods"
    by (simp add: pass_def round_failures_def send_loop_result)
  obtain logs where l: "result_log se pods f (snd (pass se sr pods)) = Some logs"
    using result_log_value by blast
  from acquire_visible [OF inv, of "sr_now sr"] obtain snapshot c1 where
    a: "pod_cache_acquire (sr_now sr) ?c = Some (snapshot, c1)"
      "case snapshot of None \<Rightarrow> pods = None \<and> c1 = ?c
       | Some p \<Rightarrow> pods_of c1 p = pods \<and> (\<exists>l. pods = Some l \<and> good_list l)
            \<and> cache_inv (held(p := Suc (held p))) {} loose c1 \<and> cache_view c1 = cache_view ?c"
    unfolding pods_def by blast
  show ?thesis
  proof (cases snapshot)
    case None
    with a l n inv show ?thesis
      by (auto simp: unicast_round_def pass_def pod_cache_release_def Let_def split: prod.splits)
  next
    case (Some p)
    with a obtain pl where p: "pods = Some pl" "pods_of c1 p = Some pl"
      "cache_inv (held(p := Suc (held p))) {} loose c1" "cache_view c1 = cache_view ?c" by auto
    from cache_source.release_law [of "held(p := Suc (held p))" c1 p] p(3) obtain c2 where
      c2: "pod_cache_release (Some p) c1 = Some c2" "\<exists>loose. cache_inv held {} loose c2"
        "cache_view c2 = cache_view c1" by auto
    with a(1) Some l n p show ?thesis
      by (auto simp: unicast_round_def pass_def Let_def split: prod.splits)
  qed
qed

lemma pass_events:
  assumes "pods = visible_list now c" and "cache_inv held {} loose c"
  shows "datagrams (fst (pass se sr pods)) = (case pods of None \<Rightarrow> []
      | Some l \<Rightarrow> round_datagrams se (round_message se (sr_closing sr)) (sr_calls sr) 0 (pod_ips l))"
    and "status_logs (fst (pass se sr pods)) = []"
proof -
  have "pods = None \<or> (\<exists>l. pods = Some l \<and> good_list l)"
    using acquire_visible [OF assms(2), of now] assms(1) by (auto split: option.splits)
  then show "datagrams (fst (pass se sr pods)) = (case pods of None \<Rightarrow> []
      | Some l \<Rightarrow> round_datagrams se (round_message se (sr_closing sr)) (sr_calls sr) 0 (pod_ips l))"
    by (auto simp: pass_def send_loop_datagrams [OF good_list_addresses])
  show "status_logs (fst (pass se sr pods)) = []" by (simp add: pass_def send_loop_status)
qed

text \<open>
  C15. A round announces to the pods the cache stands for: it never faults - the result line is
  not formatted through a NULL list -; it hands one datagram to the kernel for every address of the
  last published list for which a socket can be opened, in order and to no other, with the \<open>down\<close>
  text when the round finds the module closing and the \<open>up\<close> text otherwise, and none when there is
  no list or it has expired; it gives back the reference it took and leaves the cache standing
  for the same list.
\<close>

theorem round_announces_to_last_list:
  assumes "cache_inv held {} loose (sr_before sr c)"
  shows "\<exists>events f' c'. unicast_round se sr f c = Some (\<not> sr_closing sr, events, f', c')
     \<and> datagrams events = (case visible_list (sr_now sr) (sr_before sr c) of None \<Rightarrow> []
          | Some l \<Rightarrow> round_datagrams se
              (if sr_closing sr then down_message (se_name se) (se_guid se) (se_task se)
               else up_message (se_name se) (se_guid se) (se_task se) (se_interval se))
              (sr_calls sr) 0 (pod_ips l))
     \<and> (\<exists>loose. cache_inv held {} loose c') \<and> cache_view c' = cache_view (sr_before sr c)"
  using unicast_round_value [of held loose sr c se f, OF assms] pass_events(1) [OF refl assms]
  unfolding round_message_text [symmetric]
  by (fastforce split: option.splits)

section \<open>The whole thread\<close>

definition well_formed :: "cache \<Rightarrow> bool" where
  "well_formed c \<longleftrightarrow> (\<exists>held loose. cache_inv held {} loose c)"

text \<open>Other threads keep the cache well-formed.\<close>

definition polite :: "sender_round \<Rightarrow> bool" where
  "polite sr \<longleftrightarrow> (\<forall>c. well_formed c \<longrightarrow> well_formed (sr_before sr c))"

fun alternates :: "bool \<Rightarrow> bool list \<Rightarrow> bool" where
  "alternates b [] = True"
| "alternates b (x # xs) = (x = b \<and> alternates (\<not> b) xs)"

text \<open>What a sender says in a round in which the module is not closing.\<close>

definition up_of :: "sender \<Rightarrow> string" where "up_of se = round_message se False"

definition carries :: "string \<Rightarrow> (in_addr \<times> 16 word \<times> string) list \<Rightarrow> bool" where
  "carries message ds \<longleftrightarrow> (\<forall>d\<in>set ds. snd (snd d) = message)"

lemma round_datagrams_carry: "carries message (round_datagrams se message calls n ips)"
  by (induction ips arbitrary: n)
     (auto simp: round_datagrams_Cons carries_def, simp add: round_datagrams_def map_filter_def)

text \<open>What each round contributes.\<close>

lemma unicast_round_step:
  assumes "well_formed c" and "polite sr"
  shows "\<exists>events f' c'. unicast_round se sr f c = Some (\<not> sr_closing sr, events, f', c')
     \<and> well_formed c' \<and> datagrams events = (case visible_list (sr_now sr) (sr_before sr c) of None \<Rightarrow> []
          | Some l \<Rightarrow> round_datagrams se (round_message se (sr_closing sr)) (sr_calls sr) 0 (pod_ips l))
     \<and> (\<exists>es. events = es @ (if sr_closing sr then [Task_freed] else [Slept (se_interval se)])
          \<and> Task_freed \<notin> set es)
     \<and> (status_logs events = [] \<and> f' = f \<or> status_logs events = [\<not> f] \<and> f' = (\<not> f))"
proof -
  from assms obtain held loose where inv: "cache_inv held {} loose (sr_before sr c)"
    unfolding polite_def well_formed_def by blast
  let ?pods = "visible_list (sr_now sr) (sr_before sr c)"
  from unicast_round_value [of held loose sr c se f, OF inv] obtain events logs c' where
    u: "unicast_round se sr f c = Some (\<not> sr_closing sr, events,
          if ?pods \<noteq> None then round_failures se sr ?pods > 0 else f, c')"
      "events = fst (pass se sr ?pods) @ logs
         @ (if sr_closing sr then [Task_freed] else [Slept (se_interval se)])"
      "result_log se ?pods f (snd (pass se sr ?pods)) = Some logs"
      "\<exists>loose. cache_inv held {} loose c'" by blast
  have "round_failures se sr None = 0" by (simp add: round_failures_def sends_failed_def)
  with u(3) result_log_value [of se ?pods f sr]
  have st: "status_logs logs = [] \<and> (if ?pods \<noteq> None then round_failures se sr ?pods > 0 else f) = f
      \<or> status_logs logs = [\<not> f] \<and> (if ?pods \<noteq> None then round_failures se sr ?pods > 0 else f) = (\<not> f)"
    by (cases f; cases ?pods) auto
  have "Task_freed \<notin> set logs" using u(3)
    by (auto simp: result_log_def split: prod.splits if_splits option.splits)
  moreover have "Task_freed \<notin> set (fst (pass se sr ?pods))"
    unfolding pass_def by (rule send_loop_no_free)
  ultimately have tail: "\<exists>es. events = es @ (if sr_closing sr then [Task_freed] else [Slept (se_interval se)])
      \<and> Task_freed \<notin> set es"
    by (intro exI [of _ "fst (pass se sr ?pods) @ logs"]) (simp add: u(2))
  have carried: "datagrams events = (case ?pods of None \<Rightarrow> []
      | Some l \<Rightarrow> round_datagrams se (round_message se (sr_closing sr)) (sr_calls sr) 0 (pod_ips l))"
    using pass_events(1) [OF refl inv, of se sr "sr_now sr"] datagrams_logs [OF u(3)]
    by (simp add: u(2))
  have "status_logs events = status_logs logs"
    using pass_events(2) [OF refl inv] by (simp add: u(2))
  with st obtain f' where f': "f' = (if ?pods \<noteq> None then round_failures se sr ?pods > 0 else f)"
    "status_logs events = [] \<and> f' = f \<or> status_logs events = [\<not> f] \<and> f' = (\<not> f)" by metis
  have "unicast_round se sr f c = Some (\<not> sr_closing sr, events, f', c')" using u(1) f'(1) by simp
  moreover have "well_formed c'" using u(4) by (auto simp: well_formed_def)
  ultimately show ?thesis using carried tail f'(2) by blast
qed

lemma carried_by_round:
  "datagrams events = (case pods of None \<Rightarrow> [] | Some l \<Rightarrow> round_datagrams se message calls n (pod_ips l))
     \<Longrightarrow> carries message (datagrams events)"
  by (cases pods) (simp_all add: round_datagrams_carry carries_def [of _ "[]"])

text \<open>
  What a sender does over the rounds: \<open>up\<close> in those before it finds the module closing, then the
  \<open>down\<close> text to the list visible in that round, then \<open>free(task)\<close>.
\<close>

definition up_then_down :: "sender \<Rightarrow> sender_round list \<Rightarrow> bool \<Rightarrow> cache \<Rightarrow> sender_event list \<Rightarrow> bool" where
  "up_then_down se srs f c events \<longleftrightarrow>
     (case dropWhile (\<lambda>sr. \<not> sr_closing sr) srs of
        [] \<Rightarrow> carries (round_message se False) (datagrams events) \<and> Task_freed \<notin> set events
      | sr # _ \<Rightarrow> (\<exists>ups f1 c1 downs.
          unicast_thread se (takeWhile (\<lambda>sr. \<not> sr_closing sr) srs) f c = Some (False, ups, f1, c1)
          \<and> events = ups @ downs @ [Task_freed] \<and> Task_freed \<notin> set (ups @ downs)
          \<and> carries (round_message se False) (datagrams ups)
          \<and> datagrams downs = (case visible_list (sr_now sr) (sr_before sr c1) of None \<Rightarrow> []
               | Some l \<Rightarrow> round_datagrams se (round_message se True) (sr_calls sr) 0 (pod_ips l))))"

lemma unicast_thread_run:
  assumes "well_formed c" and "list_all polite srs"
  shows "\<exists>events f' c'. unicast_thread se srs f c = Some (list_ex sr_closing srs, events, f', c')
     \<and> well_formed c' \<and> up_then_down se srs f c events \<and> alternates (\<not> f) (status_logs events)"
  using assms
proof (induction srs arbitrary: f c)
  case Nil
  then show ?case by (auto simp: carries_def up_then_down_def)
next
  case (Cons sr srs)
  then have "polite sr" by simp
  from unicast_round_step [OF Cons.prems(1) this, of se f] obtain events f' c' es where
    r: "unicast_round se sr f c = Some (\<not> sr_closing sr, events, f', c')" "well_formed c'"
      "datagrams events = (case visible_list (sr_now sr) (sr_before sr c) of None \<Rightarrow> []
          | Some l \<Rightarrow> round_datagrams se (round_message se (sr_closing sr)) (sr_calls sr) 0 (pod_ips l))"
      "events = es @ (if sr_closing sr then [Task_freed] else [Slept (se_interval se)])"
      "Task_freed \<notin> set es"
      "status_logs events = [] \<and> f' = f \<or> status_logs events = [\<not> f] \<and> f' = (\<not> f)" by blast
  show ?case
  proof (cases "sr_closing sr")
    case True
    have "alternates (\<not> f) (status_logs events)" using r(6) by auto
    moreover have "datagrams es = (case visible_list (sr_now sr) (sr_before sr c) of None \<Rightarrow> []
        | Some l \<Rightarrow> round_datagrams se (round_message se True) (sr_calls sr) 0 (pod_ips l))"
      using r(3,4) True by (cases "visible_list (sr_now sr) (sr_before sr c)") simp_all
    then have "up_then_down se (sr # srs) f c events" using r(4,5) True
      by (simp add: up_then_down_def carries_def)
    ultimately show ?thesis using r(1,2) True by simp
  next
    case False
    from Cons.prems(2) have "list_all polite srs" by simp
    from Cons.IH [OF r(2) this, of f'] obtain events' f2 c2 where
      i: "unicast_thread se srs f' c' = Some (list_ex sr_closing srs, events', f2, c2)" "well_formed c2"
        "up_then_down se srs f' c' events'" "alternates (\<not> f') (status_logs events')" by blast
    have ups: "carries (round_message se False) (datagrams events)"
      using carried_by_round [OF r(3)] False by simp
    have free: "Task_freed \<notin> set events" using r(4,5) False by simp
    have "up_then_down se (sr # srs) f c (events @ events')"
    proof (cases "dropWhile (\<lambda>sr. \<not> sr_closing sr) srs")
      case Nil
      with i(3) have "carries (round_message se False) (datagrams events')" "Task_freed \<notin> set events'"
        by (simp_all only: up_then_down_def list.case simp_thms)
      then have "carries (round_message se False) (datagrams (events @ events'))
          \<and> Task_freed \<notin> set (events @ events')" using ups free by (auto simp: carries_def)
      moreover have "dropWhile (\<lambda>sr. \<not> sr_closing sr) (sr # srs) = []" using Nil False by simp
      ultimately show ?thesis by (simp only: up_then_down_def list.case simp_thms)
    next
      case (Cons sr' rest)
      with i(3) obtain ups' f1 c1 downs where
        d: "unicast_thread se (takeWhile (\<lambda>sr. \<not> sr_closing sr) srs) f' c' = Some (False, ups', f1, c1)"
          "events' = ups' @ downs @ [Task_freed]" "Task_freed \<notin> set (ups' @ downs)"
          "carries (round_message se False) (datagrams ups')"
          "datagrams downs = (case visible_list (sr_now sr') (sr_before sr' c1) of None \<Rightarrow> []
             | Some l \<Rightarrow> round_datagrams se (round_message se True) (sr_calls sr') 0 (pod_ips l))"
        by (auto simp: up_then_down_def)
      have "carries (round_message se False) (datagrams (events @ ups'))"
        using ups d(4) by (auto simp: carries_def)
      then have "\<exists>ups f1 c1 downs.
          unicast_thread se (takeWhile (\<lambda>sr. \<not> sr_closing sr) (sr # srs)) f c = Some (False, ups, f1, c1)
          \<and> events @ events' = ups @ downs @ [Task_freed] \<and> Task_freed \<notin> set (ups @ downs)
          \<and> carries (round_message se False) (datagrams ups)
          \<and> datagrams downs = (case visible_list (sr_now sr') (sr_before sr' c1) of None \<Rightarrow> []
             | Some l \<Rightarrow> round_datagrams se (round_message se True) (sr_calls sr') 0 (pod_ips l))"
        using r(1) d(1-3,5) False free
        by (intro exI [of _ "events @ ups'"] exI [of _ f1] exI [of _ c1] exI [of _ downs]) simp
      with Cons False show ?thesis by (simp add: up_then_down_def)
    qed
    moreover have "alternates (\<not> f) (status_logs (events @ events'))" using r(6) i(4) by auto
    ultimately show ?thesis using r(1) i(1,2) False by simp
  qed
qed

text \<open>
  C4. Up, then down. Whatever the other threads do to the cache and whichever sends fail, a sender
  never faults and leaves its loop exactly when it finds the module closing. In every round before
  that it sends nothing but the \<open>up\<close> text; in that round it hands the \<open>down\<close> text to the kernel for
  every address of the list it then sees for which a socket can be opened, nothing else and nothing
  after it; and it frees its task exactly once, as its last action.
\<close>

theorem sender_up_then_down:
  assumes "well_formed c" and "list_all polite srs"
  shows "\<exists>events f' c'. unicast_thread se srs f c = Some (list_ex sr_closing srs, events, f', c')
     \<and> well_formed c'
     \<and> (case dropWhile (\<lambda>sr. \<not> sr_closing sr) srs of
          [] \<Rightarrow> carries (up_message (se_name se) (se_guid se) (se_task se) (se_interval se)) (datagrams events)
                \<and> Task_freed \<notin> set events
        | sr # _ \<Rightarrow> (\<exists>ups f1 c1 downs.
            unicast_thread se (takeWhile (\<lambda>sr. \<not> sr_closing sr) srs) f c = Some (False, ups, f1, c1)
            \<and> events = ups @ downs @ [Task_freed] \<and> Task_freed \<notin> set (ups @ downs)
            \<and> carries (up_message (se_name se) (se_guid se) (se_task se) (se_interval se)) (datagrams ups)
            \<and> datagrams downs = (case visible_list (sr_now sr) (sr_before sr c1) of None \<Rightarrow> []
                 | Some l \<Rightarrow> round_datagrams se (down_message (se_name se) (se_guid se) (se_task se))
                     (sr_calls sr) 0 (pod_ips l))))"
  using unicast_thread_run [OF assms, of se f]
  unfolding up_then_down_def round_message_text by (simp only: if_True if_False) blast

text \<open>
  Failing sends are reported once when they start and once when they stop: over any run the
  two lines alternate, beginning with the failure, not once per pod or per round.
\<close>

theorem sender_reports_alternate:
  assumes "well_formed c" and "list_all polite srs"
    and "unicast_thread se srs False c = Some (left, events, f', c')"
  shows "alternates True (status_logs events)"
  using unicast_thread_run [OF assms(1,2), of se False] assms(3) by auto

section \<open>Witnesses\<close>

definition demo_sender :: sender where
  "demo_sender = \<lparr>se_name = ''imq-broker'', se_guid = ''2cc7c345'', se_task = demo_task, se_interval = 1,
     se_port = 63000, se_logging = False, se_strerror = (\<lambda>_. ''No route to host'')\<rparr>"

definition demo_pass :: "bool \<Rightarrow> sender_round" where
  "demo_pass is_last = \<lparr>sr_closing = is_last, sr_before = id, sr_now = 101,
     sr_calls = (\<lambda>i. if i = 0 then demo_call else demo_call\<lparr>nc_sent := 60\<rparr>)\<rparr>"

lemma demo_visible: "visible_list 101 demo_published = Some demo_list"
  using demo_published_inv by (simp add: visible_list_def)

lemma round_announces_to_last_list_witness:
  "\<exists>events f' c'. unicast_round demo_sender (demo_pass False) False demo_published
       = Some (True, events, f', c')
     \<and> map (\<lambda>d. fst d) (datagrams events) = [In_addr 10 0 0 12, In_addr 10 0 0 7]"
proof -
  have ips: "inet_pton ''10.0.0.12'' = Some (In_addr 10 0 0 12)"
    "inet_pton ''10.0.0.7'' = Some (In_addr 10 0 0 7)" by code_simp+
  from demo_published_inv have "cache_inv (\<lambda>_. 0) {} {} (sr_before (demo_pass False) demo_published)"
    by (simp add: demo_pass_def)
  from round_announces_to_last_list [OF this, of demo_sender False]
  obtain events f' c' where u: "unicast_round demo_sender (demo_pass False) False demo_published
       = Some (\<not> sr_closing (demo_pass False), events, f', c')"
    "datagrams events = (case visible_list (sr_now (demo_pass False))
         (sr_before (demo_pass False) demo_published) of None \<Rightarrow> []
       | Some l \<Rightarrow> round_datagrams demo_sender (round_message demo_sender (sr_closing (demo_pass False)))
           (sr_calls (demo_pass False)) 0 (pod_ips l))" unfolding round_message_text by blast
  have "visible_list (sr_now (demo_pass False)) (sr_before (demo_pass False) demo_published)
      = Some demo_list" by (simp add: demo_pass_def demo_visible)
  with u(2) have "map (\<lambda>d. fst d) (datagrams events) = [In_addr 10 0 0 12, In_addr 10 0 0 7]"
    by (simp add: round_datagrams_Cons ips)
       (simp add: demo_pass_def demo_call_def round_datagrams_def map_filter_def)
  with u(1) show ?thesis by (simp add: demo_pass_def)
qed

lemma demo_polite: "list_all polite [demo_pass False, demo_pass True, demo_pass True]"
  by (simp add: polite_def demo_pass_def)

lemma demo_well_formed: "well_formed demo_published"
  using demo_published_inv by (auto simp: well_formed_def)

lemma sender_up_then_down_witness:
  "\<exists>events f' c' ups f1 c1 downs.
     unicast_thread demo_sender [demo_pass False, demo_pass True, demo_pass True] False demo_published
       = Some (True, events, f', c')
     \<and> unicast_thread demo_sender [demo_pass False] False demo_published = Some (False, ups, f1, c1)
     \<and> events = ups @ downs @ [Task_freed]"
  using sender_up_then_down [OF demo_well_formed demo_polite, of demo_sender False]
  by (simp add: demo_pass_def) blast

lemma sender_reports_alternate_witness:
  "\<exists>left events f' c'. unicast_thread demo_sender [demo_pass False, demo_pass True, demo_pass True] False
     demo_published = Some (left, events, f', c') \<and> alternates True (status_logs events)"
proof -
  from unicast_thread_run [OF demo_well_formed demo_polite, of demo_sender False]
  obtain left events f' c' where
    u: "unicast_thread demo_sender [demo_pass False, demo_pass True, demo_pass True] False demo_published
       = Some (left, events, f', c')" by blast
  from sender_reports_alternate [OF demo_well_formed demo_polite this] u show ?thesis by blast
qed

end
