(* ===== verification/Redis_Api.thy ===== *)
theory Redis_Api
  imports Announce
begin

text \<open>
  The part of \<^verbatim>\<open>redismodule.h\<close> that is compiled into the module: \<open>RedisModule_Init\<close>, which binds
  the function pointers of the API and registers the module. What Redis offers and whether it
  finds the name busy are arguments; the pointers are a table that survives an unload wherever
  the shared object does.
\<close>

definition REDISMODULE_OK :: int where "REDISMODULE_OK = 0"
definition REDISMODULE_ERR :: int where "REDISMODULE_ERR = 1"
definition REDISMODULE_APIVER_1 :: int where "REDISMODULE_APIVER_1 = 1"

text \<open>A function pointer by its name, as an address; \<open>None\<close> is \<open>NULL\<close>.\<close>

type_synonym api_table = "string \<Rightarrow> nat option"

record redis_ctx =
  ctx_api :: "string \<Rightarrow> nat option"
  ctx_busy :: "string \<Rightarrow> bool"

text \<open>\<open>REDISMODULE_GET_API(name)\<close>: a function Redis does not have leaves the pointer as it was.\<close>

definition get_api :: "redis_ctx \<Rightarrow> string \<Rightarrow> api_table \<Rightarrow> api_table" where
  "get_api ctx name api =
     (case ctx_api ctx (''RedisModule_'' @ name) of None \<Rightarrow> api | Some f \<Rightarrow> api(name \<mapsto> f))"

text \<open>The names in the order of the macro calls: memory, commands and replies; databases, keys, calls and strings; data types and their storage; logging, dictionaries, information and events; blocked clients, threads, clusters, users and configuration.\<close>

definition core_api :: "string list" where
  "core_api = [
     ''Alloc'', ''TryAlloc'', ''Calloc'', ''TryCalloc'', ''Free'', ''Realloc'', ''TryRealloc'',
     ''Strdup'', ''CreateCommand'', ''GetCommand'', ''CreateSubcommand'', ''SetCommandInfo'',
     ''SetCommandACLCategories'', ''AddACLCategory'', ''SetModuleAttribs'', ''IsModuleNameBusy'',
     ''WrongArity'', ''ReplyWithLongLong'', ''ReplyWithError'', ''ReplyWithErrorFormat'',
     ''ReplyWithSimpleString'', ''ReplyWithArray'', ''ReplyWithMap'', ''ReplyWithSet'',
     ''ReplyWithAttribute'', ''ReplyWithNullArray'', ''ReplyWithEmptyArray'',
     ''ReplySetArrayLength'', ''ReplySetMapLength'', ''ReplySetSetLength'',
     ''ReplySetAttributeLength'', ''ReplySetPushLength'', ''ReplyWithStringBuffer'',
     ''ReplyWithCString'', ''ReplyWithString'', ''ReplyWithEmptyString'',
     ''ReplyWithVerbatimString'', ''ReplyWithVerbatimStringType'', ''ReplyWithNull'',
     ''ReplyWithBool'', ''ReplyWithCallReply'', ''ReplyWithDouble'', ''ReplyWithBigNumber'',
     ''ReplyWithLongDouble'']"

definition key_api :: "string list" where
  "key_api = [
     ''GetSelectedDb'', ''SelectDb'', ''KeyExists'', ''OpenKey'', ''GetOpenKeyModesAll'',
     ''CloseKey'', ''KeyType'', ''ValueLength'', ''ListPush'', ''ListPop'', ''ListGet'',
     ''ListSet'', ''ListInsert'', ''ListDelete'', ''StringToLongLong'', ''StringToULongLong'',
     ''StringToDouble'', ''StringToLongDouble'', ''StringToStreamID'', ''Call'', ''CallReplyProto'',
     ''FreeCallReply'', ''CallReplyInteger'', ''CallReplyDouble'', ''CallReplyBool'',
     ''CallReplyBigNumber'', ''CallReplyVerbatim'', ''CallReplySetElement'',
     ''CallReplyMapElement'', ''CallReplyAttributeElement'', ''CallReplyPromiseSetUnblockHandler'',
     ''CallReplyPromiseAbort'', ''CallReplyAttribute'', ''CallReplyType'', ''CallReplyLength'',
     ''CallReplyArrayElement'', ''CallReplyStringPtr'', ''CreateStringFromCallReply'',
     ''CreateString'', ''CreateStringFromLongLong'', ''CreateStringFromULongLong'',
     ''CreateStringFromDouble'', ''CreateStringFromLongDouble'', ''CreateStringFromString'',
     ''CreateStringFromStreamID'', ''CreateStringPrintf'', ''FreeString'', ''StringPtrLen'']"

definition data_api :: "string list" where
  "data_api = [
     ''AutoMemory'', ''Replicate'', ''ReplicateVerbatim'', ''DeleteKey'', ''UnlinkKey'',
     ''StringSet'', ''StringDMA'', ''StringTruncate'', ''GetExpire'', ''SetExpire'',
     ''GetAbsExpire'', ''SetAbsExpire'', ''ResetDataset'', ''DbSize'', ''RandomKey'', ''ZsetAdd'',
     ''ZsetIncrby'', ''ZsetScore'', ''ZsetRem'', ''ZsetRangeStop'', ''ZsetFirstInScoreRange'',
     ''ZsetLastInScoreRange'', ''ZsetFirstInLexRange'', ''ZsetLastInLexRange'',
     ''ZsetRangeCurrentElement'', ''ZsetRangeNext'', ''ZsetRangePrev'', ''ZsetRangeEndReached'',
     ''HashSet'', ''HashGet'', ''StreamAdd'', ''StreamDelete'', ''StreamIteratorStart'',
     ''StreamIteratorStop'', ''StreamIteratorNextID'', ''StreamIteratorNextField'',
     ''StreamIteratorDelete'', ''StreamTrimByLength'', ''StreamTrimByID'',
     ''IsKeysPositionRequest'', ''KeyAtPos'', ''KeyAtPosWithFlags'', ''IsChannelsPositionRequest'',
     ''ChannelAtPosWithFlags'', ''GetClientId'', ''GetClientUserNameById'', ''GetContextFlags'',
     ''AvoidReplicaTraffic'', ''PoolAlloc'', ''CreateDataType'', ''ModuleTypeSetValue'',
     ''ModuleTypeReplaceValue'', ''ModuleTypeGetType'', ''ModuleTypeGetValue'', ''IsIOError'',
     ''SetModuleOptions'', ''SignalModifiedKey'', ''SaveUnsigned'', ''LoadUnsigned'',
     ''SaveSigned'', ''LoadSigned'', ''SaveString'', ''SaveStringBuffer'', ''LoadString'',
     ''LoadStringBuffer'', ''SaveDouble'', ''LoadDouble'', ''SaveFloat'', ''LoadFloat'',
     ''SaveLongDouble'', ''LoadLongDouble'', ''SaveDataTypeToString'', ''LoadDataTypeFromString'',
     ''LoadDataTypeFromStringEncver'', ''EmitAOF'']"

definition info_api :: "string list" where
  "info_api = [
     ''Log'', ''LogIOError'', ''_Assert'', ''LatencyAddSample'', ''StringAppendBuffer'',
     ''TrimStringAllocation'', ''RetainString'', ''HoldString'', ''StringCompare'',
     ''GetContextFromIO'', ''GetKeyNameFromIO'', ''GetKeyNameFromModuleKey'',
     ''GetDbIdFromModuleKey'', ''GetDbIdFromIO'', ''GetKeyNameFromOptCtx'',
     ''GetToKeyNameFromOptCtx'', ''GetDbIdFromOptCtx'', ''GetToDbIdFromOptCtx'', ''Milliseconds'',
     ''MonotonicMicroseconds'', ''Microseconds'', ''CachedMicroseconds'', ''DigestAddStringBuffer'',
     ''DigestAddLongLong'', ''DigestEndSequence'', ''GetKeyNameFromDigest'', ''GetDbIdFromDigest'',
     ''CreateDict'', ''FreeDict'', ''DictSize'', ''DictSetC'', ''DictReplaceC'', ''DictSet'',
     ''DictReplace'', ''DictGetC'', ''DictGet'', ''DictDelC'', ''DictDel'', ''DictIteratorStartC'',
     ''DictIteratorStart'', ''DictIteratorStop'', ''DictIteratorReseekC'', ''DictIteratorReseek'',
     ''DictNextC'', ''DictPrevC'', ''DictNext'', ''DictPrev'', ''DictCompare'', ''DictCompareC'',
     ''RegisterInfoFunc'', ''RegisterAuthCallback'', ''InfoAddSection'', ''InfoBeginDictField'',
     ''InfoEndDictField'', ''InfoAddFieldString'', ''InfoAddFieldCString'', ''InfoAddFieldDouble'',
     ''InfoAddFieldLongLong'', ''InfoAddFieldULongLong'', ''GetServerInfo'', ''FreeServerInfo'',
     ''ServerInfoGetField'', ''ServerInfoGetFieldC'', ''ServerInfoGetFieldSigned'',
     ''ServerInfoGetFieldUnsigned'', ''ServerInfoGetFieldDouble'', ''GetClientInfoById'',
     ''GetClientNameById'', ''SetClientNameById'', ''PublishMessage'', ''PublishMessageShard'',
     ''SubscribeToServerEvent'']"

definition event_api :: "string list" where
  "event_api = [
     ''SetLRU'', ''GetLRU'', ''SetLFU'', ''GetLFU'', ''BlockClientOnKeys'',
     ''BlockClientOnKeysWithFlags'', ''SignalKeyAsReady'', ''GetBlockedClientReadyKey'',
     ''ScanCursorCreate'', ''ScanCursorRestart'', ''ScanCursorDestroy'', ''Scan'', ''ScanKey'',
     ''GetContextFlagsAll'', ''GetModuleOptionsAll'', ''GetKeyspaceNotificationFlagsAll'',
     ''IsSubEventSupported'', ''GetServerVersion'', ''GetTypeMethodVersion'', ''Yield'',
     ''GetThreadSafeContext'', ''GetDetachedThreadSafeContext'', ''FreeThreadSafeContext'',
     ''ThreadSafeContextLock'', ''ThreadSafeContextTryLock'', ''ThreadSafeContextUnlock'',
     ''BlockClient'', ''BlockClientGetPrivateData'', ''BlockClientSetPrivateData'',
     ''BlockClientOnAuth'', ''UnblockClient'', ''IsBlockedReplyRequest'',
     ''IsBlockedTimeoutRequest'', ''GetBlockedClientPrivateData'', ''GetBlockedClientHandle'',
     ''AbortBlock'', ''BlockedClientMeasureTimeStart'', ''BlockedClientMeasureTimeEnd'',
     ''SetDisconnectCallback'', ''SubscribeToKeyspaceEvents'', ''AddPostNotificationJob'',
     ''NotifyKeyspaceEvent'', ''GetNotifyKeyspaceEvents'', ''BlockedClientDisconnected'',
     ''RegisterClusterMessageReceiver'', ''SendClusterMessage'', ''GetClusterNodeInfo'',
     ''GetClusterNodesList'', ''FreeClusterNodesList'', ''CreateTimer'', ''StopTimer'',
     ''GetTimerInfo'', ''GetMyClusterID'', ''GetClusterSize'', ''GetRandomBytes'',
     ''GetRandomHexChars'', ''SetClusterFlags'', ''ClusterKeySlot'',
     ''ClusterCanonicalKeyNameInSlot'', ''ExportSharedAPI'', ''GetSharedAPI'',
     ''RegisterCommandFilter'', ''UnregisterCommandFilter'', ''CommandFilterArgsCount'',
     ''CommandFilterArgGet'', ''CommandFilterArgInsert'', ''CommandFilterArgReplace'',
     ''CommandFilterArgDelete'', ''CommandFilterGetClientId'', ''Fork'', ''SendChildHeartbeat'',
     ''ExitFromChild'', ''KillForkChild'', ''GetUsedMemoryRatio'', ''MallocSize'',
     ''MallocUsableSize'', ''MallocSizeString'', ''MallocSizeDict'', ''CreateModuleUser'',
     ''FreeModuleUser'', ''SetContextUser'', ''SetModuleUserACL'', ''SetModuleUserACLString'',
     ''GetModuleUserACLString'', ''GetCurrentUserName'', ''GetModuleUserFromUserName'',
     ''ACLCheckCommandPermissions'', ''ACLCheckKeyPermissions'', ''ACLCheckChannelPermissions'',
     ''ACLAddLogEntry'', ''ACLAddLogEntryByUserName'', ''DeauthenticateAndCloseClient'',
     ''AuthenticateClientWithACLUser'', ''AuthenticateClientWithUser'',
     ''RedactClientCommandArgument'', ''GetClientCertificate'', ''GetCommandKeys'',
     ''GetCommandKeysWithFlags'', ''GetCurrentCommandName'', ''RegisterDefragFunc'',
     ''DefragAlloc'', ''DefragRedisModuleString'', ''DefragShouldStop'', ''DefragCursorSet'',
     ''DefragCursorGet'', ''GetKeyNameFromDefragCtx'', ''GetDbIdFromDefragCtx'', ''EventLoopAdd'',
     ''EventLoopDel'', ''EventLoopAddOneShot'', ''RegisterBoolConfig'', ''RegisterNumericConfig'',
     ''RegisterStringConfig'', ''RegisterEnumConfig'', ''LoadConfigs'', ''RdbStreamCreateFromFile'',
     ''RdbStreamFree'', ''RdbLoad'', ''RdbSave'']"

definition api_names :: "string list" where
  "api_names = core_api @ key_api @ data_api @ info_api @ event_api"

text \<open>
  The status, what was passed to \<open>RedisModule_SetModuleAttribs\<close>, and the table; \<open>None\<close> is the call
  of \<open>SetModuleAttribs\<close> through \<open>NULL\<close>.
\<close>

definition RedisModule_Init ::
  "redis_ctx \<Rightarrow> string \<Rightarrow> int \<Rightarrow> int \<Rightarrow> api_table
     \<Rightarrow> (int \<times> (string \<times> int \<times> int) option \<times> api_table) option" where
  "RedisModule_Init ctx name ver apiver table =
     (let api = fold (get_api ctx) api_names table
      in if api ''IsModuleNameBusy'' \<noteq> None \<and> ctx_busy ctx name
         then Some (REDISMODULE_ERR, None, api)
         else (case api ''SetModuleAttribs'' of
                 None \<Rightarrow> None
               | Some _ \<Rightarrow> Some (REDISMODULE_OK, Some (name, ver, apiver), api)))"

section \<open>What is bound\<close>

lemma fold_get_api:
  "fold (get_api ctx) names table n =
     (case ctx_api ctx (''RedisModule_'' @ n) of
        Some f \<Rightarrow> if n \<in> set names then Some f else table n
      | None \<Rightarrow> table n)"
  by (induction names arbitrary: table) (auto simp: get_api_def split: option.split)

text \<open>The functions of the API the program calls.\<close>

definition api_used :: "string list" where
  "api_used = [''Log'', ''Call'', ''CallReplyType'', ''CallReplyLength'', ''CallReplyArrayElement'',
     ''CreateStringFromCallReply'', ''StringPtrLen'', ''FreeString'', ''FreeCallReply'',
     ''SubscribeToServerEvent'', ''IsModuleNameBusy'', ''SetModuleAttribs'']"

lemma api_used_bound:
  "set [''SetModuleAttribs'', ''IsModuleNameBusy''] \<subseteq> set core_api"
  "set [''Call'', ''CallReplyType'', ''CallReplyLength'', ''CallReplyArrayElement'',
     ''CreateStringFromCallReply'', ''StringPtrLen'', ''FreeString'', ''FreeCallReply''] \<subseteq> set key_api"
  "set [''Log'', ''SubscribeToServerEvent''] \<subseteq> set info_api"
  by (simp_all add: core_api_def key_api_def info_api_def)

text \<open>Every Redis with modules that can be named has these two.\<close>

definition redis_ok :: "redis_ctx \<Rightarrow> bool" where
  "redis_ok ctx \<longleftrightarrow> ctx_api ctx ''RedisModule_IsModuleNameBusy'' \<noteq> None
     \<and> ctx_api ctx ''RedisModule_SetModuleAttribs'' \<noteq> None"

lemma api_member: "n \<in> set api_used \<Longrightarrow> n \<in> set api_names"
  using api_used_bound by (auto simp: api_names_def api_used_def)

lemma init_value:
  assumes "redis_ok ctx"
  shows "\<exists>api. RedisModule_Init ctx name ver apiver table = Some
       (if ctx_busy ctx name then (REDISMODULE_ERR, None, api)
        else (REDISMODULE_OK, Some (name, ver, apiver), api))
     \<and> (\<forall>n\<in>set api_used. ctx_api ctx (''RedisModule_'' @ n) \<noteq> None \<longrightarrow> api n \<noteq> None)"
proof -
  let ?api = "fold (get_api ctx) api_names table"
  have bound: "?api n = (case ctx_api ctx (''RedisModule_'' @ n) of Some f \<Rightarrow> Some f | None \<Rightarrow> table n)"
    if "n \<in> set api_used" for n
    using api_member [OF that] by (simp add: fold_get_api split: option.split)
  have "''IsModuleNameBusy'' \<in> set api_used" "''SetModuleAttribs'' \<in> set api_used"
    by (simp_all add: api_used_def)
  with assms bound have "?api ''IsModuleNameBusy'' \<noteq> None" "?api ''SetModuleAttribs'' \<noteq> None"
    by (auto simp: redis_ok_def)
  moreover have "\<forall>n\<in>set api_used. ctx_api ctx (''RedisModule_'' @ n) \<noteq> None \<longrightarrow> ?api n \<noteq> None"
    using bound by auto
  ultimately show ?thesis by (auto simp: RedisModule_Init_def)
qed

text \<open>
  Registering. With a Redis that has the two functions registration needs, \<open>RedisModule_Init\<close>
  never calls through \<open>NULL\<close>, refuses exactly a name that is busy - and then registers nothing -
  and whatever the pointers held before, afterwards every API function the module calls is bound,
  to the function of this Redis where it offers one.
\<close>

theorem init_registers_free_name:
  assumes "redis_ok ctx"
  shows "\<exists>api. RedisModule_Init ctx name ver apiver table = Some
       (if ctx_busy ctx name then (REDISMODULE_ERR, None, api)
        else (REDISMODULE_OK, Some (name, ver, apiver), api))
     \<and> (\<forall>n\<in>set api_used. api n =
          (case ctx_api ctx (''RedisModule_'' @ n) of Some f \<Rightarrow> Some f | None \<Rightarrow> table n))"
proof -
  obtain r a api where i: "RedisModule_Init ctx name ver apiver table = Some (r, a, api)"
    "(r, a) = (if ctx_busy ctx name then (REDISMODULE_ERR, None) else (REDISMODULE_OK, Some (name, ver, apiver)))"
    using init_value [OF assms, of name ver apiver table] by (auto split: if_splits)
  then have "api = fold (get_api ctx) api_names table"
    by (auto simp: RedisModule_Init_def Let_def split: if_splits option.splits)
  with i api_member show ?thesis by (auto simp: fold_get_api split: option.split if_splits)
qed

definition demo_redis :: "bool \<Rightarrow> redis_ctx" where
  "demo_redis busy = \<lparr>ctx_api = Some \<circ> length, ctx_busy = (\<lambda>_. busy)\<rparr>"

lemma demo_redis_ok [simp]: "redis_ok (demo_redis b)"
  by (simp add: redis_ok_def demo_redis_def)

lemma init_registers_free_name_witness:
  "\<exists>api. RedisModule_Init (demo_redis True) ''unicaster'' 1 1 (\<lambda>_. None) = Some (REDISMODULE_ERR, None, api)
     \<and> api ''Log'' = Some 15"
proof -
  have "''Log'' \<in> set api_used" by (simp add: api_used_def)
  with init_registers_free_name [OF demo_redis_ok, of True "''unicaster''" 1 1 "\<lambda>_. None"]
  show ?thesis by (auto simp: demo_redis_def)
qed

end
