(* ===== verification/Server_Events.thy ===== *)
theory Server_Events
  imports Prelude
begin

text \<open>
  The server events of \<^verbatim>\<open>redismodule.h\<close>: their identifiers, the structures a module subscribes
  with, and the subevents.
\<close>

section \<open>The events\<close>

text \<open>One constructor for each \<open>RedisModuleEvent_...\<close>, in the order of the structures.\<close>

datatype redis_event =
    ReplicationRoleChanged | Persistence | FlushDB | Loading | ClientChange | Shutdown_event
  | ReplicaChange | CronLoop | MasterLinkChange | ModuleChange | LoadingProgress | SwapDB
  | ReplBackup | ReplAsyncLoad | ForkChild | EventLoop | Config_event | Key_event

primrec event_number :: "redis_event \<Rightarrow> nat" where
  "event_number ReplicationRoleChanged = 0"
| "event_number Persistence = 1"
| "event_number FlushDB = 2"
| "event_number Loading = 3"
| "event_number ClientChange = 4"
| "event_number Shutdown_event = 5"
| "event_number ReplicaChange = 6"
| "event_number MasterLinkChange = 7"
| "event_number CronLoop = 8"
| "event_number ModuleChange = 9"
| "event_number LoadingProgress = 10"
| "event_number SwapDB = 11"
| "event_number ReplBackup = 12"
| "event_number ForkChild = 13"
| "event_number ReplAsyncLoad = 14"
| "event_number EventLoop = 15"
| "event_number Config_event = 16"
| "event_number Key_event = 17"

definition EVENT_NEXT :: nat where "EVENT_NEXT = 18"

record RedisModuleEvent =
  ev_id :: "64 word"
  ev_dataver :: "64 word"

definition RedisModuleEvent_of :: "redis_event \<Rightarrow> RedisModuleEvent" where
  "RedisModuleEvent_of e = \<lparr>ev_id = of_nat (event_number e), ev_dataver = 1\<rparr>"

text \<open>
  The subevents of an event, in the order of their numbers \<open>0, 1, ...\<close>, and the constants
  \<open>_REDISMODULE_SUBEVENT_..._NEXT\<close>, which say how many there are.
\<close>

primrec subevents :: "redis_event \<Rightarrow> string list" where
  "subevents Persistence = [''RDB_START'', ''AOF_START'', ''SYNC_RDB_START'', ''ENDED'', ''FAILED'', ''SYNC_AOF_START'']"
| "subevents Loading = [''RDB_START'', ''AOF_START'', ''REPL_START'', ''ENDED'', ''FAILED'']"
| "subevents ClientChange = [''CONNECTED'', ''DISCONNECTED'']"
| "subevents MasterLinkChange = [''UP'', ''DOWN'']"
| "subevents ReplicaChange = [''ONLINE'', ''OFFLINE'']"
| "subevents ReplicationRoleChanged = [''NOW_MASTER'', ''NOW_REPLICA'']"
| "subevents FlushDB = [''START'', ''END'']"
| "subevents ModuleChange = [''LOADED'', ''UNLOADED'']"
| "subevents Config_event = [''CHANGE'']"
| "subevents LoadingProgress = [''RDB'', ''AOF'']"
| "subevents ReplBackup = [''CREATE'', ''RESTORE'', ''DISCARD'']"
| "subevents ReplAsyncLoad = [''STARTED'', ''ABORTED'', ''COMPLETED'']"
| "subevents ForkChild = [''BORN'', ''DIED'']"
| "subevents EventLoop = [''BEFORE_SLEEP'', ''AFTER_SLEEP'']"
| "subevents Key_event = [''DELETED'', ''EXPIRED'', ''EVICTED'', ''OVERWRITTEN'']"
| "subevents Shutdown_event = []"
| "subevents CronLoop = []"
| "subevents SwapDB = []"

primrec subevent_next :: "redis_event \<Rightarrow> nat" where
  "subevent_next Persistence = 6"
| "subevent_next Loading = 5"
| "subevent_next ClientChange = 2"
| "subevent_next MasterLinkChange = 2"
| "subevent_next ReplicaChange = 2"
| "subevent_next ReplicationRoleChanged = 2"
| "subevent_next FlushDB = 2"
| "subevent_next ModuleChange = 2"
| "subevent_next Config_event = 1"
| "subevent_next LoadingProgress = 2"
| "subevent_next ReplBackup = 3"
| "subevent_next ReplAsyncLoad = 3"
| "subevent_next ForkChild = 2"
| "subevent_next EventLoop = 2"
| "subevent_next Key_event = 4"
| "subevent_next Shutdown_event = 0"
| "subevent_next CronLoop = 0"
| "subevent_next SwapDB = 0"

text \<open>The subevents are numbered without a gap up to the constant, and no name is used twice.\<close>

lemma subevents_numbered: "length (subevents e) = subevent_next e \<and> distinct (subevents e)"
  by (cases e) simp_all

text \<open>The identifiers tell the events apart and are the numbers below \<open>_REDISMODULE_EVENT_NEXT\<close>.\<close>

lemma event_number_less: "event_number e < EVENT_NEXT"
  by (cases e) (simp_all add: EVENT_NEXT_def)

lemma event_number_inj: "event_number e = event_number f \<longleftrightarrow> e = f"
  by (cases e; cases f) simp_all

lemma event_id_inj: "ev_id (RedisModuleEvent_of e) = ev_id (RedisModuleEvent_of f) \<longleftrightarrow> e = f"
  by (cases e; cases f) (simp_all add: RedisModuleEvent_of_def)

end
