(* ===== verification/Module_Lifecycle.thy ===== *)
theory Module_Lifecycle
  imports Sender Ip_Patterns Redis_Api Server_Events
begin

text \<open>
  \<^verbatim>\<open>unicaster.c\<close>, the life of the module: \<open>RedisModule_OnLoad\<close>, the two event hooks,
  \<open>start_broadcasting\<close>, \<open>send_udp_message\<close>, \<open>cleanup_threads\<close> and
  \<open>RedisModule_OnUnload\<close> over the file-scope variables of the program. Redis, libcurl, libuuid,
  \<open>getifaddrs\<close>, \<open>malloc\<close> and \<open>pthread_create\<close> answer through arguments. A result \<open>None\<close> is
  an access the C code must not make: through \<open>NULL\<close>, past the end of an array, to freed memory.
\<close>

section \<open>The state\<close>

text \<open>The array behind \<open>thread_ids\<close>: how many entries were allocated, and those in use.\<close>

record thread_array =
  ta_capacity :: nat
  ta_ids :: "nat list"

text \<open>What \<open>thread_ids\<close> points to when it is not \<open>NULL\<close>: the array, or memory that was freed.\<close>

datatype thread_block = Freed | Block thread_array

text \<open>The two functions the module hands to Redis as callbacks of server events.\<close>

datatype hook = Shutdown_callback | Cron_broadcast_once

text \<open>
  The file-scope variables; \<open>m_senders\<close> are the sender threads that exist (with their task), and
  \<open>m_hooks\<close> the subscriptions Redis holds, each with the identifier of the event it was made for.
\<close>

record module =
  m_logging :: bool
  m_port :: int
  m_tls :: bool
  m_guid :: string
  m_binds :: redis_binds
  m_thread_ids :: "thread_block option"
  m_thread_count :: nat
  m_patterns :: ip_patterns
  m_announced :: bool
  m_signal :: closing_signal
  m_cache :: cache
  m_senders :: "(nat \<times> BroadcastTask) list"
  m_hooks :: "(64 word \<times> hook) list"
  m_api :: api_table

text \<open>The variables as the C program starts with them.\<close>

definition initial_module :: module where
  "initial_module = \<lparr>m_logging = False, m_port = 6379, m_tls = False, m_guid = [],
     m_binds = \<lparr>bind_ips = [], allow_all_interfaces = False\<rparr>,
     m_thread_ids = None, m_thread_count = 0, m_patterns = [], m_announced = False,
     m_signal = \<lparr>closing = 0, cond_ready = False\<rparr>, m_cache = empty_cache, m_senders = [],
     m_hooks = [], m_api = (\<lambda>_. None)\<rparr>"

text \<open>Which callback is subscribed to the event it is written for.\<close>

abbreviation m_shutdown_hook :: "module \<Rightarrow> bool" where
  "m_shutdown_hook m \<equiv> (ev_id (RedisModuleEvent_of Shutdown_event), Shutdown_callback) \<in> set (m_hooks m)"

abbreviation m_cron_hook :: "module \<Rightarrow> bool" where
  "m_cron_hook m \<equiv> (ev_id (RedisModuleEvent_of CronLoop), Cron_broadcast_once) \<in> set (m_hooks m)"

section \<open>Starting the senders\<close>

text \<open>
  What the calls of \<open>send_udp_message\<close> return: the interfaces (\<open>None\<close> for one without an IPv4
  address), memory for the array and for the task of each interface, and the thread
  \<open>pthread_create\<close> makes for it.
\<close>

record udp_world =
  uw_getenv :: environ
  uw_ifaddrs :: "in_addr option list option"
  uw_strerror :: string
  uw_array :: bool
  uw_dup_env :: bool
  uw_dup :: "nat \<Rightarrow> bool"
  uw_task :: "nat \<Rightarrow> bool"
  uw_thread :: "nat \<Rightarrow> nat option"

datatype module_event =
    Module_log log_line
  | Ifaddrs_taken | Ifaddrs_freed
  | Task_dropped BroadcastTask
  | Curl_global_init | Curl_global_cleanup

text \<open>\<open>thread_ids[thread_count++] = tid\<close>\<close>

definition store_thread :: "nat \<Rightarrow> module \<Rightarrow> module option" where
  "store_thread tid m =
     (case m_thread_ids m of
        Some (Block a) \<Rightarrow>
          if m_thread_count m < ta_capacity a
          then Some (m\<lparr>m_thread_ids := Some (Block (a\<lparr>ta_ids := take (m_thread_count m) (ta_ids a) @ [tid]\<rparr>)),
                       m_thread_count := m_thread_count m + 1\<rparr>)
          else None
      | _ \<Rightarrow> None)"

definition skipping_log :: "environ \<Rightarrow> string \<Rightarrow> module_event" where
  "skipping_log getenv ip = Module_log (Log_debug, ''DEBUG: send_udp_message: '' @ get_service_name getenv
     @ '': skipping interface with IP '' @ ip @ '' (doesn'' @ CHR 0x27 # ''t match patterns)'')"

definition using_log :: "environ \<Rightarrow> string \<Rightarrow> module_event" where
  "using_log getenv ip = Module_log (Log_debug, ''DEBUG: send_udp_message: '' @ get_service_name getenv
     @ '': using interface with IP '' @ ip @ '' (as it matches patterns)'')"

text \<open>The loop body for interface number \<open>i\<close>.\<close>

definition start_sender ::
  "udp_world \<Rightarrow> int \<Rightarrow> bool \<Rightarrow> nat \<times> in_addr option \<Rightarrow> module \<Rightarrow> (module \<times> module_event list) option" where
  "start_sender w port tls ifa m =
     (case ifa of
        (_, None) \<Rightarrow> Some (m, [])
      | (i, Some addr) \<Rightarrow>
          (let ip = inet_ntop addr
           in case ip_matches_pattern (m_patterns m) ip of
                None \<Rightarrow> None
              | Some False \<Rightarrow> Some (m, [skipping_log (uw_getenv w) ip])
              | Some True \<Rightarrow>
                  (let line = using_log (uw_getenv w) ip
                   in if \<not> uw_task w i then Some (m, [line])
                      else (let task = \<lparr>source_ip = snprintf INET_ADDRSTRLEN ip, redis_port = port,
                                         redis_tls = tls\<rparr>
                            in case uw_thread w i of
                                 None \<Rightarrow> Some (m, [line, Task_dropped task])
                               | Some tid \<Rightarrow>
                                   map_option (\<lambda>m1. (m1, [line]))
                                     (store_thread tid (m\<lparr>m_senders := m_senders m @ [(tid, task)]\<rparr>))))))"

fun start_senders ::
  "udp_world \<Rightarrow> int \<Rightarrow> bool \<Rightarrow> (nat \<times> in_addr option) list \<Rightarrow> module
     \<Rightarrow> (module \<times> module_event list) option" where
  "start_senders w port tls [] m = Some (m, [])"
| "start_senders w port tls (ifa # ifas) m =
     do {
       (m1, es) \<leftarrow> start_sender w port tls ifa m;
       (m2, es') \<leftarrow> start_senders w port tls ifas m1;
       Some (m2, es @ es')
     }"

definition warn :: "environ \<Rightarrow> string \<Rightarrow> module_event" where
  "warn getenv what = Module_log (Log_warning, get_service_name getenv @ '': '' @ what)"

definition no_match_text :: "environ \<Rightarrow> module_event" where
  "no_match_text getenv = Module_log (Log_warning, ''DEBUG: '' @ get_service_name getenv
     @ '': no interfaces matched the specified IP patterns'')"

definition send_udp_message ::
  "udp_world \<Rightarrow> int \<Rightarrow> bool \<Rightarrow> module \<Rightarrow> (module \<times> module_event list) option" where
  "send_udp_message w port tls m =
     (let m0 = m\<lparr>m_thread_count := 0\<rparr>
      in case uw_ifaddrs w of
           None \<Rightarrow> Some (m0, [warn (uw_getenv w) (''getifaddrs failed: '' @ uw_strerror w)])
         | Some ifaddr \<Rightarrow>
             (let max_threads = length (filter (\<lambda>ifa. ifa \<noteq> None) ifaddr)
              in if max_threads = 0
                 then Some (m0, [Ifaddrs_taken,
                        Module_log (Log_notice, get_service_name (uw_getenv w) @ '': no network interfaces found''),
                        Ifaddrs_freed])
                 else if \<not> uw_array w
                 then Some (m0\<lparr>m_thread_ids := None\<rparr>, [Ifaddrs_taken,
                        warn (uw_getenv w) ''failed to allocate thread array'', Ifaddrs_freed])
                 else do {
                   (logs, ps) \<leftarrow> init_ip_patterns (uw_getenv w) (uw_dup_env w) (uw_dup w) (m_patterns m0);
                   (m1, es) \<leftarrow> start_senders w port tls (enumerate 0 ifaddr)
                                 (m0\<lparr>m_thread_ids := Some (Block \<lparr>ta_capacity = max_threads, ta_ids = []\<rparr>),
                                     m_patterns := ps\<rparr>);
                   Some (m1, Ifaddrs_taken # map Module_log logs @ es
                        @ (if m_thread_count m1 = 0 \<and> length (m_patterns m1) > 0
                           then [no_match_text (uw_getenv w)] else [])
                        @ [Ifaddrs_freed])
                 }))"

section \<open>Stopping\<close>

text \<open>Joining the threads of the array: they are gone afterwards.\<close>

definition join_threads :: "module \<Rightarrow> module option" where
  "join_threads m =
     (if m_thread_count m = 0 then Some m
      else (case m_thread_ids m of
              Some (Block a) \<Rightarrow>
                if length (ta_ids a) < m_thread_count m then None
                else Some (m\<lparr>m_senders := filter (\<lambda>s. fst s \<notin> set (take (m_thread_count m) (ta_ids a)))
                                            (m_senders m)\<rparr>)
            | _ \<Rightarrow> None))"

text \<open>\<open>free(thread_ids)\<close>: nothing for \<open>NULL\<close>, undefined for memory that was freed before.\<close>

definition free_thread_ids :: "module \<Rightarrow> module option" where
  "free_thread_ids m =
     (case m_thread_ids m of
        None \<Rightarrow> Some m
      | Some Freed \<Rightarrow> None
      | Some (Block a) \<Rightarrow> Some (m\<lparr>m_thread_ids := Some Freed\<rparr>))"

definition cleanup_threads :: "module \<Rightarrow> module option" where
  "cleanup_threads m =
     do {
       m1 \<leftarrow> join_threads (m\<lparr>m_signal := closing_begin (m_signal m)\<rparr>);
       m2 \<leftarrow> free_thread_ids m1;
       let m3 = m2\<lparr>m_thread_ids := None, m_thread_count := 0\<rparr>;
       c \<leftarrow> pod_cache_stop (m_cache m3);
       Some (m3\<lparr>m_cache := c, m_patterns := cleanup_ip_patterns (m_patterns m3)\<rparr>)
     }"

section \<open>The hooks\<close>

record start_world =
  sw_malloc :: bool
  sw_curl_init :: bool
  sw_refresher :: bool
  sw_udp :: udp_world

definition start_broadcasting ::
  "start_world \<Rightarrow> module \<Rightarrow> (module \<times> module_event list) option" where
  "start_broadcasting w m =
     (let getenv = uw_getenv (sw_udp w);
          line = Module_log (Log_notice, get_service_name getenv @ '': announcing port ''
                   @ show_int (m_port m) @ '' ('' @ (if m_tls m then ''tls'' else ''plain'') @ '')'');
          (ok, c) = pod_cache_start getenv (sw_malloc w) (sw_curl_init w) (sw_refresher w) (m_cache m);
          m1 = m\<lparr>m_cache := c\<rparr>
      in if \<not> ok
         then Some (m1, [line, warn getenv
                ''could not start the pod list refresh, this broker stays invisible''])
         else map_option (\<lambda>(m2, es). (m2, line # es))
                (send_udp_message (sw_udp w) (m_port m1) (m_tls m1) m1))"

definition cron_broadcast_once ::
  "start_world \<Rightarrow> module \<Rightarrow> (module \<times> module_event list) option" where
  "cron_broadcast_once w m =
     (if m_announced m \<or> is_closing (m_signal m) then Some (m, [])
      else start_broadcasting w (m\<lparr>m_announced := True\<rparr>))"

definition shutdown_callback :: "module \<Rightarrow> module option" where
  "shutdown_callback m = cleanup_threads m"

section \<open>Loading and unloading\<close>

record 'r load_world =
  lw_getenv :: environ
  lw_guid :: string
  lw_redis :: redis_ctx
  lw_curl :: bool
  lw_cron :: bool
  lw_api :: "'r reply_api"

text \<open>The log level directive: logging is switched on, never off.\<close>

definition read_loglevel :: "'r reply_api \<Rightarrow> bool \<Rightarrow> bool" where
  "read_loglevel api enable_logging =
     (case call_config_get api ''loglevel'' of
        None \<Rightarrow> enable_logging
      | Some reply \<Rightarrow>
          if is_pair api reply
          then (case string_value api reply of
                  None \<Rightarrow> enable_logging
                | Some level \<Rightarrow>
                    if strcmp level ''verbose'' = 0 \<or> strcmp level ''debug'' = 0 then True
                    else enable_logging)
          else enable_logging)"

text \<open>
  \<open>generate_redis_guid\<close>: \<open>uuid\<close> is the text that \<open>uuid_unparse_lower\<close> writes of the identifier
  \<open>uuid_generate\<close> returns, with its NUL, into \<open>char redis_guid[37]\<close>.
\<close>

definition GUID_SIZE :: nat where "GUID_SIZE = 37"

definition generate_redis_guid :: "string \<Rightarrow> module \<Rightarrow> module option" where
  "generate_redis_guid uuid m =
     (if length uuid + 1 \<le> GUID_SIZE then Some (m\<lparr>m_guid := uuid\<rparr>) else None)"

text \<open>\<open>RedisModule_SubscribeToServerEvent\<close>: a module has one callback for an event.\<close>

definition subscribe :: "redis_event \<Rightarrow> hook \<Rightarrow> module \<Rightarrow> module" where
  "subscribe e callback m =
     (let n = ev_id (RedisModuleEvent_of e)
      in m\<lparr>m_hooks := (n, callback) # filter (\<lambda>h. fst h \<noteq> n) (m_hooks m)\<rparr>)"

lemma subscribe_simps [simp]:
  "(ev_id (RedisModuleEvent_of e), f) \<in> set (m_hooks (subscribe e' g m)) \<longleftrightarrow>
     (if e = e' then f = g else (ev_id (RedisModuleEvent_of e), f) \<in> set (m_hooks m))"
  by (auto simp: subscribe_def Let_def event_id_inj)

text \<open>After the registration: whether it returns \<open>REDISMODULE_OK\<close>, the new state and the events.\<close>

definition set_up :: "'r load_world \<Rightarrow> module \<Rightarrow> bool \<times> module \<times> module_event list" where
  "set_up w m1 =
     (let m2 = m1\<lparr>m_signal := closing_reset (m_signal m1), m_announced := False,
                  m_binds := fst (load_redis_bind_ips (lw_api w))\<rparr>
      in if \<not> lw_curl w
         then (False, m2, [warn (lw_getenv w) ''curl_global_init failed''])
         else
           (let (port, tls, logs) = resolve_announced_port (lw_api w) (lw_getenv w);
                m3 = (subscribe Shutdown_event Shutdown_callback m2)\<lparr>
                        m_logging := read_loglevel (lw_api w) (m_logging m2),
                        m_port := port, m_tls := tls\<rparr>;
                es = Curl_global_init # map Module_log logs
            in if port \<le> 0
               then (True, m3, es @ [warn (lw_getenv w)
                      ''no reachable listener to announce, this broker stays invisible''])
               else if \<not> lw_cron w
               then (True, m3, es @ [warn (lw_getenv w)
                      ''could not register the startup hook, this broker stays invisible''])
               else (True, subscribe CronLoop Cron_broadcast_once m3, es)))"

definition RedisModule_OnLoad ::
  "'r load_world \<Rightarrow> module \<Rightarrow> (bool \<times> module \<times> module_event list) option" where
  "RedisModule_OnLoad w m =
     do {
       m0 \<leftarrow> generate_redis_guid (lw_guid w) m;
       (r, attribs, api) \<leftarrow> RedisModule_Init (lw_redis w) ''unicaster'' 1 REDISMODULE_APIVER_1 (m_api m0);
       let m1 = m0\<lparr>m_api := api\<rparr>;
       if r = REDISMODULE_ERR
       then map_option (\<lambda>m2. (False, m2, [])) (cleanup_threads m1)
       else Some (set_up w m1)
     }"

text \<open>What Redis says to the registration: whether the name is still free.\<close>

definition name_free :: "'r load_world \<Rightarrow> bool" where
  "name_free w \<longleftrightarrow> \<not> ctx_busy (lw_redis w) ''unicaster''"

text \<open>What a load relies on: Redis, and libuuid, whose texts have 36 characters.\<close>

definition load_ok :: "'r load_world \<Rightarrow> bool" where
  "load_ok w \<longleftrightarrow> redis_ok (lw_redis w) \<and> length (lw_guid w) = 36"

lemma load_value:
  assumes "load_ok w"
  shows "\<exists>api. RedisModule_OnLoad w m =
     (let m1 = m\<lparr>m_guid := lw_guid w, m_api := api\<rparr>
      in if name_free w then Some (set_up w m1)
         else map_option (\<lambda>m2. (False, m2, [])) (cleanup_threads m1))"
  using init_value [of "lw_redis w" "''unicaster''" 1 REDISMODULE_APIVER_1 "m_api m"] assms
  by (auto simp: RedisModule_OnLoad_def generate_redis_guid_def name_free_def load_ok_def GUID_SIZE_def
      Let_def REDISMODULE_OK_def REDISMODULE_ERR_def)

text \<open>Redis drops the subscriptions of a module it unloads.\<close>

definition RedisModule_OnUnload :: "module \<Rightarrow> (module \<times> module_event list) option" where
  "RedisModule_OnUnload m =
     map_option (\<lambda>m1. (m1\<lparr>m_hooks := []\<rparr>, [Curl_global_cleanup]))
       (cleanup_threads m)"

section \<open>Which senders are started\<close>

definition task_for :: "int \<Rightarrow> bool \<Rightarrow> in_addr \<Rightarrow> BroadcastTask" where
  "task_for port tls addr = \<lparr>source_ip = inet_ntop addr, redis_port = port, redis_tls = tls\<rparr>"

text \<open>The thread started for an interface, when the patterns accept its address and nothing fails.\<close>

definition sender_for ::
  "udp_world \<Rightarrow> int \<Rightarrow> bool \<Rightarrow> ip_patterns \<Rightarrow> nat \<times> in_addr option \<Rightarrow> (nat \<times> BroadcastTask) option" where
  "sender_for w port tls ps ifa =
     (case ifa of
        (i, None) \<Rightarrow> None
      | (i, Some addr) \<Rightarrow>
          if ip_matches_pattern ps (inet_ntop addr) = Some True \<and> uw_task w i
          then map_option (\<lambda>tid. (tid, task_for port tls addr)) (uw_thread w i) else None)"

definition senders_for ::
  "udp_world \<Rightarrow> int \<Rightarrow> bool \<Rightarrow> ip_patterns \<Rightarrow> (nat \<times> in_addr option) list \<Rightarrow> (nat \<times> BroadcastTask) list" where
  "senders_for w port tls ps ifas = List.map_filter (sender_for w port tls ps) ifas"

lemma senders_for_simps [simp]:
  "senders_for w port tls ps [] = []"
  "senders_for w port tls ps (ifa # ifas) =
     (case sender_for w port tls ps ifa of None \<Rightarrow> [] | Some s \<Rightarrow> [s]) @ senders_for w port tls ps ifas"
  by (simp_all add: senders_for_def map_filter_simps split: option.split)

definition patterns_ok :: "ip_patterns \<Rightarrow> bool" where
  "patterns_ok ps \<longleftrightarrow> None \<notin> set ps \<and> length ps \<le> MAX_IP_PATTERNS"

lemma match_loop_total: "None \<notin> set ps \<Longrightarrow> \<exists>b. match_loop ps ip = Some b"
  by (induction ps) (auto, case_tac a, auto split: if_splits)

lemma matches_total: "patterns_ok ps \<Longrightarrow> \<exists>b. ip_matches_pattern ps ip = Some b"
  using match_loop_total [of ps ip] by (auto simp: ip_matches_pattern_def patterns_ok_def)

text \<open>The array always has room: there is one entry for each interface with an address.\<close>

definition with_senders :: "(nat \<times> BroadcastTask) list \<Rightarrow> nat \<Rightarrow> module \<Rightarrow> module" where
  "with_senders ss capacity m = m\<lparr>m_senders := ss, m_thread_count := length ss,
     m_thread_ids := Some (Block \<lparr>ta_capacity = capacity, ta_ids = map fst ss\<rparr>)\<rparr>"

lemma start_sender_value:
  assumes "patterns_ok (m_patterns m)" and "snd ifa \<noteq> None \<longrightarrow> length ss < capacity"
  shows "\<exists>es. start_sender w port tls ifa (with_senders ss capacity m) =
     Some (with_senders (ss @ (case sender_for w port tls (m_patterns m) ifa of None \<Rightarrow> [] | Some s \<Rightarrow> [s]))
             capacity m, es)"
proof (cases ifa)
  case (Pair i a)
  show ?thesis
  proof (cases a)
    case None
    with Pair show ?thesis by (simp add: start_sender_def sender_for_def)
  next
    case (Some addr)
    obtain b where b: "ip_matches_pattern (m_patterns m) (inet_ntop addr) = Some b"
      using matches_total [OF assms(1)] by blast
    have ip: "snprintf INET_ADDRSTRLEN (inet_ntop addr) = inet_ntop addr"
      by (simp add: snprintf_fits inet_ntop_length)
    have p: "m_patterns (with_senders ss capacity m) = m_patterns m" by (simp add: with_senders_def)
    show ?thesis
    proof (cases "b \<and> uw_task w i")
      case False
      with Pair Some b p show ?thesis by (cases b) (auto simp: start_sender_def sender_for_def)
    next
      case True
      show ?thesis
      proof (cases "uw_thread w i")
        case None
        with True Pair Some b p show ?thesis by (simp add: start_sender_def sender_for_def Let_def)
      next
        case (Some tid)
        have "store_thread tid (with_senders ss capacity m
              \<lparr>m_senders := ss @ [(tid, task_for port tls addr)]\<rparr>)
            = Some (with_senders (ss @ [(tid, task_for port tls addr)]) capacity m)"
          using assms(2) Pair \<open>a = Some addr\<close> by (simp add: store_thread_def with_senders_def)
        moreover have "m_senders (with_senders ss capacity m) = ss" by (simp add: with_senders_def)
        ultimately show ?thesis using True Pair \<open>a = Some addr\<close> Some b p ip
          by (simp add: start_sender_def sender_for_def task_for_def Let_def)
      qed
    qed
  qed
qed

lemma start_senders_value:
  assumes "patterns_ok (m_patterns m)"
    and "length ss + length (filter (\<lambda>ifa. snd ifa \<noteq> None) ifas) \<le> capacity"
  shows "\<exists>es. start_senders w port tls ifas (with_senders ss capacity m) =
     Some (with_senders (ss @ senders_for w port tls (m_patterns m) ifas) capacity m, es)"
  using assms(2)
proof (induction ifas arbitrary: ss)
  case Nil
  then show ?case by simp
next
  case (Cons ifa ifas)
  let ?new = "case sender_for w port tls (m_patterns m) ifa of None \<Rightarrow> [] | Some s \<Rightarrow> [s]"
  have "length ?new \<le> (if snd ifa \<noteq> None then 1 else 0)"
    by (cases ifa) (auto simp: sender_for_def split: option.split)
  with Cons.prems have room: "length (ss @ ?new) + length (filter (\<lambda>ifa. snd ifa \<noteq> None) ifas) \<le> capacity"
    "snd ifa \<noteq> None \<longrightarrow> length ss < capacity" by (auto split: if_splits)
  from start_sender_value [OF assms(1) room(2)] obtain es where
    "start_sender w port tls ifa (with_senders ss capacity m) = Some (with_senders (ss @ ?new) capacity m, es)"
    by blast
  moreover from Cons.IH [OF room(1)] obtain es' where
    "start_senders w port tls ifas (with_senders (ss @ ?new) capacity m) =
       Some (with_senders ((ss @ ?new) @ senders_for w port tls (m_patterns m) ifas) capacity m, es')" by blast
  ultimately show ?case by simp
qed

lemma senders_for_length:
  "length (senders_for w port tls ps ifas) \<le> length (filter (\<lambda>ifa. snd ifa \<noteq> None) ifas)"
proof (induction ifas)
  case (Cons ifa ifas)
  then show ?case by (cases ifa) (auto simp: sender_for_def split: option.split)
qed simp

lemma length_filter_enumerate:
  "length (filter (\<lambda>ifa. snd ifa \<noteq> None) (enumerate n xs)) = length (filter (\<lambda>x. x \<noteq> None) xs)"
  by (induction xs arbitrary: n) auto

text \<open>Memory for the copies of the patterns.\<close>

definition copies_ok :: "udp_world \<Rightarrow> bool" where
  "copies_ok w \<longleftrightarrow> uw_dup_env w \<and> (\<forall>n. uw_dup w n)"

lemma init_patterns_ok:
  "copies_ok w \<Longrightarrow> \<exists>logs ps. init_ip_patterns (uw_getenv w) (uw_dup_env w) (uw_dup w) [] = Some (logs, ps)
     \<and> patterns_ok ps \<and> (\<forall>ip. ip_matches_pattern ps ip = Some (accepts (uw_getenv w) ip))"
  using patterns_accept [of "uw_dup w" "uw_getenv w"] by (auto simp: copies_ok_def patterns_ok_def)

definition ifaddrs_balanced :: "module_event list \<Rightarrow> bool" where
  "ifaddrs_balanced es \<longleftrightarrow>
     length (filter (\<lambda>e. e = Ifaddrs_taken) es) = length (filter (\<lambda>e. e = Ifaddrs_freed) es)"

lemma start_senders_events:
  "start_senders w port tls ifas m = Some (m', es) \<Longrightarrow> Ifaddrs_taken \<notin> set es \<and> Ifaddrs_freed \<notin> set es"
proof (induction ifas arbitrary: m es)
  case (Cons ifa ifas)
  then obtain m1 es1 es2 where s: "start_sender w port tls ifa m = Some (m1, es1)"
    "start_senders w port tls ifas m1 = Some (m', es2)" "es = es1 @ es2"
    by (auto simp: bind_eq_Some_conv)
  from s(1) have "Ifaddrs_taken \<notin> set es1 \<and> Ifaddrs_freed \<notin> set es1"
    by (auto simp: start_sender_def skipping_log_def using_log_def Let_def
        split: prod.splits option.splits bool.splits if_splits)
  with Cons.IH [OF s(2)] s(3) show ?case by auto
qed simp

text \<open>The module before a start: nothing of an earlier one is left.\<close>

definition no_senders :: "module \<Rightarrow> bool" where
  "no_senders m \<longleftrightarrow>
     m_thread_ids m = None \<and> m_thread_count m = 0 \<and> m_senders m = [] \<and> m_patterns m = []"

lemma length_filter_zero: "length (filter P xs) = 0 \<longleftrightarrow> (\<forall>x\<in>set xs. \<not> P x)"
  by (simp add: filter_empty_conv)

lemma send_udp_value:
  assumes "copies_ok w" and "no_senders m"
  shows "\<exists>es. ifaddrs_balanced es \<and>
    (send_udp_message w port tls m = Some (m, es) \<and> (uw_ifaddrs w = None \<or> \<not> uw_array w
         \<or> (\<forall>ifa\<in>set (the (uw_ifaddrs w)). ifa = None))
     \<or> (\<exists>ifaddr ps capacity. uw_ifaddrs w = Some ifaddr \<and> patterns_ok ps
         \<and> (\<forall>ip. ip_matches_pattern ps ip = Some (accepts (uw_getenv w) ip))
         \<and> length (senders_for w port tls ps (enumerate 0 ifaddr)) \<le> capacity
         \<and> send_udp_message w port tls m = Some
             (with_senders (senders_for w port tls ps (enumerate 0 ifaddr)) capacity (m\<lparr>m_patterns := ps\<rparr>), es)))"
proof (cases "uw_ifaddrs w")
  case None
  with assms(2) have "send_udp_message w port tls m
      = Some (m, [warn (uw_getenv w) (''getifaddrs failed: '' @ uw_strerror w)])"
    by (cases m) (simp add: send_udp_message_def no_senders_def)
  with None show ?thesis by (intro exI [of _ "[warn (uw_getenv w) (''getifaddrs failed: '' @ uw_strerror w)]"])
      (simp add: ifaddrs_balanced_def warn_def)
next
  case (Some ifaddr)
  let ?n = "length (filter (\<lambda>ifa. ifa \<noteq> None) ifaddr)"
  have m: "m\<lparr>m_thread_count := 0\<rparr> = m" "m\<lparr>m_thread_count := 0, m_thread_ids := None\<rparr> = m"
    using assms(2) by (cases m; simp add: no_senders_def)+
  show ?thesis
  proof (cases "?n = 0 \<or> \<not> uw_array w")
    case True
    obtain e where e: "send_udp_message w port tls m = Some (m, [Ifaddrs_taken, Module_log e, Ifaddrs_freed])"
    proof (cases "?n = 0")
      case True
      then show thesis using Some m by (intro that) (simp add: send_udp_message_def Let_def)
    next
      case nonzero: False
      with True have "\<not> uw_array w" by simp
      with nonzero Some m show thesis
        by (intro that) (simp add: send_udp_message_def Let_def warn_def)
    qed
    moreover have "ifaddrs_balanced [Ifaddrs_taken, Module_log e, Ifaddrs_freed]"
      by (simp add: ifaddrs_balanced_def)
    moreover have "\<not> uw_array w \<or> (\<forall>ifa\<in>set (the (uw_ifaddrs w)). ifa = None)"
      using True Some unfolding length_filter_zero by auto
    ultimately show ?thesis by blast
  next
    case False
    from init_patterns_ok [OF assms(1)] obtain logs ps where
      i: "init_ip_patterns (uw_getenv w) (uw_dup_env w) (uw_dup w) [] = Some (logs, ps)" "patterns_ok ps"
        "\<forall>ip. ip_matches_pattern ps ip = Some (accepts (uw_getenv w) ip)" by blast
    have pats: "m_patterns m = []" using assms(2) by (simp add: no_senders_def)
    have m0: "m\<lparr>m_thread_ids := Some (Block \<lparr>ta_capacity = k, ta_ids = []\<rparr>), m_patterns := ps\<rparr>
        = with_senders [] k (m\<lparr>m_patterns := ps\<rparr>)" for k
      using assms(2) by (cases m) (simp add: with_senders_def no_senders_def)
    let ?ss = "senders_for w port tls ps (enumerate 0 ifaddr)"
    have n: "length ([] :: (nat \<times> BroadcastTask) list)
        + length (filter (\<lambda>ifa. snd ifa \<noteq> None) (enumerate 0 ifaddr)) \<le> ?n"
      unfolding length_filter_enumerate by simp
    have "patterns_ok (m_patterns (m\<lparr>m_patterns := ps\<rparr>))" using i(2) by simp
    from start_senders_value [OF this n, of w port tls] obtain es where st: "start_senders w port tls (enumerate 0 ifaddr) (with_senders [] ?n (m\<lparr>m_patterns := ps\<rparr>))
        = Some (with_senders ?ss ?n (m\<lparr>m_patterns := ps\<rparr>), es)"
      by auto
    have "length ?ss \<le> length (filter (\<lambda>ifa. snd ifa \<noteq> None) (enumerate 0 ifaddr))"
      by (rule senders_for_length)
    then have cap: "length ?ss \<le> ?n" unfolding length_filter_enumerate .
    let ?tail = "if m_thread_count (with_senders ?ss ?n (m\<lparr>m_patterns := ps\<rparr>)) = 0
        \<and> length (m_patterns (with_senders ?ss ?n (m\<lparr>m_patterns := ps\<rparr>))) > 0
      then [no_match_text (uw_getenv w)] else []"
    have "send_udp_message w port tls m = Some (with_senders ?ss ?n (m\<lparr>m_patterns := ps\<rparr>),
        Ifaddrs_taken # map Module_log logs @ es @ ?tail @ [Ifaddrs_freed])"
      using False Some i(1) st by (simp add: send_udp_message_def Let_def m m0 pats)
    moreover have "filter (\<lambda>e. e = Ifaddrs_taken) es = []" "filter (\<lambda>e. e = Ifaddrs_freed) es = []"
      using start_senders_events [OF st] by (auto simp: filter_empty_conv)
    then have "ifaddrs_balanced (Ifaddrs_taken # map Module_log logs @ es @ ?tail @ [Ifaddrs_freed])"
      by (auto simp: ifaddrs_balanced_def no_match_text_def filter_map comp_def filter_empty_conv)
    ultimately show ?thesis using Some i cap by blast
  qed
qed

definition array_matches :: "module \<Rightarrow> bool" where
  "array_matches m \<longleftrightarrow>
     (case m_thread_ids m of
        None \<Rightarrow> m_senders m = [] \<and> m_thread_count m = 0
      | Some Freed \<Rightarrow> False
      | Some (Block a) \<Rightarrow> ta_ids a = map fst (m_senders m) \<and> m_thread_count m = length (ta_ids a)
          \<and> length (ta_ids a) \<le> ta_capacity a)"

lemma senders_for_accepted:
  assumes "\<forall>ip. ip_matches_pattern ps ip = Some (accepts env ip)"
    and "s \<in> set (senders_for w port tls ps (enumerate n ifaddr))"
  shows "\<exists>addr. Some addr \<in> set ifaddr \<and> accepts env (inet_ntop addr) \<and> snd s = task_for port tls addr"
  using assms(2)
proof (induction ifaddr arbitrary: n)
  case (Cons ifa ifaddr)
  then consider "sender_for w port tls ps (n, ifa) = Some s"
    | "s \<in> set (senders_for w port tls ps (enumerate (Suc n) ifaddr))"
    by (auto split: option.splits)
  then show ?case
  proof cases
    case 1
    then show ?thesis using assms(1) by (auto simp: sender_for_def split: option.splits if_splits)
  next
    case 2
    from Cons.IH [OF this] show ?thesis by auto
  qed
qed simp

lemma senders_for_all:
  assumes "\<forall>ip. ip_matches_pattern ps ip = Some (accepts env ip)"
    and "\<forall>i. uw_task w i \<and> uw_thread w i \<noteq> None"
  shows "map snd (senders_for w port tls ps (enumerate n ifaddr))
     = map (task_for port tls) (filter (\<lambda>a. accepts env (inet_ntop a)) (List.map_filter id ifaddr))"
proof (induction ifaddr arbitrary: n)
  case (Cons ifa ifaddr)
  from assms(2) obtain tid where "uw_thread w n = Some tid" by auto
  with Cons assms show ?case
    by (cases ifa) (auto simp: sender_for_def map_filter_simps)
qed (simp add: map_filter_simps)

lemma send_udp_senders:
  assumes "copies_ok w" and "no_senders m"
  shows "\<exists>m' es. send_udp_message w port tls m = Some (m', es) \<and> ifaddrs_balanced es \<and> array_matches m'
     \<and> (\<forall>s\<in>set (m_senders m'). \<exists>addr. Some addr \<in> set (the (uw_ifaddrs w))
          \<and> accepts (uw_getenv w) (inet_ntop addr) \<and> snd s = task_for port tls addr)
     \<and> (uw_ifaddrs w \<noteq> None \<and> uw_array w \<and> (\<forall>i. uw_task w i \<and> uw_thread w i \<noteq> None) \<longrightarrow>
          map snd (m_senders m') = map (task_for port tls)
            (filter (\<lambda>a. accepts (uw_getenv w) (inet_ntop a)) (List.map_filter id (the (uw_ifaddrs w)))))"
proof -
  from send_udp_value [OF assms, of port tls] obtain es where es: "ifaddrs_balanced es" and
    "send_udp_message w port tls m = Some (m, es) \<and> (uw_ifaddrs w = None \<or> \<not> uw_array w
         \<or> (\<forall>ifa\<in>set (the (uw_ifaddrs w)). ifa = None))
     \<or> (\<exists>ifaddr ps capacity. uw_ifaddrs w = Some ifaddr \<and> patterns_ok ps
         \<and> (\<forall>ip. ip_matches_pattern ps ip = Some (accepts (uw_getenv w) ip))
         \<and> length (senders_for w port tls ps (enumerate 0 ifaddr)) \<le> capacity
         \<and> send_udp_message w port tls m = Some
             (with_senders (senders_for w port tls ps (enumerate 0 ifaddr)) capacity (m\<lparr>m_patterns := ps\<rparr>), es))"
    by blast
  then consider
    (idle) "send_udp_message w port tls m = Some (m, es)"
      "uw_ifaddrs w = None \<or> \<not> uw_array w \<or> (\<forall>ifa\<in>set (the (uw_ifaddrs w)). ifa = None)"
    | (started) ifaddr ps capacity where "uw_ifaddrs w = Some ifaddr"
      "\<forall>ip. ip_matches_pattern ps ip = Some (accepts (uw_getenv w) ip)"
      "length (senders_for w port tls ps (enumerate 0 ifaddr)) \<le> capacity"
      "send_udp_message w port tls m = Some
         (with_senders (senders_for w port tls ps (enumerate 0 ifaddr)) capacity (m\<lparr>m_patterns := ps\<rparr>), es)"
    by blast
  then show ?thesis
  proof cases
    case idle
    have "List.map_filter id (the (uw_ifaddrs w)) = []" if "\<forall>ifa\<in>set (the (uw_ifaddrs w)). ifa = None"
      using that by (auto simp: map_filter_def filter_empty_conv)
    with idle es assms(2) show ?thesis by (auto simp: no_senders_def array_matches_def)
  next
    case started
    let ?m = "with_senders (senders_for w port tls ps (enumerate 0 ifaddr)) capacity (m\<lparr>m_patterns := ps\<rparr>)"
    have m: "m_senders ?m = senders_for w port tls ps (enumerate 0 ifaddr)" "array_matches ?m"
      using started(3) by (auto simp: with_senders_def array_matches_def)
    show ?thesis
    proof (rule exI [of _ ?m], rule exI [of _ es], intro conjI)
      show "\<forall>s\<in>set (m_senders ?m). \<exists>addr. Some addr \<in> set (the (uw_ifaddrs w))
          \<and> accepts (uw_getenv w) (inet_ntop addr) \<and> snd s = task_for port tls addr"
        using senders_for_accepted [OF started(2)] started(1) by (auto simp: m)
      show "uw_ifaddrs w \<noteq> None \<and> uw_array w \<and> (\<forall>i. uw_task w i \<and> uw_thread w i \<noteq> None) \<longrightarrow>
          map snd (m_senders ?m) = map (task_for port tls)
            (filter (\<lambda>a. accepts (uw_getenv w) (inet_ntop a)) (List.map_filter id (the (uw_ifaddrs w))))"
        using senders_for_all [OF started(2), of w port tls 0 ifaddr] started(1) by (auto simp: m)
    qed (use started(4) es m in auto)
  qed
qed

text \<open>
  C14. One sender per selected interface. From a module without senders, and with memory for the
  patterns, starting never writes past the array of thread ids, whatever the interfaces are and
  whichever allocations and thread creations fail; every sender announces an IPv4 address of
  the host that SELECTED_INTERFACES accepts, with the resolved port; when nothing fails there
  is exactly one for each such address, in order; and the interface list is freed on every path.
\<close>

theorem senders_cover_selected_interfaces:
  assumes "copies_ok w" and "no_senders m"
  shows "\<exists>m' es. send_udp_message w port tls m = Some (m', es) \<and> ifaddrs_balanced es \<and> array_matches m'
     \<and> (\<forall>s\<in>set (m_senders m'). \<exists>addr. Some addr \<in> set (the (uw_ifaddrs w))
          \<and> accepts (uw_getenv w) (inet_ntop addr) \<and> snd s = task_for port tls addr)
     \<and> (uw_ifaddrs w \<noteq> None \<and> uw_array w \<and> (\<forall>i. uw_task w i \<and> uw_thread w i \<noteq> None) \<longrightarrow>
          map snd (m_senders m') = map (task_for port tls)
            (filter (\<lambda>a. accepts (uw_getenv w) (inet_ntop a)) (List.map_filter id (the (uw_ifaddrs w)))))"
  using assms by (rule send_udp_senders)

text \<open>A host with the loopback and one selected address.\<close>

definition demo_udp :: udp_world where
  "demo_udp = \<lparr>uw_getenv = (\<lambda>v. if v = ''SELECTED_INTERFACES'' then Some ''10.'' else None),
     uw_ifaddrs = Some [Some (In_addr 127 0 0 1), None, Some (In_addr 10 0 0 1)], uw_strerror = [],
     uw_array = True, uw_dup_env = True, uw_dup = (\<lambda>_. True), uw_task = (\<lambda>_. True), uw_thread = Some\<rparr>"

lemma senders_cover_selected_interfaces_witness:
  "\<exists>m' es. send_udp_message demo_udp 6379 False initial_module = Some (m', es)
     \<and> map (\<lambda>s. source_ip (snd s)) (m_senders m') = [''10.0.0.1'']"
proof -
  have a: "accepts (uw_getenv demo_udp) (inet_ntop (In_addr 127 0 0 1)) = False"
    "accepts (uw_getenv demo_udp) (inet_ntop (In_addr 10 0 0 1)) = True"
    "inet_ntop (In_addr 10 0 0 1) = ''10.0.0.1''" by code_simp+
  have "copies_ok demo_udp" "no_senders initial_module"
    by (simp_all add: copies_ok_def demo_udp_def no_senders_def initial_module_def)
  from senders_cover_selected_interfaces [OF this, of 6379 False] obtain m' es where
    r: "send_udp_message demo_udp 6379 False initial_module = Some (m', es)" and
    "uw_ifaddrs demo_udp \<noteq> None \<and> uw_array demo_udp \<and> (\<forall>i. uw_task demo_udp i \<and> uw_thread demo_udp i \<noteq> None) \<longrightarrow>
       map snd (m_senders m') = map (task_for 6379 False)
         (filter (\<lambda>a. accepts (uw_getenv demo_udp) (inet_ntop a)) (List.map_filter id (the (uw_ifaddrs demo_udp))))"
    by blast
  moreover have "List.map_filter id (the (uw_ifaddrs demo_udp)) = [In_addr 127 0 0 1, In_addr 10 0 0 1]"
    by (simp add: demo_udp_def map_filter_simps)
  ultimately have "map snd (m_senders m') = [task_for 6379 False (In_addr 10 0 0 1)]"
    using a(1,2) by (simp del: inet_ntop.simps) (simp add: demo_udp_def)
  then have "map source_ip (map snd (m_senders m')) = [''10.0.0.1'']"
    by (simp only: list.map task_for_def) (simp only: BroadcastTask.select_convs a(3))
  with r show ?thesis by (simp add: comp_def)
qed

end
