(* ===== verification/Module_System.thy ===== *)
theory Module_System
  imports Module_Lifecycle
begin

text \<open>
  The module under Redis: which handler runs when, the invariant over every sequence of loads,
  cron ticks, shutdowns and unloads, and what follows of it.
\<close>

section \<open>The system\<close>

text \<open>
  Redis calls a hook while the module is loaded and the subscription stands; it refuses a second
  \<open>MODULE LOAD\<close> of the same name in \<open>RedisModule_Init\<close>. A shared object that is loaded again
  keeps its file-scope variables. \<open>apis\<close> are the configurations the loads may find. Between the
  handlers the threads use the cache (theories \<open>Cache_Threads\<close>, \<open>Refresher\<close>, \<open>Sender\<close>), as
  long as the refresh thread runs.
\<close>

record module_sys =
  ms_loaded :: bool
  ms_module :: module

definition drop_hooks :: "module \<Rightarrow> module" where
  "drop_hooks m = m\<lparr>m_hooks := []\<rparr>"

text \<open>\<open>pthread_create\<close> gives different threads different identifiers.\<close>

definition new_threads :: "udp_world \<Rightarrow> bool" where
  "new_threads w \<longleftrightarrow> (\<forall>i j t. uw_thread w i = Some t \<longrightarrow> uw_thread w j = Some t \<longrightarrow> i = j)"

inductive module_step :: "(nat \<Rightarrow> 'r reply_api) \<Rightarrow> module_sys \<Rightarrow> module_sys \<Rightarrow> bool"
  for apis :: "nat \<Rightarrow> 'r reply_api" where
  module_load: "\<not> ms_loaded s \<Longrightarrow> lw_api w = apis n \<Longrightarrow> load_ok w \<Longrightarrow>
    RedisModule_OnLoad w (ms_module s) = Some (ok, m', es) \<Longrightarrow>
    module_step apis s \<lparr>ms_loaded = ok, ms_module = (if ok then m' else drop_hooks m')\<rparr>"
| module_load_again: "ms_loaded s \<Longrightarrow> lw_api w = apis n \<Longrightarrow> load_ok w \<Longrightarrow>
    \<not> name_free w \<Longrightarrow>
    RedisModule_OnLoad w (ms_module s) = Some (ok, m', es) \<Longrightarrow>
    module_step apis s (s\<lparr>ms_module := m'\<rparr>)"
| module_cron: "ms_loaded s \<Longrightarrow> m_cron_hook (ms_module s) \<Longrightarrow>
    copies_ok (sw_udp w) \<Longrightarrow> new_threads (sw_udp w) \<Longrightarrow>
    cron_broadcast_once w (ms_module s) = Some (m', es) \<Longrightarrow>
    module_step apis s (s\<lparr>ms_module := m'\<rparr>)"
| module_shutdown: "ms_loaded s \<Longrightarrow> m_shutdown_hook (ms_module s) \<Longrightarrow>
    shutdown_callback (ms_module s) = Some m' \<Longrightarrow>
    module_step apis s (s\<lparr>ms_module := m'\<rparr>)"
| module_unload: "ms_loaded s \<Longrightarrow>
    RedisModule_OnUnload (ms_module s) = Some (m', es) \<Longrightarrow>
    module_step apis s \<lparr>ms_loaded = False, ms_module = m'\<rparr>"
| module_threads: "refresher_running (m_cache (ms_module s)) \<Longrightarrow>
    cache_inv (\<lambda>_. 0) {} {} c \<Longrightarrow> refresher_running c \<Longrightarrow> client c \<noteq> None \<Longrightarrow>
    module_step apis s (s\<lparr>ms_module := (ms_module s)\<lparr>m_cache := c\<rparr>\<rparr>)"

definition module_start :: "module_sys \<Rightarrow> bool" where
  "module_start s \<longleftrightarrow> s = \<lparr>ms_loaded = False, ms_module = initial_module\<rparr>"

section \<open>The invariant\<close>

definition cache_off :: "cache \<Rightarrow> bool" where
  "cache_off c \<longleftrightarrow> snapshots c = (\<lambda>_. None) \<and> lists c = (\<lambda>_. None) \<and> current c = None
     \<and> client c = None \<and> \<not> refresher_running c"

text \<open>Nothing of the module runs and nothing it allocated is left.\<close>

definition clean :: "module \<Rightarrow> bool" where
  "clean m \<longleftrightarrow> no_senders m \<and> cache_off (m_cache m)"

lemmas clean_defs [module_simps] = clean_def no_senders_def

definition module_ok :: "module \<Rightarrow> bool" where
  "module_ok m \<longleftrightarrow>
     array_matches m \<and> distinct (map fst (m_senders m)) \<and> cache_inv (\<lambda>_. 0) {} {} (m_cache m)
     \<and> (m_senders m \<noteq> [] \<longrightarrow> refresher_running (m_cache m))
     \<and> (refresher_running (m_cache m) \<longrightarrow> client (m_cache m) \<noteq> None)
     \<and> (\<not> m_announced m \<or> is_closing (m_signal m) \<longrightarrow> clean m)"

definition module_inv :: "module_sys \<Rightarrow> bool" where
  "module_inv s \<longleftrightarrow> module_ok (ms_module s)
     \<and> (\<not> ms_loaded s \<longrightarrow> clean (ms_module s) \<and> m_hooks (ms_module s) = [])"

lemma cache_off_inv: "cache_off c \<Longrightarrow> cache_inv (\<lambda>_. 0) {} {} c"
proof -
  assume "cache_off c"
  then have "list_of c = Map.empty" "lists c = Map.empty" "snapshots c = (\<lambda>_. None)" "current c = None"
    by (simp_all add: cache_off_def list_of_def fun_eq_iff)
  then show ?thesis by (simp add: cache_inv_def refs_exact_def alive_def lists_owned_def)
qed

lemma clean_ok: "clean m \<Longrightarrow> module_ok m"
  using cache_off_inv [of "m_cache m"]
  by (auto simp: clean_def module_ok_def no_senders_def array_matches_def cache_off_def)

lemma initial_clean: "clean initial_module"
  by (simp add: clean_def initial_module_def no_senders_def cache_off_def empty_cache_def)

section \<open>Stopping\<close>

lemma array_matches_frame [simp]:
  "array_matches (m\<lparr>m_signal := x1\<rparr>) = array_matches m"
  "array_matches (m\<lparr>m_cache := x2\<rparr>) = array_matches m"
  "array_matches (m\<lparr>m_announced := x3\<rparr>) = array_matches m"
  "array_matches (m\<lparr>m_patterns := x4\<rparr>) = array_matches m"
  "array_matches (m\<lparr>m_guid := x5\<rparr>) = array_matches m"
  "array_matches (m\<lparr>m_api := x8\<rparr>) = array_matches m"
  "array_matches (m\<lparr>m_hooks := x6\<rparr>) = array_matches m"
  by (simp_all add: array_matches_def split: option.split thread_block.split)

lemma join_all:
  "array_matches m \<Longrightarrow> \<exists>m1. join_threads m = Some m1 \<and> m1 = m\<lparr>m_senders := []\<rparr>"
  by (cases m) (auto simp: join_threads_def array_matches_def split: option.splits thread_block.splits)

text \<open>The array is freed when there is one, and is never one that was freed before.\<close>

lemma free_array:
  assumes "array_matches m"
  shows "\<exists>p. free_thread_ids (m\<lparr>m_senders := []\<rparr>) = Some (m\<lparr>m_senders := [], m_thread_ids := p\<rparr>)"
  using assms
  by (cases m) (auto simp: free_thread_ids_def array_matches_def split: option.splits thread_block.splits)

lemma cleanup_value:
  assumes "array_matches m" and "cache_inv (\<lambda>_. 0) {} {} (m_cache m)"
  shows "\<exists>c. cleanup_threads m = Some (m\<lparr>m_signal := closing_begin (m_signal m), m_senders := [],
       m_thread_ids := None, m_thread_count := 0, m_cache := c, m_patterns := []\<rparr>)
     \<and> cache_off c \<and> max_age c = max_age (m_cache m)"
proof -
  have "array_matches (m\<lparr>m_signal := closing_begin (m_signal m)\<rparr>)"
    using assms(1) by simp
  from join_all [OF this] have j: "join_threads (m\<lparr>m_signal := closing_begin (m_signal m)\<rparr>)
      = Some (m\<lparr>m_signal := closing_begin (m_signal m), m_senders := []\<rparr>)" by blast
  from free_array [OF \<open>array_matches (m\<lparr>m_signal := closing_begin (m_signal m)\<rparr>)\<close>] obtain p where
    f: "free_thread_ids (m\<lparr>m_signal := closing_begin (m_signal m), m_senders := []\<rparr>)
      = Some (m\<lparr>m_signal := closing_begin (m_signal m), m_senders := [], m_thread_ids := p\<rparr>)" by blast
  from stop_frees [OF assms(2)] obtain c where
    "pod_cache_stop (m_cache m) = Some c" "cache_off c" "max_age c = max_age (m_cache m)"
    unfolding cache_off_def by blast
  with j f show ?thesis by (auto simp: cleanup_threads_def cleanup_ip_patterns_def Let_def)
qed

text \<open>What a cleanup leaves, whatever the module was doing.\<close>

lemma cleanup_clean:
  assumes "module_ok m"
  shows "\<exists>m'. cleanup_threads m = Some m' \<and> clean m' \<and> is_closing (m_signal m')
     \<and> m_announced m' = m_announced m \<and> m_guid m' = m_guid m \<and> m_hooks m' = m_hooks m"
proof -
  from assms have "array_matches m" "cache_inv (\<lambda>_. 0) {} {} (m_cache m)"
    by (simp_all add: module_ok_def)
  from cleanup_value [OF this] show ?thesis by (auto simp: module_simps)
qed

section \<open>Starting\<close>

lemma senders_for_threads:
  assumes "new_threads w"
  shows "distinct (map fst (senders_for w port tls ps (enumerate n ifaddr)))
     \<and> (\<forall>t\<in>set (map fst (senders_for w port tls ps (enumerate n ifaddr))). \<exists>i\<ge>n. uw_thread w i = Some t)"
proof (induction ifaddr arbitrary: n)
  case (Cons ifa ifaddr)
  note IH = Cons.IH [of "Suc n"]
  show ?case
  proof (cases "sender_for w port tls ps (n, ifa)")
    case None
    with IH show ?thesis by (auto simp: Suc_le_eq dest: less_imp_le)
  next
    case (Some s)
    then have s: "uw_thread w n = Some (fst s)"
      by (auto simp: sender_for_def split: option.splits if_splits)
    have "fst s \<notin> set (map fst (senders_for w port tls ps (enumerate (Suc n) ifaddr)))"
    proof
      assume "fst s \<in> set (map fst (senders_for w port tls ps (enumerate (Suc n) ifaddr)))"
      with IH obtain i where "Suc n \<le> i" "uw_thread w i = Some (fst s)" by blast
      with s assms have "i = n" unfolding new_threads_def by blast
      with \<open>Suc n \<le> i\<close> show False by simp
    qed
    moreover have "\<exists>i\<ge>n. uw_thread w i = Some t"
      if "t \<in> set (map fst (senders_for w port tls ps (enumerate (Suc n) ifaddr)))" for t
      using IH that by (meson Suc_leD)
    ultimately show ?thesis using IH Some s by auto
  qed
qed simp

lemma start_cache:
  assumes "cache_off c"
  shows "\<exists>ok c'. pod_cache_start env mem init thr c = (ok, c') \<and> cache_inv (\<lambda>_. 0) {} {} c'
     \<and> (if ok then refresher_running c' \<and> client c' \<noteq> None else cache_off c')"
proof -
  have inv: "cache_inv (\<lambda>_. 0) {} {} c" using assms by (rule cache_off_inv)
  have off: "cache_off (c\<lparr>max_age := n, client := None\<rparr>)" for n
    using assms by (simp add: cache_off_def)
  show ?thesis
    using assms inv off [of "get_pods_max_age env"]
    by (auto simp: pod_cache_start_def pod_list_client_create_def pod_list_client_destroy_def
        cache_off_def Let_def)
qed

text \<open>What a start leaves, apart from the senders, the array, the patterns and the cache.\<close>

definition same_module :: "module \<Rightarrow> module \<Rightarrow> bool" where
  "same_module m m' \<longleftrightarrow> m_announced m' = m_announced m \<and> m_signal m' = m_signal m
     \<and> m_hooks m' = m_hooks m \<and> m_guid m' = m_guid m"

lemma same_module_simps [simp]:
  "same_module m m" "same_module m (m\<lparr>m_cache := c\<rparr>)" "same_module m (m\<lparr>m_patterns := ps\<rparr>)"
  "same_module m (with_senders ss k (m\<lparr>m_patterns := ps\<rparr>))"
  by (simp_all add: same_module_def with_senders_def)

lemma send_udp_ok:
  assumes "copies_ok w" and "no_senders m" and "new_threads w"
  shows "\<exists>m' es. send_udp_message w port tls m = Some (m', es) \<and> array_matches m'
     \<and> distinct (map fst (m_senders m')) \<and> m_cache m' = m_cache m \<and> same_module m m'"
proof -
  from send_udp_value [OF assms(1,2), of port tls] consider
    (idle) es where "send_udp_message w port tls m = Some (m, es)"
    | (started) es ifaddr ps capacity where
      "length (senders_for w port tls ps (enumerate 0 ifaddr)) \<le> capacity"
      "send_udp_message w port tls m = Some
         (with_senders (senders_for w port tls ps (enumerate 0 ifaddr)) capacity (m\<lparr>m_patterns := ps\<rparr>), es)"
    by blast
  then show ?thesis
  proof cases
    case idle
    with assms(2) show ?thesis by (auto simp: no_senders_def array_matches_def)
  next
    case started
    with senders_for_threads [OF assms(3), of port tls ps 0 ifaddr] show ?thesis
      by (auto simp: array_matches_def with_senders_def same_module_def)
  qed
qed

lemma start_value:
  assumes "clean m" and "copies_ok (sw_udp w)" and "new_threads (sw_udp w)"
  shows "\<exists>m' es. start_broadcasting w m = Some (m', es) \<and> array_matches m'
     \<and> distinct (map fst (m_senders m')) \<and> cache_inv (\<lambda>_. 0) {} {} (m_cache m')
     \<and> (m_senders m' \<noteq> [] \<longrightarrow> refresher_running (m_cache m'))
     \<and> (refresher_running (m_cache m') \<longrightarrow> client (m_cache m') \<noteq> None) \<and> same_module m m'"
proof -
  from assms(1) have off: "cache_off (m_cache m)" "no_senders m" by (simp_all add: clean_def)
  from start_cache [OF off(1)] obtain ok c where
    s: "pod_cache_start (uw_getenv (sw_udp w)) (sw_malloc w) (sw_curl_init w) (sw_refresher w) (m_cache m)
          = (ok, c)" "cache_inv (\<lambda>_. 0) {} {} c"
       "if ok then refresher_running c \<and> client c \<noteq> None else cache_off c" by blast
  have m1: "no_senders (m\<lparr>m_cache := c\<rparr>)" using off(2) by (simp add: no_senders_def)
  show ?thesis
  proof (cases ok)
    case False
    with s off(2) show ?thesis
      by (simp add: start_broadcasting_def Let_def no_senders_def array_matches_def cache_off_def)
  next
    case True
    from send_udp_ok [OF assms(2) m1 assms(3), of "m_port m" "m_tls m"] obtain m' es where
      "send_udp_message (sw_udp w) (m_port m) (m_tls m) (m\<lparr>m_cache := c\<rparr>) = Some (m', es)"
      "array_matches m'" "distinct (map fst (m_senders m'))" "m_cache m' = c"
      "same_module (m\<lparr>m_cache := c\<rparr>) m'" by auto
    with True s show ?thesis by (simp add: start_broadcasting_def Let_def same_module_def)
  qed
qed

section \<open>Every handler keeps the invariant and never faults\<close>

lemma cron_ok:
  assumes "module_ok m" and "copies_ok (sw_udp w)" and "new_threads (sw_udp w)"
  shows "\<exists>m' es. cron_broadcast_once w m = Some (m', es) \<and> module_ok m'
     \<and> (m_announced m' \<or> is_closing (m_signal m'))"
proof (cases "m_announced m \<or> is_closing (m_signal m)")
  case True
  with assms(1) show ?thesis by (simp add: cron_broadcast_once_def)
next
  case False
  with assms(1) have "clean (m\<lparr>m_announced := True\<rparr>)"
    by (auto simp: module_ok_def module_simps)
  from start_value [OF this assms(2,3)] False show ?thesis
    by (auto simp: cron_broadcast_once_def module_ok_def same_module_def)
qed

text \<open>A tick that goes through logs that it announces.\<close>

lemma start_logs: "start_broadcasting w m = Some (m', es) \<Longrightarrow> es \<noteq> []"
  by (auto simp: start_broadcasting_def Let_def split: prod.splits if_splits)

lemma cron_announces:
  assumes "cron_broadcast_once w m = Some (m', es)" and "module_ok m"
    and "copies_ok (sw_udp w)" and "new_threads (sw_udp w)"
  shows "\<not> m_announced m \<and> \<not> is_closing (m_signal m) \<longrightarrow> m_announced m' \<and> es \<noteq> []"
proof
  assume open_module: "\<not> m_announced m \<and> \<not> is_closing (m_signal m)"
  with assms(2) have "clean (m\<lparr>m_announced := True\<rparr>)" by (auto simp: module_ok_def module_simps)
  from start_value [OF this assms(3,4)] open_module assms(1) start_logs show "m_announced m' \<and> es \<noteq> []"
    by (auto simp: cron_broadcast_once_def same_module_def)
qed

text \<open>The senders the first tick starts when nothing fails.\<close>

lemma cron_senders:
  assumes "clean m" and "\<not> m_announced m" and "\<not> is_closing (m_signal m)"
    and "sw_malloc w" and "sw_curl_init w" and "sw_refresher w"
    and "copies_ok (sw_udp w)" and "uw_ifaddrs (sw_udp w) \<noteq> None" and "uw_array (sw_udp w)"
    and "\<forall>i. uw_task (sw_udp w) i \<and> uw_thread (sw_udp w) i \<noteq> None"
  shows "\<exists>m' es. cron_broadcast_once w m = Some (m', es)
     \<and> map snd (m_senders m') = map (task_for (m_port m) (m_tls m))
         (filter (\<lambda>a. accepts (uw_getenv (sw_udp w)) (inet_ntop a))
            (List.map_filter id (the (uw_ifaddrs (sw_udp w)))))"
proof -
  have "\<not> refresher_running (m_cache m)" using assms(1) by (simp add: clean_def cache_off_def)
  then obtain c where c: "pod_cache_start (uw_getenv (sw_udp w)) (sw_malloc w) (sw_curl_init w)
      (sw_refresher w) (m_cache m) = (True, c)"
    using assms(4-6) by (simp add: pod_cache_start_def pod_list_client_create_def Let_def)
  have "no_senders (m\<lparr>m_announced := True, m_cache := c\<rparr>)"
    using assms(1) by (simp add: module_simps)
  from send_udp_senders [OF assms(7) this, of "m_port m" "m_tls m"] assms(8-10) obtain m' es where
    "send_udp_message (sw_udp w) (m_port m) (m_tls m) (m\<lparr>m_announced := True, m_cache := c\<rparr>) = Some (m', es)"
    "map snd (m_senders m') = map (task_for (m_port m) (m_tls m))
       (filter (\<lambda>a. accepts (uw_getenv (sw_udp w)) (inet_ntop a))
          (List.map_filter id (the (uw_ifaddrs (sw_udp w)))))" by blast
  with c assms(2,3) show ?thesis by (simp add: cron_broadcast_once_def start_broadcasting_def Let_def)
qed

text \<open>The identifier and the pointers of the API are nothing the handlers depend on.\<close>

lemma registered_ok:
  "module_ok (m\<lparr>m_guid := g, m_api := api\<rparr>) = module_ok m" "clean (m\<lparr>m_guid := g, m_api := api\<rparr>) = clean m"
  by (simp_all add: module_ok_def module_simps)

lemma set_up_clean: "clean m \<Longrightarrow> clean (fst (snd (set_up w m)))"
  by (simp add: set_up_def subscribe_def module_simps Let_def split: prod.split)

lemma load_ok:
  assumes "module_ok m" and "load_ok w" and "name_free w \<longrightarrow> clean m"
  shows "\<exists>ok m' es. RedisModule_OnLoad w m = Some (ok, m', es) \<and> module_ok m'
     \<and> (name_free w \<or> clean m' \<and> \<not> ok \<and> is_closing (m_signal m'))
     \<and> (\<not> ok \<longrightarrow> clean m')"
proof -
  from load_value [OF assms(2)] obtain api where l: "RedisModule_OnLoad w m =
     (let m1 = m\<lparr>m_guid := lw_guid w, m_api := api\<rparr>
      in if name_free w then Some (set_up w m1)
         else map_option (\<lambda>m2. (False, m2, [])) (cleanup_threads m1))" by blast
  let ?m = "m\<lparr>m_guid := lw_guid w, m_api := api\<rparr>"
  have ok: "module_ok ?m" using assms(1) by (simp only: registered_ok)
  show ?thesis
  proof (cases "name_free w")
    case False
    from cleanup_clean [OF ok] obtain m' where
      "cleanup_threads ?m = Some m'" "clean m'" "is_closing (m_signal m')" by blast
    with False l clean_ok [OF this(2)] show ?thesis by auto
  next
    case True
    with assms(3) have "clean ?m" by (simp only: registered_ok)
    from set_up_clean [OF this, of w] True l clean_ok show ?thesis
      by (cases "set_up w ?m") auto
  qed
qed

lemma drop_hooks_ok: "module_ok m \<Longrightarrow> module_ok (drop_hooks m)" "clean m \<Longrightarrow> clean (drop_hooks m)"
  by (simp_all add: module_ok_def module_simps drop_hooks_def)

lemma drop_hooks_simps [simp]: "m_hooks (drop_hooks m) = []"
  by (simp add: drop_hooks_def)

lemma unload_ok:
  assumes "module_ok m"
  shows "\<exists>m'. RedisModule_OnUnload m = Some (m', [Curl_global_cleanup]) \<and> clean m'
     \<and> is_closing (m_signal m') \<and> m_hooks m' = []"
proof -
  from cleanup_clean [OF assms] obtain m1 where c: "cleanup_threads m = Some m1" "clean m1"
    "is_closing (m_signal m1)" by blast
  have "clean (drop_hooks m1)" using c(2) by (rule drop_hooks_ok)
  then show ?thesis using c(1,3) by (simp add: RedisModule_OnUnload_def drop_hooks_def)
qed

lemma module_step_inv: "module_step apis s s' \<Longrightarrow> module_inv s \<Longrightarrow> module_inv s'"
proof (induction rule: module_step.induct)
  case (module_load s w n ok m' es)
  then have "module_ok (ms_module s)" "clean (ms_module s)" by (simp_all add: module_inv_def)
  from load_ok [OF this(1) module_load(3)] this(2) module_load(4) show ?case
    by (auto simp: module_inv_def drop_hooks_ok)
next
  case (module_load_again s w n ok m' es)
  then have "module_ok (ms_module s)" by (simp add: module_inv_def)
  from load_ok [OF this module_load_again(3)] module_load_again show ?case by (auto simp: module_inv_def)
next
  case (module_cron s w m' es)
  then have "module_ok (ms_module s)" by (simp add: module_inv_def)
  from cron_ok [OF this module_cron(3,4)] module_cron show ?case by (auto simp: module_inv_def)
next
  case (module_shutdown s m')
  then have "module_ok (ms_module s)" by (simp add: module_inv_def)
  from cleanup_clean [OF this] module_shutdown clean_ok show ?case
    by (auto simp: module_inv_def shutdown_callback_def)
next
  case (module_unload s m' es)
  then have "module_ok (ms_module s)" by (simp add: module_inv_def)
  from unload_ok [OF this] module_unload clean_ok show ?case by (auto simp: module_inv_def)
next
  case (module_threads s c)
  then have "\<not> clean (ms_module s)" by (simp add: clean_def cache_off_def)
  with module_threads show ?case
    by (auto simp: module_inv_def module_ok_def clean_def)
qed

lemma module_start_inv: "module_start s \<Longrightarrow> module_inv s"
  using initial_clean clean_ok [OF initial_clean]
  by (simp add: module_start_def module_inv_def) (simp add: initial_module_def)

interpretation module_system: invariant_system module_start "module_step apis" module_inv
  for apis :: "nat \<Rightarrow> 'r reply_api"
  by unfold_locales (auto intro: module_start_inv module_step_inv)

abbreviation module_reachable :: "(nat \<Rightarrow> 'r reply_api) \<Rightarrow> module_sys \<Rightarrow> bool" where
  "module_reachable apis \<equiv> reach module_start (module_step apis)"

lemma reachable_ok:
  assumes "module_reachable apis s"
  shows "module_ok (ms_module s)" and "\<not> ms_loaded s \<Longrightarrow> clean (ms_module s)"
  using module_system.reachable_inv [OF assms] by (simp_all add: module_inv_def)

section \<open>Properties\<close>

text \<open>
  C8. Over every sequence of loads, cron ticks, shutdowns and unloads no handler faults: no
  thread is joined that is not in the array, nothing is freed twice, no entry past the array is
  written - a cleanup may follow a cleanup, a shutdown, a failed load or nothing at all. The code
  does not test the copies of the patterns it makes with \<open>strdup\<close>: memory for them is assumed.
\<close>

theorem module_never_faults:
  fixes w :: "'r load_world"
  assumes "module_reachable apis s" and "load_ok w" and "name_free w \<longrightarrow> \<not> ms_loaded s"
    and "copies_ok (sw_udp v)" and "new_threads (sw_udp v)"
  shows "cleanup_threads (ms_module s) \<noteq> None \<and> RedisModule_OnUnload (ms_module s) \<noteq> None
     \<and> RedisModule_OnLoad w (ms_module s) \<noteq> None \<and> cron_broadcast_once v (ms_module s) \<noteq> None"
  using cleanup_clean [OF reachable_ok(1) [OF assms(1)]] unload_ok [OF reachable_ok(1) [OF assms(1)]]
    load_ok [OF reachable_ok(1) [OF assms(1)] assms(2)]
    cron_ok [OF reachable_ok(1) [OF assms(1)] assms(4,5)] reachable_ok(2) [OF assms(1)] assms(3)
  by auto

text \<open>
  C24. Senders exist only between the first cron tick of a load and its shutdown or unload: while
  there is one the module is loaded, has announced, is not closing and its refresh thread runs;
  and an unloaded or closing module has no thread, no array, no pattern, no snapshot, no list
  and no client left.
\<close>

theorem senders_only_while_announcing:
  assumes "module_reachable apis s"
  shows "(m_senders (ms_module s) \<noteq> [] \<longrightarrow> ms_loaded s \<and> m_announced (ms_module s)
       \<and> \<not> is_closing (m_signal (ms_module s)) \<and> refresher_running (m_cache (ms_module s)))
     \<and> (\<not> ms_loaded s \<or> is_closing (m_signal (ms_module s)) \<longrightarrow> clean (ms_module s))"
  using reachable_ok [OF assms] by (auto simp: module_ok_def module_simps)

text \<open>
  C30. Announcing starts at most once per load and never after a shutdown. Whatever the module did
  since it was loaded, a cron tick does nothing after a shutdown - one before the first tick
  included - and nothing after a tick that ran, also when the start of that one failed; and the
  tick that finds the module neither announced nor closing is the one that announces.
\<close>

theorem announces_once_per_load:
  assumes "module_reachable apis s" and "copies_ok (sw_udp w)" and "new_threads (sw_udp w)"
  shows "(\<exists>m'. shutdown_callback (ms_module s) = Some m' \<and> cron_broadcast_once w' m' = Some (m', []))
     \<and> (\<exists>m' es. cron_broadcast_once w (ms_module s) = Some (m', es)
          \<and> (if m_announced (ms_module s) \<or> is_closing (m_signal (ms_module s))
             then m' = ms_module s \<and> es = [] else m_announced m' \<and> es \<noteq> [])
          \<and> cron_broadcast_once w' m' = Some (m', [])
          \<and> (\<exists>m''. shutdown_callback m' = Some m'' \<and> cron_broadcast_once w' m'' = Some (m'', [])))"
proof -
  have shut: "\<exists>m'. shutdown_callback m = Some m' \<and> cron_broadcast_once w' m' = Some (m', [])"
    if "module_ok m" for m
    using cleanup_clean [OF that] by (auto simp: shutdown_callback_def cron_broadcast_once_def)
  note ok = reachable_ok(1) [OF assms(1)]
  from cron_ok [OF ok assms(2,3)] obtain m' es where
    m: "cron_broadcast_once w (ms_module s) = Some (m', es)" "module_ok m'"
      "m_announced m' \<or> is_closing (m_signal m')" by blast
  have "if m_announced (ms_module s) \<or> is_closing (m_signal (ms_module s))
      then m' = ms_module s \<and> es = [] else m_announced m' \<and> es \<noteq> []"
    using m(1) cron_announces [OF m(1) ok assms(2,3)]
    by (cases "m_announced (ms_module s) \<or> is_closing (m_signal (ms_module s))")
       (auto simp: cron_broadcast_once_def)
  moreover have "cron_broadcast_once w' m' = Some (m', [])"
    using m(3) by (simp add: cron_broadcast_once_def)
  ultimately show ?thesis using m(1) shut [OF ok] shut [OF m(2)] by blast
qed

text \<open>
  C31. A second load of a loaded module silences it. Redis refuses it in \<open>RedisModule_Init\<close>, but by
  then the shared object has drawn a new UUID, and the error path stops the threads of the
  module that is running: it keeps its hooks and stays loaded, but no sender and no refresh
  thread is left, and no later cron tick starts them again.
\<close>

theorem second_load_silences:
  fixes w :: "'r load_world"
  assumes "module_reachable apis s" and "ms_loaded s" and "load_ok w" and "\<not> name_free w"
  shows "\<exists>m'. RedisModule_OnLoad w (ms_module s) = Some (False, m', []) \<and> clean m'
     \<and> m_guid m' = lw_guid w \<and> m_cron_hook m' = m_cron_hook (ms_module s)
     \<and> (\<forall>v. cron_broadcast_once v m' = Some (m', []))"
proof -
  from load_value [OF assms(3)] assms(4) obtain api where l: "RedisModule_OnLoad w (ms_module s) =
     map_option (\<lambda>m2. (False, m2, [])) (cleanup_threads ((ms_module s)\<lparr>m_guid := lw_guid w, m_api := api\<rparr>))"
    by auto
  let ?m = "(ms_module s)\<lparr>m_guid := lw_guid w, m_api := api\<rparr>"
  have "module_ok ?m" using reachable_ok(1) [OF assms(1)] by (simp only: registered_ok)
  from cleanup_clean [OF this] obtain m' where "cleanup_threads ?m = Some m'" "clean m'"
    "is_closing (m_signal m')" "m_guid m' = lw_guid w" "m_cron_hook m' = m_cron_hook (ms_module s)" by auto
  then show ?thesis by (simp add: l cron_broadcast_once_def)
qed

lemma loglevel_keeps: "read_loglevel api True"
  by (simp add: read_loglevel_def split: option.split)

lemma set_up_logging: "set_up w m = (ok, m', es) \<Longrightarrow> m_logging m \<Longrightarrow> m_logging m'"
  by (cases "resolve_announced_port (lw_api w) (lw_getenv w)")
     (auto simp: set_up_def subscribe_def loglevel_keeps Let_def split: if_splits)

lemma stop_logging:
  "join_threads m = Some m' \<Longrightarrow> m_logging m' = m_logging m"
  "free_thread_ids m = Some m' \<Longrightarrow> m_logging m' = m_logging m"
  by (auto simp: join_threads_def free_thread_ids_def split: if_splits option.splits thread_block.splits)

lemma cleanup_logging:
  assumes "cleanup_threads m = Some m'"
  shows "m_logging m' = m_logging m"
proof -
  from assms obtain m1 m2 c where
    "join_threads (m\<lparr>m_signal := closing_begin (m_signal m)\<rparr>) = Some m1" "free_thread_ids m1 = Some m2"
    "m' = m2\<lparr>m_thread_ids := None, m_thread_count := 0, m_cache := c,
       m_patterns := cleanup_ip_patterns (m_patterns m2)\<rparr>"
    by (auto simp: cleanup_threads_def Let_def bind_eq_Some_conv)
  from this(3) stop_logging(1) [OF this(1)] stop_logging(2) [OF this(2)] show ?thesis by simp
qed

text \<open>
  The switch for logging every datagram is never reset: where the shared object survives an
  unload, a module loaded again under any log level goes on logging once it was loaded under
  \<open>verbose\<close> or \<open>debug\<close>.
\<close>

theorem logging_is_never_switched_off:
  assumes "RedisModule_OnLoad w m = Some (ok, m', es)" and "m_logging m"
  shows "m_logging m'"
proof -
  from assms(1) obtain r attribs api where i: "RedisModule_Init (lw_redis w) ''unicaster'' 1
      REDISMODULE_APIVER_1 (m_api m) = Some (r, attribs, api)"
    by (auto simp: RedisModule_OnLoad_def generate_redis_guid_def bind_eq_Some_conv split: if_splits)
  let ?m = "m\<lparr>m_guid := lw_guid w, m_api := api\<rparr>"
  have "m_logging ?m" using assms(2) by simp
  with i assms(1) set_up_logging [of w ?m ok m' es] cleanup_logging [of ?m m'] show ?thesis
    by (auto simp: RedisModule_OnLoad_def generate_redis_guid_def Let_def split: if_splits)
qed

section \<open>Witnesses\<close>

text \<open>A run of the module.\<close>

definition demo_apis :: "nat \<Rightarrow> demo_reply reply_api" where
  "demo_apis n = demo_config [(''port'', ''6379''), (''tls-port'', ''0''), (''loglevel'', ''verbose'')]"

definition demo_guid :: string where
  "demo_guid = ''2cc7c345-9b1d-4a0e-8d55-1f3ab6f0c2d7''"

definition demo_load :: "bool \<Rightarrow> demo_reply load_world" where
  "demo_load init = \<lparr>lw_getenv = (\<lambda>_. None), lw_guid = demo_guid, lw_redis = demo_redis (\<not> init), lw_curl = True,
     lw_cron = True, lw_api = demo_apis 0\<rparr>"

definition demo_start :: start_world where
  "demo_start = \<lparr>sw_malloc = True, sw_curl_init = True, sw_refresher = True, sw_udp = demo_udp\<rparr>"

definition demo_table :: api_table where
  "demo_table = fold (get_api (demo_redis False)) api_names (\<lambda>_. None)"

text \<open>The module after the load, and after the first cron tick.\<close>

definition demo_loaded :: module where
  "demo_loaded = initial_module\<lparr>m_guid := demo_guid,
     m_signal := closing_reset (m_signal initial_module), m_announced := False,
     m_binds := fst (load_redis_bind_ips (demo_apis 0)), m_logging := True,
     m_port := 6379, m_tls := False, m_api := demo_table,
     m_hooks := [(ev_id (RedisModuleEvent_of CronLoop), Cron_broadcast_once),
                 (ev_id (RedisModuleEvent_of Shutdown_event), Shutdown_callback)]\<rparr>"

definition demo_running :: module where
  "demo_running = fst (the (cron_broadcast_once demo_start demo_loaded))"

lemma demo_answers:
  "resolve_announced_port (demo_apis 0) (\<lambda>_. None) = (6379, False, [])"
  "read_loglevel (demo_apis 0) b" "read_loglevel (demo_config [(''loglevel'', ''notice'')]) True"
  by code_simp+

lemma demo_init:
  "\<exists>a. RedisModule_Init (demo_redis False) ''unicaster'' 1 REDISMODULE_APIVER_1 (\<lambda>_. None)
     = Some (REDISMODULE_OK, a, demo_table)"
  using init_value [OF demo_redis_ok, of False "''unicaster''" 1 REDISMODULE_APIVER_1 "\<lambda>_. None"]
  by (auto simp: RedisModule_Init_def demo_table_def demo_redis_def Let_def split: option.splits)

lemma demo_load_redis [simp]:
  "lw_redis (demo_load b) = demo_redis (\<not> b)" "load_ok (demo_load b)"
  "name_free (demo_load b) = b" "lw_guid (demo_load b) = demo_guid" "lw_api (demo_load b) = demo_apis 0"
  using demo_redis_ok by (simp_all add: demo_load_def name_free_def load_ok_def demo_guid_def)
    (simp add: demo_redis_def)

lemma demo_load_step:
  "RedisModule_OnLoad (demo_load True) initial_module = Some (True, demo_loaded, [Curl_global_init])"
proof -
  obtain a where "RedisModule_Init (demo_redis False) ''unicaster'' 1 REDISMODULE_APIVER_1 (m_api initial_module)
     = Some (REDISMODULE_OK, a, demo_table)" using demo_init by (auto simp: initial_module_def)
  then show ?thesis
    by (simp add: RedisModule_OnLoad_def generate_redis_guid_def GUID_SIZE_def demo_guid_def Let_def
          REDISMODULE_OK_def REDISMODULE_ERR_def)
       (simp add: set_up_def subscribe_def event_id_inj demo_load_def demo_loaded_def demo_guid_def
          demo_answers Let_def initial_module_def)
qed

lemma demo_loaded_facts:
  "m_cron_hook demo_loaded" "\<not> m_announced demo_loaded" "\<not> is_closing (m_signal demo_loaded)"
  "m_logging demo_loaded" "clean demo_loaded"
  using initial_clean by (simp_all add: demo_loaded_def module_simps)

lemma demo_reach_loaded: "module_reachable demo_apis \<lparr>ms_loaded = True, ms_module = demo_loaded\<rparr>"
proof -
  have "module_reachable demo_apis \<lparr>ms_loaded = False, ms_module = initial_module\<rparr>"
    by (rule reach_init) (simp add: module_start_def)
  from reach_step [OF this module_load [of _ "demo_load True" demo_apis 0 True demo_loaded]] demo_load_step
  show ?thesis by simp
qed

lemma demo_start_ok: "copies_ok (sw_udp demo_start)" "new_threads (sw_udp demo_start)"
  by (simp_all add: demo_start_def demo_udp_def copies_ok_def new_threads_def)

lemma demo_cron:
  "\<exists>es. cron_broadcast_once demo_start demo_loaded = Some (demo_running, es)
     \<and> map (\<lambda>s. source_ip (snd s)) (m_senders demo_running) = [''10.0.0.1'']"
proof -
  have a: "accepts (uw_getenv demo_udp) (inet_ntop (In_addr 127 0 0 1)) = False"
    "accepts (uw_getenv demo_udp) (inet_ntop (In_addr 10 0 0 1)) = True"
    "inet_ntop (In_addr 10 0 0 1) = ''10.0.0.1''" by code_simp+
  have p: "sw_malloc demo_start" "sw_curl_init demo_start" "sw_refresher demo_start"
    "uw_ifaddrs (sw_udp demo_start) \<noteq> None" "uw_array (sw_udp demo_start)"
    "\<forall>i. uw_task (sw_udp demo_start) i \<and> uw_thread (sw_udp demo_start) i \<noteq> None"
    and u: "sw_udp demo_start = demo_udp"
    by (simp_all add: demo_start_def demo_udp_def)
  from cron_senders [OF demo_loaded_facts(5,2,3) p(1-3) demo_start_ok(1) p(4-6)]
  obtain m' es where c: "cron_broadcast_once demo_start demo_loaded = Some (m', es)" and
    "map snd (m_senders m') = map (task_for (m_port demo_loaded) (m_tls demo_loaded))
       (filter (\<lambda>a. accepts (uw_getenv demo_udp) (inet_ntop a))
          (List.map_filter id (the (uw_ifaddrs demo_udp))))"
    unfolding u by blast
  moreover have "List.map_filter id (the (uw_ifaddrs demo_udp)) = [In_addr 127 0 0 1, In_addr 10 0 0 1]"
    by (simp add: demo_udp_def map_filter_simps)
  ultimately have "map snd (m_senders m') = [task_for 6379 False (In_addr 10 0 0 1)]"
    using a(1,2) by (simp add: demo_loaded_def del: inet_ntop.simps)
  then have "map source_ip (map snd (m_senders m')) = [''10.0.0.1'']"
    by (simp only: list.map task_for_def) (simp only: BroadcastTask.select_convs a(3))
  with c show ?thesis by (simp add: demo_running_def comp_def)
qed

lemma demo_reach_running: "module_reachable demo_apis \<lparr>ms_loaded = True, ms_module = demo_running\<rparr>"
proof -
  obtain es where "cron_broadcast_once demo_start demo_loaded = Some (demo_running, es)"
    using demo_cron by blast
  with reach_step [OF demo_reach_loaded module_cron [of _ demo_start demo_running es]]
    demo_start_ok demo_loaded_facts(1) show ?thesis by simp
qed

lemma module_never_faults_witness:
  "cleanup_threads demo_running \<noteq> None \<and> RedisModule_OnLoad (demo_load False) demo_running \<noteq> None"
  using module_never_faults [OF demo_reach_running _ _ demo_start_ok, of "demo_load False"] by simp

lemma senders_only_while_announcing_witness:
  "m_senders demo_running \<noteq> [] \<and> refresher_running (m_cache demo_running)"
proof -
  have "m_senders demo_running \<noteq> []" using demo_cron by auto
  with senders_only_while_announcing [OF demo_reach_running] show ?thesis by simp
qed

lemma announces_once_per_load_witness:
  "cron_broadcast_once demo_start demo_running = Some (demo_running, [])
   \<and> (\<exists>m'. shutdown_callback demo_loaded = Some m' \<and> cron_broadcast_once demo_start m' = Some (m', []))"
proof -
  obtain es where "cron_broadcast_once demo_start demo_loaded = Some (demo_running, es)"
    using demo_cron by blast
  with announces_once_per_load [OF demo_reach_loaded demo_start_ok, of demo_start]
  show ?thesis by auto
qed

lemma second_load_silences_witness:
  "\<exists>m'. RedisModule_OnLoad (demo_load False) demo_running = Some (False, m', [])
     \<and> m_senders demo_running \<noteq> [] \<and> m_senders m' = [] \<and> cron_broadcast_once demo_start m' = Some (m', [])"
proof -
  have "m_senders demo_running \<noteq> []" using demo_cron by auto
  with second_load_silences [OF demo_reach_running, of "demo_load False"] show ?thesis
    by (auto simp: module_simps)
qed

lemma logging_is_never_switched_off_witness:
  "\<exists>m' es. RedisModule_OnLoad (demo_load True\<lparr>lw_api := demo_config [(''loglevel'', ''notice'')]\<rparr>) demo_loaded
     = Some (True, m', es) \<and> m_logging m'"
proof -
  let ?w = "demo_load True\<lparr>lw_api := demo_config [(''loglevel'', ''notice'')]\<rparr>"
  have "resolve_announced_port (demo_config [(''loglevel'', ''notice'')]) (\<lambda>_. None) = (0, False, [])"
    by code_simp
  then have ok: "fst (set_up ?w m)" for m by (simp add: set_up_def demo_load_def Let_def)
  have "load_ok ?w" "name_free ?w" using demo_load_redis(2,3) [of True]
    by (simp_all add: name_free_def load_ok_def)
  with load_value [of ?w demo_loaded] obtain m where "RedisModule_OnLoad ?w demo_loaded = Some (set_up ?w m)"
    by auto
  with ok [of m] obtain m' es where l: "RedisModule_OnLoad ?w demo_loaded = Some (True, m', es)"
    by (cases "set_up ?w m") auto
  from logging_is_never_switched_off [OF l demo_loaded_facts(4)] l show ?thesis by blast
qed

end
