(* ===== verification/Module_Types.thy ===== *)
theory Module_Types
  imports Module_System
begin

text \<open>
  The types of the file-scope variables of \<^verbatim>\<open>unicaster.c\<close>: what C checks only in part. An \<open>int\<close>
  holds an \<open>int\<close>, the fixed arrays hold no more than they have room for, the count of threads is
  that of the entries in use, and a \<open>BroadcastTask\<close> holds an address that can be parsed again and the listener the load resolved.
\<close>

definition module_typed :: "module \<Rightarrow> bool" where
  "module_typed m \<longleftrightarrow>
     in_int (m_port m)
     \<and> length (m_guid m) < GUID_SIZE
     \<and> length (bind_ips (m_binds m)) \<le> MAX_REDIS_BINDS
     \<and> (\<forall>ip\<in>set (bind_ips (m_binds m)). length ip \<le> INET_ADDRSTRLEN)
     \<and> length (m_patterns m) \<le> MAX_IP_PATTERNS
     \<and> (m_cron_hook m \<or> m_senders m \<noteq> [] \<longrightarrow> 0 < m_port m)
     \<and> (\<forall>s\<in>set (m_senders m). task_ok (snd s) \<and> redis_port (snd s) = m_port m
          \<and> redis_tls (snd s) = m_tls m)"

lemma typed_frame [simp]:
  "module_typed (m\<lparr>m_cache := c\<rparr>) = module_typed m"
  "module_typed (m\<lparr>m_announced := b\<rparr>) = module_typed m"
  by (simp_all add: module_typed_def)

lemma typed_registered:
  "module_typed m \<Longrightarrow> length g = 36 \<Longrightarrow> module_typed (m\<lparr>m_guid := g, m_api := api\<rparr>)"
  by (simp add: module_typed_def GUID_SIZE_def)

lemma typed_stopped:
  "module_typed m \<Longrightarrow> module_typed (m\<lparr>m_signal := x, m_senders := [], m_thread_ids := None,
     m_thread_count := 0, m_cache := c, m_patterns := []\<rparr>)"
  by (simp add: module_typed_def)

lemma typed_drop_hooks: "module_typed m \<Longrightarrow> module_typed (drop_hooks m)"
  by (simp add: module_typed_def drop_hooks_def)

lemma task_for_ok: "in_int port \<Longrightarrow> task_ok (task_for port tls addr)"
  by (simp add: task_ok_def task_for_def)

lemma typed_started:
  assumes "module_typed m" and "m_cron_hook m" and "patterns_ok ps"
    and "\<forall>ip. ip_matches_pattern ps ip = Some (accepts env ip)"
  shows "module_typed (with_senders (senders_for w (m_port m) (m_tls m) ps (enumerate 0 ifaddr)) capacity
           (m\<lparr>m_patterns := ps\<rparr>))"
proof -
  have "snd s \<in> range (task_for (m_port m) (m_tls m))"
    if "s \<in> set (senders_for w (m_port m) (m_tls m) ps (enumerate 0 ifaddr))" for s
    using senders_for_accepted [OF assms(4) that] by auto
  moreover have "in_int (m_port m)" using assms(1) by (simp add: module_typed_def)
  ultimately have "\<forall>s\<in>set (senders_for w (m_port m) (m_tls m) ps (enumerate 0 ifaddr)).
      task_ok (snd s) \<and> redis_port (snd s) = m_port m \<and> redis_tls (snd s) = m_tls m"
    using task_for_ok by (force simp: task_for_def)
  with assms show ?thesis by (simp add: module_typed_def with_senders_def patterns_ok_def)
qed

lemma send_udp_typed:
  assumes "module_typed m" and "m_cron_hook m" and "copies_ok w" and "no_senders m"
    and "send_udp_message w (m_port m) (m_tls m) m = Some (m', es)"
  shows "module_typed m' \<and> m_cron_hook m' = m_cron_hook m"
  using send_udp_value [OF assms(3,4), of "m_port m" "m_tls m"] assms(1,2,5) typed_started
  by (auto simp: with_senders_def) blast

lemma cron_typed:
  assumes "module_ok m" and "module_typed m" and "m_cron_hook m" and "copies_ok (sw_udp w)"
    and "cron_broadcast_once w m = Some (m', es)"
  shows "module_typed m'"
proof (cases "m_announced m \<or> is_closing (m_signal m)")
  case True
  with assms show ?thesis by (simp add: cron_broadcast_once_def)
next
  case False
  obtain ok c where c: "pod_cache_start (uw_getenv (sw_udp w)) (sw_malloc w) (sw_curl_init w)
      (sw_refresher w) (m_cache m) = (ok, c)" by fastforce
  let ?m = "m\<lparr>m_announced := True, m_cache := c\<rparr>"
  have m: "module_typed ?m" "m_cron_hook ?m" using assms(2,3) by simp_all
  show ?thesis
  proof (cases ok)
    case False
    with c \<open>\<not> (m_announced m \<or> is_closing (m_signal m))\<close> assms(5) m(1) show ?thesis
      by (auto simp: cron_broadcast_once_def start_broadcasting_def Let_def)
  next
    case True
    with c False assms(5) obtain es' where
      s: "send_udp_message (sw_udp w) (m_port ?m) (m_tls ?m) ?m = Some (m', es')"
      by (auto simp: cron_broadcast_once_def start_broadcasting_def Let_def)
    have "no_senders ?m" using assms(1) False by (simp add: module_ok_def module_simps)
    from send_udp_typed [OF m assms(4) this s] show ?thesis by simp
  qed
qed

lemma set_up_typed:
  assumes "module_typed m" and "clean m" and "\<not> m_cron_hook m"
  shows "module_typed (fst (snd (set_up w m)))"
proof -
  obtain port tls logs where r: "resolve_announced_port (lw_api w) (lw_getenv w) = (port, tls, logs)"
    by (cases "resolve_announced_port (lw_api w) (lw_getenv w)")
  have "m_senders m = []" "m_patterns m = []" using assms(2) by (simp_all add: module_simps)
  with r announced_range [OF r] assms load_binds_bounded [of "lw_api w"] show ?thesis
    by (auto simp: set_up_def subscribe_def event_id_inj Let_def module_typed_def MAX_REDIS_BINDS_def INET_ADDRSTRLEN_def)
qed

definition typed_inv :: "module_sys \<Rightarrow> bool" where
  "typed_inv s \<longleftrightarrow> module_inv s \<and> module_typed (ms_module s)"

lemma cleanup_typed:
  assumes "module_ok m" and "module_typed m" and "cleanup_threads m = Some m'"
  shows "module_typed m'"
proof -
  from assms(1) have "array_matches m" "cache_inv (\<lambda>_. 0) {} {} (m_cache m)"
    by (simp_all add: module_ok_def)
  from cleanup_value [OF this] assms(2,3) typed_stopped show ?thesis by auto
qed

lemma load_typed:
  assumes "module_ok m" and "module_typed m" and "load_ok w"
    and "name_free w \<longrightarrow> clean m \<and> \<not> m_cron_hook m" and "RedisModule_OnLoad w m = Some (ok, m', es)"
  shows "module_typed m'"
proof -
  from load_value [OF assms(3)] obtain api where l: "RedisModule_OnLoad w m =
     (let m1 = m\<lparr>m_guid := lw_guid w, m_api := api\<rparr>
      in if name_free w then Some (set_up w m1)
         else map_option (\<lambda>m2. (False, m2, [])) (cleanup_threads m1))" by blast
  let ?m = "m\<lparr>m_guid := lw_guid w, m_api := api\<rparr>"
  have m: "module_ok ?m" "module_typed ?m" using assms(1-3) typed_registered
    by (simp_all add: registered_ok load_ok_def)
  show ?thesis
  proof (cases "name_free w")
    case True
    with assms(4) have "clean ?m" "\<not> m_cron_hook ?m" by (simp_all only: registered_ok) simp
    from set_up_typed [OF m(2) this, of w] have "module_typed (fst (snd (set_up w ?m)))" .
    moreover have "set_up w ?m = (ok, m', es)" using l True assms(5) by simp
    ultimately show ?thesis by simp
  next
    case False
    then have "map_option (\<lambda>m2. (False, m2, [])) (cleanup_threads ?m) = Some (ok, m', es)"
      using l assms(5) by simp
    with cleanup_typed [OF m] show ?thesis by auto
  qed
qed

lemma typed_step: "module_step apis s s' \<Longrightarrow> typed_inv s \<Longrightarrow> module_typed (ms_module s')"
proof (induction rule: module_step.induct)
  case (module_load s w n ok m' es)
  then have "module_ok (ms_module s)" "clean (ms_module s)" "\<not> m_cron_hook (ms_module s)"
    "module_typed (ms_module s)" by (auto simp: typed_inv_def module_inv_def)
  with load_typed [OF _ _ module_load(3) _ module_load(4)] show ?case by (simp add: typed_drop_hooks)
next
  case (module_load_again s w n ok m' es)
  then have "module_ok (ms_module s)" "module_typed (ms_module s)"
    by (simp_all add: typed_inv_def module_inv_def)
  with load_typed [OF _ _ module_load_again(3) _ module_load_again(5)] module_load_again(4)
  show ?case by simp
next
  case (module_cron s w m' es)
  then show ?case by (auto simp: typed_inv_def module_inv_def intro: cron_typed)
next
  case (module_shutdown s m')
  then show ?case
    by (auto simp: typed_inv_def module_inv_def shutdown_callback_def intro: cleanup_typed)
next
  case (module_unload s m' es)
  then obtain m1 where m1: "cleanup_threads (ms_module s) = Some m1" "m' = drop_hooks m1"
    by (auto simp: RedisModule_OnUnload_def drop_hooks_def)
  with module_unload cleanup_typed have "module_typed m1" by (auto simp: typed_inv_def module_inv_def)
  with m1(2) show ?case by (simp add: typed_drop_hooks)
qed (simp add: typed_inv_def)

lemma start_typed: "module_start s \<Longrightarrow> typed_inv s"
  using module_start_inv [of s] by (auto simp: typed_inv_def module_start_def module_typed_def
      initial_module_def in_int_def GUID_SIZE_def)

interpretation typed_system: invariant_system module_start "module_step apis" typed_inv
  for apis :: "nat \<Rightarrow> 'r reply_api"
proof unfold_locales
  fix s t assume "module_step apis s t" and inv: "typed_inv s"
  then show "typed_inv t"
    using typed_step [of apis s t] module_step_inv [of apis s t] by (simp add: typed_inv_def)
qed (rule start_typed)

text \<open>
  C23. The variables keep their bounds over every sequence of loads, cron ticks, shutdowns and
  unloads: the port is an \<open>int\<close>, the identifier fits its 37 bytes with its NUL, the arrays of bind
  addresses and of patterns are never overrun, \<open>thread_ids\<close> is \<open>NULL\<close> with \<open>thread_count\<close> 0 or an
  array that was not freed and has room for the \<open>thread_count\<close> entries in use, and the task of every
  sender holds a valid dotted quad, which fits its 16 bytes, with exactly the port and the transport
  resolved by the load. A broker never announces port 0: while the cron hook stands, and while a
  sender runs, the port is positive.
\<close>

theorem module_keeps_types:
  assumes "module_reachable apis s"
  shows "module_typed (ms_module s)
     \<and> (case m_thread_ids (ms_module s) of
          None \<Rightarrow> m_thread_count (ms_module s) = 0
        | Some Freed \<Rightarrow> False
        | Some (Block a) \<Rightarrow> m_thread_count (ms_module s) = length (ta_ids a)
            \<and> m_thread_count (ms_module s) \<le> ta_capacity a)
     \<and> (\<forall>sender\<in>set (m_senders (ms_module s)). length (source_ip (snd sender)) < INET_ADDRSTRLEN
          \<and> 0 < redis_port (snd sender))"
proof -
  have t: "module_typed (ms_module s)"
    using typed_system.reachable_inv [OF assms] by (simp add: typed_inv_def)
  have "array_matches (ms_module s)" using reachable_ok(1) [OF assms] by (simp add: module_ok_def)
  moreover have "length (source_ip (snd sender)) < INET_ADDRSTRLEN \<and> 0 < redis_port (snd sender)"
    if s: "sender \<in> set (m_senders (ms_module s))" for sender
  proof -
    from s have "m_senders (ms_module s) \<noteq> []" by auto
    with t s ip_length [of "source_ip (snd sender)"] show ?thesis
      by (auto simp: module_typed_def task_ok_def INET_ADDRSTRLEN_def)
  qed
  ultimately show ?thesis using t
    by (auto simp: array_matches_def split: option.splits thread_block.splits)
qed

lemma module_keeps_types_witness:
  "\<exists>t. m_senders demo_running = [t] \<and> redis_port (snd t) = m_port demo_running \<and> 0 < redis_port (snd t)
     \<and> length (m_guid demo_running) < 37"
proof -
  from demo_cron obtain t where t: "m_senders demo_running = [t]" by auto
  with module_keeps_types [OF demo_reach_running] show ?thesis by (simp add: module_typed_def GUID_SIZE_def)
qed

end
