(* ===== verification/Broker_Threads.thy ===== *)
theory Broker_Threads
  imports Module_System Cache_Threads Closing
begin

text \<open>
  All threads of a running module at once, stopped by \<open>cleanup_threads\<close>: the sender threads and
  the refresh thread in their loops, and the thread of Redis that raises the closing flag, joins
  them and frees what is left. The state is the product of the closing signal (theory \<open>Closing\<close>),
  the pod cache (theory \<open>Cache_Threads\<close>) and the place of every thread in its own function;
  a step is a step of one thread, and it is one of the two protocols wherever the code calls them.
\<close>

section \<open>Places in the code\<close>

text \<open>
  \<open>unicast_thread\<close>: before \<open>is_closing\<close>; before \<open>pod_cache_acquire\<close>, with what it read; with the
  snapshot or without one; giving it back; in \<open>closing_sleep\<close>; returned. \<open>S_Off\<close>: no such thread.
\<close>

datatype sender_pc = S_Off | S_Top | S_Pass bool | S_Sends bool | S_Release bool | S_Nap | S_Exited

text \<open>
  \<open>refresh_pods\<close>: before the first \<open>is_closing\<close>; in \<open>pod_list_fetch\<close>; before the second one;
  dropping what it received to leave; deciding about a received list; having filled in a
  snapshot; giving back the previous one; having failed, with what it may still read of the cache
  for the log; in \<open>closing_sleep\<close>; returned; using a client that is gone.
\<close>

datatype refresher_pc =
    R_Top | R_Fetch | R_Got | R_Drop | R_Store | R_Swap | R_Release | R_Failed nat | R_Nap | R_Exited
  | R_Faulted

text \<open>
  \<open>cleanup_threads\<close> and \<open>pod_cache_stop\<close>: not called yet; in \<open>closing_begin\<close>; joining sender number
  \<open>k\<close>; joining the refresh thread; destroying the client; clearing the cache; giving back its
  last snapshot; done.
\<close>

datatype main_pc = M_Run | M_Begin | M_Join nat | M_Stop | M_Destroy | M_Clear | M_Release | M_Done

text \<open>
  \<open>th_passes\<close> remembers, for each pass a sender made, which of its two texts it sent (theory \<open>Sender\<close>
  has the texts) and the list it sent it to, \<open>None\<close> where it had no snapshot. The clock of the signal counts nanoseconds here.
\<close>

record threads =
  th_signal :: closing_sys
  th_cache :: cache_sys
  th_main :: main_pc
  th_refresher :: refresher_pc
  th_sender :: "nat \<Rightarrow> sender_pc"
  th_passes :: "nat \<Rightarrow> (message_kind \<times> PodList option) list"

definition main_id :: nat where "main_id = 0"
definition refresher_id :: nat where "refresher_id = 1"
definition sender_id :: "nat \<Rightarrow> nat" where "sender_id i = i + 2"

lemma ids_differ [simp]:
  "sender_id i \<noteq> main_id" "main_id \<noteq> sender_id i" "sender_id i \<noteq> refresher_id"
  "refresher_id \<noteq> sender_id i" "main_id \<noteq> refresher_id" "refresher_id \<noteq> main_id"
  "sender_id i = sender_id j \<longleftrightarrow> i = j"
  by (simp_all add: main_id_def refresher_id_def sender_id_def)

lemma id_cases: "t = main_id \<or> t = refresher_id \<or> (\<exists>i. t = sender_id i)"
proof -
  have "t = sender_id (t - 2)" if "2 \<le> t" using that by (simp add: sender_id_def)
  then show ?thesis by (cases "2 \<le> t") (auto simp: main_id_def refresher_id_def)
qed

section \<open>Giving back a reference\<close>

text \<open>\<open>pod_cache_release\<close>: the locked decrement, and \<open>free_snapshot\<close> where it was the last one.\<close>

inductive giving_back :: "nat \<Rightarrow> cache_sys \<Rightarrow> cache_sys \<Rightarrow> bool" for t :: nat where
  give_call: "cache_pcs s t = Reading p \<Longrightarrow>
    giving_back t s (resume t s (Some (Releasing p, shared s)))"
| give_decrement: "cache_pcs s t = Releasing p \<Longrightarrow>
    giving_back t s (resume t s (map_option (after_decrement p) (release_locked p (shared s))))"
| give_free: "cache_pcs s t = Freeing p \<Longrightarrow>
    giving_back t s (resume t s (map_option (\<lambda>c. (Idle, c)) (free_snapshot p (shared s))))"

section \<open>The steps of a sender\<close>

inductive sender_step :: "nat \<Rightarrow> threads \<Rightarrow> threads \<Rightarrow> bool" for i :: nat where
  s_test: "th_sender s i = S_Top \<Longrightarrow>
    sender_step i s (s\<lparr>th_sender := (th_sender s)(i := S_Pass (flag (th_signal s)))\<rparr>)"
| s_acquire: "th_sender s i = S_Pass b \<Longrightarrow>
    sender_step i s (s\<lparr>th_cache := resume (sender_id i) (th_cache s)
        (map_option after_acquire
          (pod_cache_acquire (now_seconds (clock (th_signal s))) (shared (th_cache s)))),
      th_sender := (th_sender s)(i := S_Sends b)\<rparr>)"
| s_send: "th_sender s i = S_Sends b \<Longrightarrow> cache_pcs (th_cache s) (sender_id i) = Reading p \<Longrightarrow>
    sender_step i s (s\<lparr>th_cache := resume (sender_id i) (th_cache s)
        (map_option (\<lambda>l. (Reading p, shared (th_cache s))) (pods_of (shared (th_cache s)) p)),
      th_sender := (th_sender s)(i := S_Release b),
      th_passes := (th_passes s)(i := th_passes s i @ [(chosen_message b, pods_of (shared (th_cache s)) p)])\<rparr>)"
| s_no_list: "th_sender s i = S_Sends b \<Longrightarrow> cache_pcs (th_cache s) (sender_id i) = Idle \<Longrightarrow>
    sender_step i s (s\<lparr>th_sender := (th_sender s)(i := S_Release b),
      th_passes := (th_passes s)(i := th_passes s i @ [(chosen_message b, None)])\<rparr>)"
| s_release: "th_sender s i = S_Release b \<Longrightarrow> giving_back (sender_id i) (th_cache s) c \<Longrightarrow>
    sender_step i s (s\<lparr>th_cache := c\<rparr>)"
| s_leave: "th_sender s i = S_Release True \<Longrightarrow> cache_pcs (th_cache s) (sender_id i) = Idle \<Longrightarrow>
    sender_step i s (s\<lparr>th_sender := (th_sender s)(i := S_Exited)\<rparr>)"
| s_nap: "th_sender s i = S_Release False \<Longrightarrow> cache_pcs (th_cache s) (sender_id i) = Idle \<Longrightarrow>
    sender_step i s (s\<lparr>th_sender := (th_sender s)(i := S_Nap)\<rparr>)"
| s_sleep: "th_sender s i = S_Nap \<Longrightarrow> sleep_step (sender_id i) (th_signal s) g \<Longrightarrow>
    \<forall>d r. pcs (th_signal s) (sender_id i) \<noteq> SleepReturned d r \<Longrightarrow>
    sender_step i s (s\<lparr>th_signal := g\<rparr>)"
| s_wake: "th_sender s i = S_Nap \<Longrightarrow> sleep_step (sender_id i) (th_signal s) g \<Longrightarrow>
    pcs (th_signal s) (sender_id i) = SleepReturned d r \<Longrightarrow>
    sender_step i s (s\<lparr>th_signal := g, th_sender := (th_sender s)(i := S_Top)\<rparr>)"

section \<open>The steps of the refresh thread\<close>

text \<open>
  \<open>pod_list_fetch\<close> uses the client; whether it fails, whether \<open>malloc\<close> does and how much the log
  reads of the cache (\<open>is_expired\<close>, \<open>log_failure\<close>) is left open.
\<close>

inductive refresher_step :: "threads \<Rightarrow> threads \<Rightarrow> bool" where
  r_test: "th_refresher s = R_Top \<Longrightarrow>
    refresher_step s (s\<lparr>th_refresher := if flag (th_signal s) then R_Exited else R_Fetch\<rparr>)"
| r_no_client: "th_refresher s = R_Fetch \<Longrightarrow> client (shared (th_cache s)) = None \<Longrightarrow>
    refresher_step s (s\<lparr>th_refresher := R_Faulted\<rparr>)"
| r_list: "th_refresher s = R_Fetch \<Longrightarrow> client (shared (th_cache s)) \<noteq> None \<Longrightarrow>
    lists (shared (th_cache s)) l = None \<Longrightarrow> pod_list_ok pods \<Longrightarrow>
    refresher_step s (s\<lparr>th_cache := resume refresher_id (th_cache s)
        (Some (Fetched l, (shared (th_cache s))\<lparr>lists := (lists (shared (th_cache s)))(l \<mapsto> pods)\<rparr>)),
      th_refresher := R_Got\<rparr>)"
| r_error: "th_refresher s = R_Fetch \<Longrightarrow> client (shared (th_cache s)) \<noteq> None \<Longrightarrow>
    refresher_step s (s\<lparr>th_refresher := R_Got\<rparr>)"
| r_closing: "th_refresher s = R_Got \<Longrightarrow> flag (th_signal s) \<Longrightarrow>
    refresher_step s (s\<lparr>th_refresher := R_Drop\<rparr>)"
| r_received: "th_refresher s = R_Got \<Longrightarrow> \<not> flag (th_signal s) \<Longrightarrow>
    refresher_step s (s\<lparr>th_refresher :=
      if cache_pcs (th_cache s) refresher_id = Idle then R_Failed 2 else R_Store\<rparr>)"
| r_drop: "th_refresher s = R_Drop \<Longrightarrow> cache_pcs (th_cache s) refresher_id = Fetched l \<Longrightarrow>
    refresher_step s (s\<lparr>th_cache := resume refresher_id (th_cache s)
      (map_option (\<lambda>c. (Idle, c)) (pod_list_free (Some l) (shared (th_cache s))))\<rparr>)"
| r_leave: "th_refresher s = R_Drop \<Longrightarrow> cache_pcs (th_cache s) refresher_id = Idle \<Longrightarrow>
    refresher_step s (s\<lparr>th_refresher := R_Exited\<rparr>)"
| r_refuse: "th_refresher s = R_Store \<Longrightarrow> cache_pcs (th_cache s) refresher_id = Fetched l \<Longrightarrow>
    refresher_step s (s\<lparr>th_cache := resume refresher_id (th_cache s)
        (map_option (\<lambda>c. (Idle, c)) (pod_list_free (Some l) (shared (th_cache s)))),
      th_refresher := R_Failed 2\<rparr>)"
| r_alloc: "th_refresher s = R_Store \<Longrightarrow> cache_pcs (th_cache s) refresher_id = Fetched l \<Longrightarrow>
    lists (shared (th_cache s)) l = Some pods \<Longrightarrow> pl_count pods \<noteq> 0 \<Longrightarrow>
    snapshots (shared (th_cache s)) p = None \<Longrightarrow>
    refresher_step s (s\<lparr>th_cache := resume refresher_id (th_cache s)
        (Some (Allocated p, publish_alloc p (now_seconds (clock (th_signal s))) l (shared (th_cache s)))),
      th_refresher := R_Swap\<rparr>)"
| r_swap: "th_refresher s = R_Swap \<Longrightarrow> cache_pcs (th_cache s) refresher_id = Allocated p \<Longrightarrow>
    refresher_step s (s\<lparr>th_cache := resume refresher_id (th_cache s)
        (Some (after_swap (publish_swap (Some p) (shared (th_cache s))))),
      th_refresher := R_Release\<rparr>)"
| r_release: "th_refresher s = R_Release \<Longrightarrow> giving_back refresher_id (th_cache s) c \<Longrightarrow>
    refresher_step s (s\<lparr>th_cache := c\<rparr>)"
| r_published: "th_refresher s = R_Release \<Longrightarrow> cache_pcs (th_cache s) refresher_id = Idle \<Longrightarrow>
    refresher_step s (s\<lparr>th_refresher := R_Nap\<rparr>)"
| r_describe: "th_refresher s = R_Failed (Suc k) \<Longrightarrow>
    refresher_step s (s\<lparr>th_cache := resume refresher_id (th_cache s)
        (map_option (\<lambda>r. (Idle, shared (th_cache s))) 
          (describe_current (now_seconds (clock (th_signal s))) age (shared (th_cache s)))),
      th_refresher := R_Failed k\<rparr>)"
| r_reported: "th_refresher s = R_Failed k \<Longrightarrow> refresher_step s (s\<lparr>th_refresher := R_Nap\<rparr>)"
| r_sleep: "th_refresher s = R_Nap \<Longrightarrow> sleep_step refresher_id (th_signal s) g \<Longrightarrow>
    \<forall>d r. pcs (th_signal s) refresher_id \<noteq> SleepReturned d r \<Longrightarrow>
    refresher_step s (s\<lparr>th_signal := g\<rparr>)"
| r_wake: "th_refresher s = R_Nap \<Longrightarrow> sleep_step refresher_id (th_signal s) g \<Longrightarrow>
    pcs (th_signal s) refresher_id = SleepReturned d r \<Longrightarrow>
    refresher_step s (s\<lparr>th_signal := g, th_refresher := R_Top\<rparr>)"

section \<open>The steps of the thread that stops the module\<close>

text \<open>\<open>pod_cache_stop\<close>: joining the refresh thread, destroying the client, clearing the cache.\<close>

inductive stop_step :: "threads \<Rightarrow> threads \<Rightarrow> bool" where
  p_join: "th_main s = M_Stop \<Longrightarrow> refresher_running (shared (th_cache s)) \<Longrightarrow> th_refresher s = R_Exited \<Longrightarrow>
    stop_step s (s\<lparr>th_cache := (th_cache s)\<lparr>shared := (shared (th_cache s))\<lparr>refresher_running := False\<rparr>\<rparr>,
      th_main := M_Destroy\<rparr>)"
| p_no_refresher: "th_main s = M_Stop \<Longrightarrow> \<not> refresher_running (shared (th_cache s)) \<Longrightarrow>
    stop_step s (s\<lparr>th_main := M_Destroy\<rparr>)"
| p_destroy: "th_main s = M_Destroy \<Longrightarrow>
    stop_step s (s\<lparr>th_cache := (th_cache s)\<lparr>shared := (shared (th_cache s))
        \<lparr>client := pod_list_client_destroy (client (shared (th_cache s)))\<rparr>\<rparr>,
      th_main := M_Clear\<rparr>)"
| p_clear: "th_main s = M_Clear \<Longrightarrow>
    stop_step s (s\<lparr>th_cache := resume main_id (th_cache s)
        (Some (after_swap (publish_swap None (shared (th_cache s))))),
      th_main := M_Release\<rparr>)"
| p_release: "th_main s = M_Release \<Longrightarrow> giving_back main_id (th_cache s) c \<Longrightarrow>
    stop_step s (s\<lparr>th_cache := c\<rparr>)"
| p_done: "th_main s = M_Release \<Longrightarrow> cache_pcs (th_cache s) main_id = Idle \<Longrightarrow>
    stop_step s (s\<lparr>th_main := M_Done\<rparr>)"

text \<open>\<open>cleanup_threads\<close>: \<open>closing_begin\<close>, the loop of joins, and \<open>pod_cache_stop\<close>.\<close>

inductive main_step :: "nat \<Rightarrow> threads \<Rightarrow> threads \<Rightarrow> bool" for n :: nat where
  m_call: "th_main s = M_Run \<Longrightarrow> begin_step main_id (th_signal s) g \<Longrightarrow>
    main_step n s (s\<lparr>th_signal := g, th_main := M_Begin\<rparr>)"
| m_begin: "th_main s = M_Begin \<Longrightarrow> begin_step main_id (th_signal s) g \<Longrightarrow>
    pcs (th_signal s) main_id \<noteq> BeginUnlock \<Longrightarrow> main_step n s (s\<lparr>th_signal := g\<rparr>)"
| m_begun: "th_main s = M_Begin \<Longrightarrow> begin_step main_id (th_signal s) g \<Longrightarrow>
    pcs (th_signal s) main_id = BeginUnlock \<Longrightarrow>
    main_step n s (s\<lparr>th_signal := g, th_main := M_Join 0\<rparr>)"
| m_join: "th_main s = M_Join k \<Longrightarrow> k < n \<Longrightarrow> th_sender s k = S_Exited \<Longrightarrow>
    main_step n s (s\<lparr>th_main := M_Join (k + 1)\<rparr>)"
| m_joined: "th_main s = M_Join k \<Longrightarrow> \<not> k < n \<Longrightarrow> main_step n s (s\<lparr>th_main := M_Stop\<rparr>)"
| m_stop: "stop_step s s' \<Longrightarrow> main_step n s s'"

section \<open>The system\<close>

text \<open>A step of thread \<open>t\<close>, with \<open>n\<close> senders; the clock runs by itself.\<close>

inductive moves :: "nat \<Rightarrow> nat \<Rightarrow> threads \<Rightarrow> threads \<Rightarrow> bool" for n :: nat where
  main_moves: "main_step n s s' \<Longrightarrow> moves n main_id s s'"
| refresher_moves: "refresher_step s s' \<Longrightarrow> moves n refresher_id s s'"
| sender_moves: "i < n \<Longrightarrow> sender_step i s s' \<Longrightarrow> moves n (sender_id i) s s'"

inductive threads_step :: "nat \<Rightarrow> threads \<Rightarrow> threads \<Rightarrow> bool" for n :: nat where
  thread_moves: "moves n t s s' \<Longrightarrow> threads_step n s s'"
| clock_ticks: "clock (th_signal s) \<le> now \<Longrightarrow>
    threads_step n s (s\<lparr>th_signal := (th_signal s)\<lparr>clock := now\<rparr>\<rparr>)"

text \<open>The threads as \<open>start_broadcasting\<close> leaves them: started, with an empty cache.\<close>

definition threads_start :: "nat \<Rightarrow> threads \<Rightarrow> bool" where
  "threads_start n s \<longleftrightarrow>
     closing_init (th_signal s) \<and> (\<forall>t. cache_pcs (th_cache s) t = Idle)
     \<and> (\<exists>m h. shared (th_cache s) = empty_cache\<lparr>max_age := m, client := Some h, refresher_running := True\<rparr>)
     \<and> th_main s = M_Run \<and> th_refresher s = R_Top
     \<and> th_sender s = (\<lambda>i. if i < n then S_Top else S_Off) \<and> th_passes s = (\<lambda>_. [])"

abbreviation threads_reachable :: "nat \<Rightarrow> threads \<Rightarrow> bool" where
  "threads_reachable n \<equiv> reach (threads_start n) (threads_step n)"

section \<open>What the steps of the protocols leave alone\<close>

lemma resume_pcs [simp]:
  "cache_pcs (resume t s r) u =
     (if u = t then (case r of None \<Rightarrow> Faulted | Some (pc, c) \<Rightarrow> pc) else cache_pcs s u)"
  by (auto simp: resume_def split: option.split)

lemma resume_shared [simp]:
  "shared (resume t s r) = (case r of None \<Rightarrow> shared s | Some (pc, c) \<Rightarrow> c)"
  by (auto simp: resume_def split: option.split)

lemma sleep_frame:
  "sleep_step t s s' \<Longrightarrow> flag s' = flag s \<and> (\<forall>u. u \<noteq> t \<longrightarrow> pcs s' u = pcs s u)"
  by (induction rule: sleep_step.induct) auto

lemma begin_frame:
  "begin_step t s s' \<Longrightarrow> \<forall>u. u \<noteq> t \<longrightarrow> pcs s' u = pcs s u \<or> pcs s' u = wake (pcs s u)"
  by (induction rule: begin_step.induct) auto

fun napping :: "closing_pc \<Rightarrow> bool" where
  "napping BeginLock = False"
| "napping BeginStore = False"
| "napping BeginBroadcast = False"
| "napping BeginUnlock = False"
| "napping g = True"

fun beginning :: "closing_pc \<Rightarrow> bool" where
  "beginning BeginLock = True"
| "beginning BeginStore = True"
| "beginning BeginBroadcast = True"
| "beginning BeginUnlock = True"
| "beginning g = False"

lemma napping_wake [simp]: "napping (wake g) = napping g" "wake g = Outside \<longleftrightarrow> g = Outside"
  by (cases g; simp)+

lemma sleep_napping: "sleep_step t s s' \<Longrightarrow> napping (pcs s' t)"
  by (induction rule: sleep_step.induct) auto

lemma sleep_returned: "sleep_step t s s' \<Longrightarrow> pcs s t = SleepReturned d r \<Longrightarrow> pcs s' t = Outside"
  by (induction rule: sleep_step.induct) auto

lemma begin_call_only: "begin_step t s s' \<Longrightarrow> pcs s t = Outside \<Longrightarrow> pcs s' t = BeginLock \<and> flag s' = flag s"
  by (induction rule: begin_step.induct) auto

lemma begin_ends: "begin_step t s s' \<Longrightarrow> pcs s t = BeginUnlock \<Longrightarrow> pcs s' t = Outside \<and> flag s' = flag s"
  by (induction rule: begin_step.induct) auto

lemma begin_goes_on:
  "begin_step t s s' \<Longrightarrow> beginning (pcs s t) \<Longrightarrow> pcs s t \<noteq> BeginUnlock \<Longrightarrow>
     beginning (pcs s' t) \<and> (flag s \<longrightarrow> flag s')
     \<and> (flag s = (pcs s t = BeginBroadcast) \<longrightarrow>
          flag s' = (pcs s' t = BeginBroadcast \<or> pcs s' t = BeginUnlock))"
  by (induction rule: begin_step.induct) auto

text \<open>Giving back: where it leads, and that the current snapshot and the client stay.\<close>

fun giving :: "cache_pc \<Rightarrow> bool" where
  "giving Idle = True"
| "giving (Reading p) = True"
| "giving (Releasing p) = True"
| "giving (Freeing p) = True"
| "giving pc = False"

fun give_rank :: "cache_pc \<Rightarrow> nat" where
  "give_rank (Reading p) = 3"
| "give_rank (Releasing p) = 2"
| "give_rank (Freeing p) = 1"
| "give_rank pc = 0"

lemma giving_back_cache: "giving_back t s s' \<Longrightarrow> cache_step s s'"
  by (induction rule: giving_back.induct) (auto intro: cache_step.intros)

lemma release_locked_frame:
  "release_locked p c = Some (refs, c') \<Longrightarrow> current c' = current c \<and> client c' = client c
     \<and> refresher_running c' = refresher_running c"
  by (auto simp: release_locked_def split: option.splits)

lemma free_snapshot_frame:
  "free_snapshot p c = Some c' \<Longrightarrow> current c' = current c \<and> client c' = client c
     \<and> refresher_running c' = refresher_running c"
  by (auto simp: free_snapshot_def pod_list_free_def split: option.splits)

lemma giving_back_frame:
  "giving_back t s s' \<Longrightarrow> threads_inv s' \<Longrightarrow>
     (\<forall>u. u \<noteq> t \<longrightarrow> cache_pcs s' u = cache_pcs s u) \<and> giving (cache_pcs s' t)
     \<and> give_rank (cache_pcs s' t) < give_rank (cache_pcs s t)
     \<and> current (shared s') = current (shared s) \<and> client (shared s') = client (shared s)
     \<and> refresher_running (shared s') = refresher_running (shared s)"
proof (induction rule: giving_back.induct)
  case (give_decrement s p)
  then have "cache_pcs (resume t s (map_option (after_decrement p) (release_locked p (shared s)))) t \<noteq> Faulted"
    unfolding threads_inv_def by blast
  with give_decrement show ?case
    by (auto simp: after_decrement_def split: option.splits dest: release_locked_frame)
next
  case (give_free s p)
  then have "cache_pcs (resume t s (map_option (\<lambda>c. (Idle, c)) (free_snapshot p (shared s)))) t \<noteq> Faulted"
    unfolding threads_inv_def by blast
  with give_free show ?case by (auto split: option.splits dest: free_snapshot_frame)
qed simp

lemma giving_back_enabled:
  "giving (cache_pcs s t) \<Longrightarrow> cache_pcs s t \<noteq> Idle \<Longrightarrow> \<exists>s'. giving_back t s s'"
  by (cases "cache_pcs s t") (auto intro: giving_back.intros)

lemma giving_back_no_reading: "giving_back t s s' \<Longrightarrow> cache_pcs s' t \<noteq> Reading p"
  by (induction rule: giving_back.induct)
     (auto simp: after_decrement_def split: option.split prod.split)

section \<open>The invariant\<close>

text \<open>Where a thread may be in the cache and in the closing signal, by its place in its function.\<close>

definition sender_at :: "sender_pc \<Rightarrow> cache_pc \<Rightarrow> closing_pc \<Rightarrow> bool" where
  "sender_at pc c g \<longleftrightarrow>
     (case pc of
        S_Sends b \<Rightarrow> c = Idle \<or> (\<exists>p. c = Reading p)
      | S_Release b \<Rightarrow> giving c
      | _ \<Rightarrow> c = Idle)
     \<and> (if pc = S_Nap then napping g else g = Outside)"

definition refresher_at :: "refresher_pc \<Rightarrow> cache_pc \<Rightarrow> closing_pc \<Rightarrow> bool" where
  "refresher_at pc c g \<longleftrightarrow> pc \<noteq> R_Faulted
     \<and> (case pc of
          R_Got \<Rightarrow> c = Idle \<or> (\<exists>l. c = Fetched l)
        | R_Drop \<Rightarrow> c = Idle \<or> (\<exists>l. c = Fetched l)
        | R_Store \<Rightarrow> \<exists>l. c = Fetched l
        | R_Swap \<Rightarrow> \<exists>p. c = Allocated p
        | R_Release \<Rightarrow> giving c \<and> (\<forall>p. c \<noteq> Reading p)
        | R_Failed k \<Rightarrow> c = Idle \<and> k \<le> 2
        | _ \<Rightarrow> c = Idle)
     \<and> (if pc = R_Nap then napping g else g = Outside)"

definition main_at :: "main_pc \<Rightarrow> cache_pc \<Rightarrow> closing_pc \<Rightarrow> bool" where
  "main_at pc c g \<longleftrightarrow>
     (if pc = M_Release then giving c \<and> (\<forall>p. c \<noteq> Reading p) else c = Idle)
     \<and> (if pc = M_Begin then beginning g else g = Outside)"

text \<open>The flag, by the place of the thread that raises it.\<close>

definition raised :: "main_pc \<Rightarrow> closing_pc \<Rightarrow> bool" where
  "raised pc g \<longleftrightarrow> (case pc of M_Run \<Rightarrow> False | M_Begin \<Rightarrow> g = BeginBroadcast \<or> g = BeginUnlock | _ \<Rightarrow> True)"

text \<open>Which threads have been joined, and what is left of the cache.\<close>

fun senders_joined :: "nat \<Rightarrow> main_pc \<Rightarrow> nat" where
  "senders_joined n M_Run = 0"
| "senders_joined n M_Begin = 0"
| "senders_joined n (M_Join k) = k"
| "senders_joined n pc = n"

fun refresher_joined :: "main_pc \<Rightarrow> bool" where
  "refresher_joined M_Destroy = True"
| "refresher_joined M_Clear = True"
| "refresher_joined M_Release = True"
| "refresher_joined M_Done = True"
| "refresher_joined pc = False"

definition joined :: "nat \<Rightarrow> threads \<Rightarrow> bool" where
  "joined n s \<longleftrightarrow>
     senders_joined n (th_main s) \<le> n
     \<and> (\<forall>i < senders_joined n (th_main s). th_sender s i = S_Exited)
     \<and> (refresher_joined (th_main s) \<longrightarrow> th_refresher s = R_Exited)
     \<and> (client (shared (th_cache s)) = None
          \<longleftrightarrow> th_main s = M_Clear \<or> th_main s = M_Release \<or> th_main s = M_Done)
     \<and> (th_main s = M_Release \<or> th_main s = M_Done \<longrightarrow> current (shared (th_cache s)) = None)
     \<and> (refresher_running (shared (th_cache s)) \<longleftrightarrow> \<not> refresher_joined (th_main s))"

text \<open>
  The passes of a sender: \<open>up\<close> in all but the last, and \<open>down\<close> only after the flag was raised.
\<close>

lemma chosen_message_simps [simp]:
  "chosen_message True = Down" "chosen_message False = Up"
  "chosen_message b = Down \<longleftrightarrow> b" "Down = chosen_message b \<longleftrightarrow> b"
  "chosen_message b = Up \<longleftrightarrow> \<not> b"
  by (auto simp: chosen_message_def)

definition ups :: "message_kind list \<Rightarrow> bool" where
  "ups ps \<longleftrightarrow> Down \<notin> set ps"

definition passes_ok :: "bool \<Rightarrow> sender_pc \<Rightarrow> message_kind list \<Rightarrow> bool" where
  "passes_ok f pc ps \<longleftrightarrow>
     (case pc of
        S_Pass b \<Rightarrow> ups ps \<and> (b \<longrightarrow> f)
      | S_Sends b \<Rightarrow> ups ps \<and> (b \<longrightarrow> f)
      | S_Release b \<Rightarrow> (\<exists>qs. ps = qs @ [chosen_message b] \<and> ups qs) \<and> (b \<longrightarrow> f)
      | S_Exited \<Rightarrow> (\<exists>qs. ps = qs @ [Down] \<and> ups qs) \<and> f
      | _ \<Rightarrow> ups ps)"

definition broker_inv :: "nat \<Rightarrow> threads \<Rightarrow> bool" where
  "broker_inv n s \<longleftrightarrow>
     closing_inv (th_signal s) \<and> threads_inv (th_cache s)
     \<and> (\<forall>i. sender_at (th_sender s i) (cache_pcs (th_cache s) (sender_id i)) (pcs (th_signal s) (sender_id i)))
     \<and> refresher_at (th_refresher s) (cache_pcs (th_cache s) refresher_id) (pcs (th_signal s) refresher_id)
     \<and> main_at (th_main s) (cache_pcs (th_cache s) main_id) (pcs (th_signal s) main_id)
     \<and> flag (th_signal s) = raised (th_main s) (pcs (th_signal s) main_id)
     \<and> joined n s
     \<and> (\<forall>i. passes_ok (flag (th_signal s)) (th_sender s i) (map fst (th_passes s i)))
     \<and> (\<forall>i. th_sender s i = S_Off \<longleftrightarrow> n \<le> i)"


section \<open>A step of one thread keeps the invariant of the others\<close>

lemma sender_keeps:
  assumes "broker_inv n s" and "i < n" and "th_sender s i \<noteq> S_Exited"
    and "th_main s' = th_main s" and "th_refresher s' = th_refresher s"
    and "th_sender s' = (th_sender s)(i := pc)" and "th_passes s' = (th_passes s)(i := ps)"
    and "flag (th_signal s') = flag (th_signal s)"
    and "\<forall>u. u \<noteq> sender_id i \<longrightarrow> pcs (th_signal s') u = pcs (th_signal s) u"
    and "\<forall>u. u \<noteq> sender_id i \<longrightarrow> cache_pcs (th_cache s') u = cache_pcs (th_cache s) u"
    and "closing_inv (th_signal s')" and "threads_inv (th_cache s')"
    and "sender_at pc (cache_pcs (th_cache s') (sender_id i)) (pcs (th_signal s') (sender_id i))"
    and "passes_ok (flag (th_signal s)) pc (map fst ps)" and "pc \<noteq> S_Off"
    and "current (shared (th_cache s')) = current (shared (th_cache s))"
    and "client (shared (th_cache s')) = client (shared (th_cache s))"
    and "refresher_running (shared (th_cache s')) = refresher_running (shared (th_cache s))"
  shows "broker_inv n s'"
  using assms unfolding broker_inv_def joined_def by (auto simp: not_le)

lemma refresher_keeps:
  assumes "broker_inv n s" and "th_refresher s \<noteq> R_Exited"
    and "th_main s' = th_main s" and "th_sender s' = th_sender s" and "th_passes s' = th_passes s"
    and "flag (th_signal s') = flag (th_signal s)"
    and "\<forall>u. u \<noteq> refresher_id \<longrightarrow> pcs (th_signal s') u = pcs (th_signal s) u"
    and "\<forall>u. u \<noteq> refresher_id \<longrightarrow> cache_pcs (th_cache s') u = cache_pcs (th_cache s) u"
    and "closing_inv (th_signal s')" and "threads_inv (th_cache s')"
    and "refresher_at (th_refresher s') (cache_pcs (th_cache s') refresher_id)
           (pcs (th_signal s') refresher_id)"
    and "client (shared (th_cache s')) = client (shared (th_cache s))"
    and "refresher_running (shared (th_cache s')) = refresher_running (shared (th_cache s))"
  shows "broker_inv n s'"
  using assms unfolding broker_inv_def joined_def
  by (cases "th_main s") auto

lemma passes_ok_mono: "passes_ok f pc ps \<Longrightarrow> f \<longrightarrow> f' \<Longrightarrow> passes_ok f' pc ps"
  by (cases pc) (auto simp: passes_ok_def)

lemma at_wake [simp]:
  "sender_at pc c (wake g) = sender_at pc c g" "refresher_at pc' c (wake g) = refresher_at pc' c g"
  by (simp_all add: sender_at_def refresher_at_def)

lemma main_keeps:
  assumes "broker_inv n s"
    and "th_refresher s' = th_refresher s" and "th_sender s' = th_sender s"
    and "th_passes s' = th_passes s"
    and "flag (th_signal s) \<longrightarrow> flag (th_signal s')"
    and "flag (th_signal s') = raised (th_main s') (pcs (th_signal s') main_id)"
    and "\<forall>u. u \<noteq> main_id \<longrightarrow> pcs (th_signal s') u = pcs (th_signal s) u
           \<or> pcs (th_signal s') u = wake (pcs (th_signal s) u)"
    and "\<forall>u. u \<noteq> main_id \<longrightarrow> cache_pcs (th_cache s') u = cache_pcs (th_cache s) u"
    and "closing_inv (th_signal s')" and "threads_inv (th_cache s')"
    and "main_at (th_main s') (cache_pcs (th_cache s') main_id) (pcs (th_signal s') main_id)"
    and "joined n s'"
  shows "broker_inv n s'"
proof -
  have "sender_at (th_sender s i) (cache_pcs (th_cache s') (sender_id i)) (pcs (th_signal s') (sender_id i))"
    for i
    using assms(1,7,8) unfolding broker_inv_def by (metis at_wake(1) ids_differ(1))
  moreover have "refresher_at (th_refresher s) (cache_pcs (th_cache s') refresher_id)
      (pcs (th_signal s') refresher_id)"
    using assms(1,7,8) unfolding broker_inv_def by (metis at_wake(2) ids_differ(6))
  moreover have "passes_ok (flag (th_signal s')) (th_sender s i) (map fst (th_passes s i))" for i
    using assms(1,5) unfolding broker_inv_def by (blast intro: passes_ok_mono)
  ultimately show ?thesis using assms unfolding broker_inv_def by simp
qed

section \<open>What the sections of the cache leave alone\<close>

lemma acquire_fields:
  "pod_cache_acquire now c = Some (r, c') \<Longrightarrow> current c' = current c \<and> client c' = client c
     \<and> refresher_running c' = refresher_running c"
  by (auto simp: pod_cache_acquire_def split: option.splits if_splits)

lemma list_free_frame:
  "pod_list_free l c = Some c' \<Longrightarrow> current c' = current c \<and> client c' = client c
     \<and> refresher_running c' = refresher_running c"
  by (auto simp: pod_list_free_def split: option.splits)

lemma alloc_frame [simp]:
  "client (publish_alloc p now l c) = client c"
  "refresher_running (publish_alloc p now l c) = refresher_running c"
  by (simp_all add: publish_alloc_def)

lemma swap_frame [simp]:
  "after_swap (publish_swap new c) =
     (case current c of None \<Rightarrow> Idle | Some p \<Rightarrow> Releasing p, c\<lparr>current := new\<rparr>)"
  by (auto simp: after_swap_def publish_swap_def split: option.split)

text \<open>A section that does not fault has an outcome.\<close>

lemma resumed_some:
  assumes "threads_inv (resume t s r)"
  shows "\<exists>pc c. r = Some (pc, c)"
proof (cases r)
  case None
  then have "cache_pcs (resume t s r) t = Faulted" by simp
  with assms show ?thesis unfolding threads_inv_def by blast
qed auto


section \<open>Every step keeps the invariant\<close>

lemma broker_parts:
  assumes "broker_inv n s"
  shows "closing_inv (th_signal s)" and "threads_inv (th_cache s)"
    and "sender_at (th_sender s i) (cache_pcs (th_cache s) (sender_id i)) (pcs (th_signal s) (sender_id i))"
    and "refresher_at (th_refresher s) (cache_pcs (th_cache s) refresher_id) (pcs (th_signal s) refresher_id)"
    and "main_at (th_main s) (cache_pcs (th_cache s) main_id) (pcs (th_signal s) main_id)"
    and "flag (th_signal s) = raised (th_main s) (pcs (th_signal s) main_id)"
    and "joined n s" and "passes_ok (flag (th_signal s)) (th_sender s i) (map fst (th_passes s i))"
    and "th_sender s i = S_Off \<longleftrightarrow> n \<le> i"
  using assms unfolding broker_inv_def by blast+

lemma sender_step_inv: "sender_step i s s' \<Longrightarrow> i < n \<Longrightarrow> broker_inv n s \<Longrightarrow> broker_inv n s'"
proof (induction rule: sender_step.induct)
  case (s_test s)
  with broker_parts(1,2) [OF s_test(3)] broker_parts(3,8) [OF s_test(3), of i] show ?case
    by (intro sender_keeps [OF s_test(3,2), where pc = "S_Pass (flag (th_signal s))"
          and ps = "th_passes s i"]) (auto simp: sender_at_def passes_ok_def)
next
  case (s_acquire s b)
  note inv = broker_parts(1,2) [OF s_acquire(3)] broker_parts(3,8) [OF s_acquire(3), of i]
  let ?c = "resume (sender_id i) (th_cache s)
    (map_option after_acquire (pod_cache_acquire (now_seconds (clock (th_signal s))) (shared (th_cache s))))"
  have c: "threads_inv ?c"
    using s_acquire inv by (intro acquire_step_inv) (auto simp: sender_at_def)
  from resumed_some [OF c] obtain r c' where
    r: "pod_cache_acquire (now_seconds (clock (th_signal s))) (shared (th_cache s)) = Some (r, c')" by auto
  from c r acquire_fields [OF r] inv s_acquire show ?case
    by (intro sender_keeps [OF s_acquire(3,2), where pc = "S_Sends b" and ps = "th_passes s i"])
       (auto simp: sender_at_def passes_ok_def after_acquire_def split: option.split)
next
  case (s_send s b p)
  note inv = broker_parts(1,2) [OF s_send(4)] broker_parts(3,8) [OF s_send(4), of i]
  from read_step_ok [OF inv(2) s_send(2)] obtain l where
    l: "pods_of (shared (th_cache s)) p = Some l" by auto
  with s_send(2) have c: "threads_inv (resume (sender_id i) (th_cache s)
      (map_option (\<lambda>l. (Reading p, shared (th_cache s))) (pods_of (shared (th_cache s)) p)))"
    by (intro cache_step_inv [OF cache_read inv(2)])
  from c l inv s_send show ?case
    by (intro sender_keeps [OF s_send(4,3), where pc = "S_Release b"
          and ps = "th_passes s i @ [(chosen_message b, pods_of (shared (th_cache s)) p)]"])
       (auto simp: sender_at_def passes_ok_def)
next
  case (s_no_list s b)
  with broker_parts(1,2) [OF s_no_list(4)] broker_parts(3,8) [OF s_no_list(4), of i] show ?case
    by (intro sender_keeps [OF s_no_list(4,3), where pc = "S_Release b" and ps = "th_passes s i @ [(chosen_message b, None)]"])
       (auto simp: sender_at_def passes_ok_def)
next
  case (s_release s b c)
  note inv = broker_parts(1,2) [OF s_release(4)] broker_parts(3,8) [OF s_release(4), of i]
  have c: "threads_inv c" using giving_back_cache [OF s_release(2)] inv(2) by (rule cache_step_inv)
  from giving_back_frame [OF s_release(2) c] c inv s_release show ?case
    by (intro sender_keeps [OF s_release(4,3), where pc = "S_Release b" and ps = "th_passes s i"])
       (auto simp: sender_at_def)
next
  case (s_leave s)
  with broker_parts(1,2) [OF s_leave(4)] broker_parts(3,8) [OF s_leave(4), of i] show ?case
    by (intro sender_keeps [OF s_leave(4,3), where pc = S_Exited and ps = "th_passes s i"])
       (auto simp: sender_at_def passes_ok_def)
next
  case (s_nap s)
  note inv = broker_parts(1,2) [OF s_nap(4)] broker_parts(3,8) [OF s_nap(4), of i]
  then have "ups (map fst (th_passes s i))"
    using s_nap(1) by (auto simp: passes_ok_def ups_def simp del: set_map)
  with inv s_nap show ?case
    by (intro sender_keeps [OF s_nap(4,3), where pc = S_Nap and ps = "th_passes s i"])
       (auto simp: sender_at_def passes_ok_def)
next
  case (s_sleep s g)
  note inv = broker_parts(1,2) [OF s_sleep(5)] broker_parts(3,8) [OF s_sleep(5), of i]
  from sleep_frame [OF s_sleep(2)] sleep_step_inv [OF s_sleep(2) inv(1)] sleep_napping [OF s_sleep(2)]
    inv s_sleep show ?case
    by (intro sender_keeps [OF s_sleep(5,4), where pc = S_Nap and ps = "th_passes s i"])
       (auto simp: sender_at_def)
next
  case (s_wake s g d r)
  note inv = broker_parts(1,2) [OF s_wake(5)] broker_parts(3,8) [OF s_wake(5), of i]
  from sleep_frame [OF s_wake(2)] sleep_step_inv [OF s_wake(2) inv(1)] sleep_returned [OF s_wake(2,3)]
    inv s_wake show ?case
    by (intro sender_keeps [OF s_wake(5,4), where pc = S_Top and ps = "th_passes s i"])
       (auto simp: sender_at_def passes_ok_def)
qed


lemma refresher_step_inv: "refresher_step s s' \<Longrightarrow> broker_inv n s \<Longrightarrow> broker_inv n s'"
proof (induction rule: refresher_step.induct)
  case (r_test s)
  with broker_parts(1,2,4) [OF r_test(2)] show ?case
    by (intro refresher_keeps [OF r_test(2)]) (auto simp: refresher_at_def)
next
  case (r_no_client s)
  with broker_parts(7) [OF r_no_client(3)] have "th_refresher s = R_Exited"
    by (auto simp: joined_def)
  with r_no_client show ?case by simp
next
  case (r_list s l pods)
  note inv = broker_parts(1,2,4) [OF r_list(5)]
  have "cache_pcs (th_cache s) refresher_id = Idle" using inv r_list by (simp add: refresher_at_def)
  from fetch_step_inv [OF inv(2) this r_list(3,4)] inv r_list show ?case
    by (intro refresher_keeps [OF r_list(5)]) (auto simp: refresher_at_def)
next
  case (r_error s)
  with broker_parts(1,2,4) [OF r_error(3)] show ?case
    by (intro refresher_keeps [OF r_error(3)]) (auto simp: refresher_at_def)
next
  case (r_closing s)
  with broker_parts(1,2,4) [OF r_closing(3)] show ?case
    by (intro refresher_keeps [OF r_closing(3)]) (auto simp: refresher_at_def)
next
  case (r_received s)
  with broker_parts(1,2,4) [OF r_received(3)] show ?case
    by (intro refresher_keeps [OF r_received(3)]) (auto simp: refresher_at_def)
next
  case (r_drop s l)
  note inv = broker_parts(1,2,4) [OF r_drop(3)]
  note c = drop_step_inv [OF inv(2) r_drop(2)]
  from resumed_some [OF c] obtain c' where r: "pod_list_free (Some l) (shared (th_cache s)) = Some c'"
    by auto
  from c r list_free_frame [OF r] inv r_drop show ?case
    by (intro refresher_keeps [OF r_drop(3)]) (auto simp: refresher_at_def)
next
  case (r_leave s)
  with broker_parts(1,2,4) [OF r_leave(3)] show ?case
    by (intro refresher_keeps [OF r_leave(3)]) (auto simp: refresher_at_def)
next
  case (r_refuse s l)
  note inv = broker_parts(1,2,4) [OF r_refuse(3)]
  note c = drop_step_inv [OF inv(2) r_refuse(2)]
  from resumed_some [OF c] obtain c' where r: "pod_list_free (Some l) (shared (th_cache s)) = Some c'"
    by auto
  from c r list_free_frame [OF r] inv r_refuse show ?case
    by (intro refresher_keeps [OF r_refuse(3)]) (auto simp: refresher_at_def)
next
  case (r_alloc s l pods p)
  note inv = broker_parts(1,2,4) [OF r_alloc(6)]
  from alloc_step_inv [OF inv(2) r_alloc(2-5)] inv r_alloc show ?case
    by (intro refresher_keeps [OF r_alloc(6)]) (auto simp: refresher_at_def)
next
  case (r_swap s p)
  note inv = broker_parts(1,2,4) [OF r_swap(3)]
  from swap_step_inv [OF inv(2), of refresher_id "Some p"] inv r_swap show ?case
    by (intro refresher_keeps [OF r_swap(3)]) (auto simp: refresher_at_def split: option.splits)
next
  case (r_release s c)
  note inv = broker_parts(1,2,4) [OF r_release(3)]
  have c: "threads_inv c" using giving_back_cache [OF r_release(2)] inv(2) by (rule cache_step_inv)
  from giving_back_frame [OF r_release(2) c] giving_back_no_reading [OF r_release(2)] c inv r_release show ?case
    by (intro refresher_keeps [OF r_release(3)])
       (auto simp: refresher_at_def)
next
  case (r_published s)
  with broker_parts(1,2,4) [OF r_published(3)] show ?case
    by (intro refresher_keeps [OF r_published(3)]) (auto simp: refresher_at_def)
next
  case (r_describe s k age)
  note inv = broker_parts(1,2,4) [OF r_describe(2)]
  have "cache_pcs (th_cache s) refresher_id = Idle" using inv r_describe by (simp add: refresher_at_def)
  note c = cache_step_inv [OF cache_describe [OF this] inv(2), of "now_seconds (clock (th_signal s))" age]
  from c resumed_some [OF c] inv r_describe show ?case
    by (intro refresher_keeps [OF r_describe(2)]) (auto simp: refresher_at_def)
next
  case (r_reported s k)
  with broker_parts(1,2,4) [OF r_reported(2)] show ?case
    by (intro refresher_keeps [OF r_reported(2)]) (auto simp: refresher_at_def)
next
  case (r_sleep s g)
  note inv = broker_parts(1,2,4) [OF r_sleep(4)]
  from sleep_frame [OF r_sleep(2)] sleep_step_inv [OF r_sleep(2) inv(1)] sleep_napping [OF r_sleep(2)]
    inv r_sleep show ?case
    by (intro refresher_keeps [OF r_sleep(4)]) (auto simp: refresher_at_def)
next
  case (r_wake s g d r)
  note inv = broker_parts(1,2,4) [OF r_wake(4)]
  from sleep_frame [OF r_wake(2)] sleep_step_inv [OF r_wake(2) inv(1)] sleep_returned [OF r_wake(2,3)]
    inv r_wake show ?case
    by (intro refresher_keeps [OF r_wake(4)]) (auto simp: refresher_at_def)
qed

lemma client_update_inv [simp]:
  "threads_inv (s\<lparr>shared := (shared s)\<lparr>client := h\<rparr>\<rparr>) = threads_inv s"
  "threads_inv (s\<lparr>shared := (shared s)\<lparr>refresher_running := b\<rparr>\<rparr>) = threads_inv s"
  by (simp_all add: threads_inv_def cache_inv_def refs_exact_def alive_def)

lemma stop_step_inv: "stop_step s s' \<Longrightarrow> broker_inv n s \<Longrightarrow> broker_inv n s'"
proof (induction rule: stop_step.induct)
  case (p_join s)
  with broker_parts(1,2,5-7) [OF p_join(4)] show ?case
    by (intro main_keeps [OF p_join(4)]) (auto simp: main_at_def raised_def joined_def)
next
  case (p_no_refresher s)
  with broker_parts(7) [OF p_no_refresher(3)] show ?case by (auto simp: joined_def)
next
  case (p_destroy s)
  with broker_parts(1,2,5-7) [OF p_destroy(2)] show ?case
    by (intro main_keeps [OF p_destroy(2)])
       (auto simp: main_at_def raised_def joined_def pod_list_client_destroy_def)
next
  case (p_clear s)
  note inv = broker_parts(1,2,5-7) [OF p_clear(2)]
  from swap_step_inv [OF inv(2), of main_id None] inv p_clear show ?case
    by (intro main_keeps [OF p_clear(2)])
       (auto simp: main_at_def raised_def joined_def split: option.splits)
next
  case (p_release s c)
  note inv = broker_parts(1,2,5-7) [OF p_release(3)]
  have c: "threads_inv c" using giving_back_cache [OF p_release(2)] inv(2) by (rule cache_step_inv)
  from giving_back_frame [OF p_release(2) c] giving_back_no_reading [OF p_release(2)] c inv p_release show ?case
    by (intro main_keeps [OF p_release(3)])
       (auto simp: main_at_def raised_def joined_def)
next
  case (p_done s)
  with broker_parts(1,2,5-7) [OF p_done(3)] show ?case
    by (intro main_keeps [OF p_done(3)]) (auto simp: main_at_def raised_def joined_def)
qed

lemma main_step_inv: "main_step n s s' \<Longrightarrow> broker_inv n s \<Longrightarrow> broker_inv n s'"
proof (induction rule: main_step.induct)
  case (m_call s g)
  note inv = broker_parts(1,2,5-7) [OF m_call(3)]
  have "pcs (th_signal s) main_id = Outside" using inv m_call by (simp add: main_at_def)
  from begin_call_only [OF m_call(2) this] begin_frame [OF m_call(2)] begin_step_inv [OF m_call(2)] inv m_call
  show ?case by (intro main_keeps [OF m_call(3)]) (auto simp: main_at_def raised_def joined_def)
next
  case (m_begin s g)
  note inv = broker_parts(1,2,5-7) [OF m_begin(4)]
  have "beginning (pcs (th_signal s) main_id)" using inv m_begin by (simp add: main_at_def)
  from begin_goes_on [OF m_begin(2) this m_begin(3)] begin_frame [OF m_begin(2)]
    begin_step_inv [OF m_begin(2)] inv m_begin
  show ?case by (intro main_keeps [OF m_begin(4)]) (auto simp: main_at_def raised_def joined_def)
next
  case (m_begun s g)
  note inv = broker_parts(1,2,5-7) [OF m_begun(4)]
  from begin_ends [OF m_begun(2,3)] begin_frame [OF m_begun(2)] begin_step_inv [OF m_begun(2)] inv m_begun
  show ?case by (intro main_keeps [OF m_begun(4)]) (auto simp: main_at_def raised_def joined_def)
next
  case (m_join s k)
  with broker_parts(1,2,5-7) [OF m_join(4)] show ?case
    by (intro main_keeps [OF m_join(4)]) (auto simp: main_at_def raised_def joined_def less_Suc_eq)
next
  case (m_joined s k)
  with broker_parts(1,2,5-7) [OF m_joined(3)] show ?case
    by (intro main_keeps [OF m_joined(3)]) (auto simp: main_at_def raised_def joined_def)
next
  case (m_stop s s')
  then show ?case by (rule stop_step_inv)
qed

lemma tick_keeps: "clock g \<le> now \<Longrightarrow> closing_inv g \<Longrightarrow> closing_inv (g\<lparr>clock := now\<rparr>)"
  by (blast intro: closing_step_inv closing_tick)

lemma tick_inv:
  assumes "clock (th_signal s) \<le> now" and "broker_inv n s"
  shows "broker_inv n (s\<lparr>th_signal := (th_signal s)\<lparr>clock := now\<rparr>\<rparr>)"
  using broker_parts(1,2,5-7) [OF assms(2)] assms(1)
  by (intro main_keeps [OF assms(2)]) (simp_all add: tick_keeps joined_def)

lemma moves_inv: "moves n t s s' \<Longrightarrow> broker_inv n s \<Longrightarrow> broker_inv n s'"
  by (induction rule: moves.induct)
     (blast intro: main_step_inv refresher_step_inv sender_step_inv)+

lemma threads_step_inv: "threads_step n s s' \<Longrightarrow> broker_inv n s \<Longrightarrow> broker_inv n s'"
  by (induction rule: threads_step.induct) (blast intro: moves_inv tick_inv)+

lemma threads_start_inv:
  assumes "threads_start n s"
  shows "broker_inv n s"
proof -
  from assms obtain m h where
    c: "shared (th_cache s) = empty_cache\<lparr>max_age := m, client := Some h, refresher_running := True\<rparr>"
    by (auto simp: threads_start_def)
  define k where "k = (th_cache s)\<lparr>shared := empty_cache\<lparr>max_age := m\<rparr>\<rparr>"
  have "threads_inv k"
    using assms by (intro cache_start_inv) (auto simp: cache_start_def threads_start_def k_def)
  then have "threads_inv (k\<lparr>shared := (shared k)\<lparr>client := Some h\<rparr>\<rparr>)" by simp
  then have "threads_inv (k\<lparr>shared := (shared k)\<lparr>client := Some h, refresher_running := True\<rparr>\<rparr>)"
    using client_update_inv(2) [where s = "k\<lparr>shared := (shared k)\<lparr>client := Some h\<rparr>\<rparr>" and b = True] by simp
  moreover have "k\<lparr>shared := (shared k)\<lparr>client := Some h, refresher_running := True\<rparr>\<rparr> = th_cache s"
    using c by (simp add: k_def)
  ultimately have "threads_inv (th_cache s)" by simp
  moreover have "closing_inv (th_signal s)"
    using assms by (intro closing_init_inv) (simp add: threads_start_def)
  ultimately show ?thesis
    using assms c by (auto simp: broker_inv_def threads_start_def closing_init_def sender_at_def
        refresher_at_def main_at_def raised_def joined_def passes_ok_def ups_def)
qed

interpretation broker: invariant_system "threads_start n" "threads_step n" "broker_inv n" for n
  by unfold_locales (auto intro: threads_start_inv threads_step_inv)

text \<open>The closing signal of the whole system is one the protocol of \<open>Closing\<close> reaches.\<close>

lemma sender_signal: "sender_step i s s' \<Longrightarrow> closing_step\<^sup>*\<^sup>* (th_signal s) (th_signal s')"
  by (induction rule: sender_step.induct) (auto intro: closing_step.closing_sleep)

lemma refresher_signal: "refresher_step s s' \<Longrightarrow> closing_step\<^sup>*\<^sup>* (th_signal s) (th_signal s')"
  by (induction rule: refresher_step.induct) (auto intro: closing_step.closing_sleep)

lemma main_signal: "main_step n s s' \<Longrightarrow> closing_step\<^sup>*\<^sup>* (th_signal s) (th_signal s')"
  by (induction rule: main_step.induct) (auto intro: closing_step.closing_begin_by elim!: stop_step.cases)

lemma signal_step: "threads_step n s s' \<Longrightarrow> closing_step\<^sup>*\<^sup>* (th_signal s) (th_signal s')"
proof (induction rule: threads_step.induct)
  case (thread_moves t s s')
  then show ?case by (induction rule: moves.induct) (blast intro: sender_signal refresher_signal main_signal)+
qed (auto intro: closing_step.closing_tick)

lemma signal_reachable: "threads_reachable n s \<Longrightarrow> closing_reachable (th_signal s)"
proof (induction rule: reach.induct)
  case (reach_init s)
  then show ?case by (intro reach.reach_init) (simp add: threads_start_def)
next
  case (reach_step s s')
  then show ?case by (blast intro: reach_steps signal_step)
qed

end
