(* ===== verification/Shutdown.thy ===== *)
theory Shutdown
  imports Broker_Threads
begin

text \<open>
  What stopping a running module amounts to, over every interleaving of its threads (theory
  \<open>Broker_Threads\<close>): nothing is used after it was freed or destroyed, and when
  \<open>cleanup_threads\<close> returns every sender has announced \<open>down\<close> exactly once and nothing is left
  allocated; nobody ever waits for somebody who cannot move; and the threads come to the end of
  it within a number of steps that depends on the number of senders only.
\<close>

section \<open>The end of the shutdown\<close>

lemma all_idle_at_end:
  assumes "broker_inv n s" and "th_main s = M_Done"
  shows "\<forall>i<n. th_sender s i = S_Exited" and "th_refresher s = R_Exited"
    and "\<forall>t. cache_pcs (th_cache s) t = Idle" and "current (shared (th_cache s)) = None"
proof -
  from broker_parts(7) [OF assms(1)] assms(2)
  show s: "\<forall>i<n. th_sender s i = S_Exited" and r: "th_refresher s = R_Exited"
    and "current (shared (th_cache s)) = None"
    by (auto simp: joined_def)
  have "cache_pcs (th_cache s) (sender_id i) = Idle" for i
    using broker_parts(3,9) [OF assms(1), of i] s by (cases "i < n") (auto simp: sender_at_def)
  moreover have "cache_pcs (th_cache s) refresher_id = Idle" "cache_pcs (th_cache s) main_id = Idle"
    using broker_parts(4,5) [OF assms(1)] assms(2) r by (simp_all add: refresher_at_def main_at_def)
  ultimately have "cache_pcs (th_cache s) t = Idle" for t using id_cases [of t] by auto
  then show "\<forall>t. cache_pcs (th_cache s) t = Idle" by simp
qed

text \<open>
  C17. Nothing is used after it is gone. However the senders, the refresh thread and the thread
  running \<open>cleanup_threads\<close> interleave, no section of the cache touches a block that was freed,
  and the refresh thread never asks for a pod list with a client that was destroyed: the joins of
  \<open>pod_cache_stop\<close> keep the client alive as long as the thread that uses it.
\<close>

theorem nothing_used_after_shutdown:
  assumes "threads_reachable n s"
  shows "cache_pcs (th_cache s) t \<noteq> Faulted \<and> th_refresher s \<noteq> R_Faulted
     \<and> (th_refresher s = R_Fetch \<longrightarrow> client (shared (th_cache s)) \<noteq> None)"
proof -
  note inv = broker.reachable_inv [OF assms]
  from broker_parts(7) [OF inv]
  have "th_refresher s = R_Fetch \<longrightarrow> client (shared (th_cache s)) \<noteq> None" by (auto simp: joined_def)
  with broker_parts(2,4) [OF inv] show ?thesis by (simp add: threads_inv_def refresher_at_def)
qed

text \<open>
  C5. A stopped module is silent and has given everything back. When \<open>cleanup_threads\<close> has
  returned, every sender thread and the refresh thread have returned, each sender announced
  \<open>down\<close> in its last pass and in no other one, no client is left, and no snapshot and no pod list
  is allocated any more.
\<close>

theorem shutdown_leaves_nothing:
  assumes "threads_reachable n s" and "th_main s = M_Done"
  shows "(\<forall>i<n. th_sender s i = S_Exited
            \<and> (\<exists>up_passes. map fst (th_passes s i) = up_passes @ [Down] \<and> Down \<notin> set up_passes))
     \<and> th_refresher s = R_Exited
     \<and> client (shared (th_cache s)) = None \<and> \<not> refresher_running (shared (th_cache s))
     \<and> current (shared (th_cache s)) = None
     \<and> dom (snapshots (shared (th_cache s))) = {} \<and> dom (lists (shared (th_cache s))) = {}"
proof -
  note inv = broker.reachable_inv [OF assms(1)]
  note ended = all_idle_at_end [OF inv assms(2)]
  have "\<exists>qs. map fst (th_passes s i) = qs @ [Down] \<and> Down \<notin> set qs" if "i < n" for i
    using broker_parts(8) [OF inv, of i] ended(1) that by (simp add: passes_ok_def ups_def)
  moreover from broker_parts(7) [OF inv] assms(2)
  have "client (shared (th_cache s)) = None" "\<not> refresher_running (shared (th_cache s))"
    by (auto simp: joined_def)
  ultimately show ?thesis
    using ended idle_leaks_nothing [OF broker_parts(2) [OF inv] ended(3)] by simp
qed

section \<open>Nobody waits for somebody who cannot move\<close>

text \<open>Who can be inside the functions of the closing signal.\<close>

lemma signal_places:
  assumes "broker_inv n s"
  shows "pcs (th_signal s) (sender_id i) \<noteq> Outside \<Longrightarrow>
      th_sender s i = S_Nap \<and> napping (pcs (th_signal s) (sender_id i))"
    and "pcs (th_signal s) refresher_id \<noteq> Outside \<Longrightarrow>
      th_refresher s = R_Nap \<and> napping (pcs (th_signal s) refresher_id)"
    and "pcs (th_signal s) main_id \<noteq> Outside \<Longrightarrow>
      th_main s = M_Begin \<and> beginning (pcs (th_signal s) main_id)"
  using broker_parts(3) [OF assms, of i] broker_parts(4,5) [OF assms]
  unfolding sender_at_def refresher_at_def main_at_def by (meson)+

text \<open>A thread that may move and is not one that only waits to be woken.\<close>

definition ready :: "nat \<Rightarrow> threads \<Rightarrow> nat \<Rightarrow> bool" where
  "ready n s t \<longleftrightarrow> (\<exists>s'. moves n t s s') \<and> (\<forall>d. pcs (th_signal s) t \<noteq> SleepWait d)"

lemma sleeping_moves:
  assumes "closing_inv g" and "napping (pcs g t)"
    and "owner g = Some t \<or> owner g = None"
  shows "\<exists>g'. sleep_step t g g'"
proof (cases "pcs g t = Outside")
  case True
  then show ?thesis by (blast intro: sleep_call)
next
  case False
  with holder_moves [OF assms(1), of t] assms(3) obtain g' where "sleep_step t g g' \<or> begin_step t g g'"
    by blast
  moreover have "\<not> begin_step t g g'" using False assms(2) by (auto elim!: begin_step.cases)
  ultimately show ?thesis by blast
qed

lemma sender_nap_moves:
  assumes "broker_inv n s" and "th_sender s i = S_Nap"
    and "owner (th_signal s) = Some (sender_id i) \<or> owner (th_signal s) = None"
  shows "\<exists>s'. moves n (sender_id i) s s'"
proof -
  from broker_parts(3) [OF assms(1), of i] assms(2) have "napping (pcs (th_signal s) (sender_id i))"
    by (simp add: sender_at_def)
  from sleeping_moves [OF broker_parts(1) [OF assms(1)] this assms(3)]
  obtain g where g: "sleep_step (sender_id i) (th_signal s) g" by blast
  from broker_parts(9) [OF assms(1), of i] assms(2) have "i < n" by (simp add: not_le [symmetric])
  then show ?thesis using s_sleep [OF assms(2) g] s_wake [OF assms(2) g] sender_moves by blast
qed

lemma refresher_nap_moves:
  assumes "broker_inv n s" and "th_refresher s = R_Nap"
    and "owner (th_signal s) = Some refresher_id \<or> owner (th_signal s) = None"
  shows "\<exists>s'. moves n refresher_id s s'"
proof -
  from broker_parts(4) [OF assms(1)] assms(2) have "napping (pcs (th_signal s) refresher_id)"
    by (simp add: refresher_at_def)
  from sleeping_moves [OF broker_parts(1) [OF assms(1)] this assms(3)]
  obtain g where g: "sleep_step refresher_id (th_signal s) g" by blast
  then show ?thesis using r_sleep [OF assms(2) g] r_wake [OF assms(2) g] refresher_moves by blast
qed

lemma main_begin_moves:
  assumes "broker_inv n s" and "th_main s = M_Begin"
    and "owner (th_signal s) = Some main_id \<or> owner (th_signal s) = None"
  shows "\<exists>s'. moves n main_id s s'"
proof -
  from broker_parts(5) [OF assms(1)] assms(2) have b: "beginning (pcs (th_signal s) main_id)"
    by (simp add: main_at_def)
  with holder_moves [OF broker_parts(1) [OF assms(1)], of main_id] assms(3)
  obtain g where "sleep_step main_id (th_signal s) g \<or> begin_step main_id (th_signal s) g"
    by (metis beginning.simps(5))
  moreover have "\<not> sleep_step main_id (th_signal s) g" using b by (auto elim!: sleep_step.cases)
  ultimately show ?thesis using m_begin [OF assms(2)] m_begun [OF assms(2)] main_moves by blast
qed

text \<open>Whoever holds the mutex can go on, and is not waiting.\<close>

lemma owner_ready:
  assumes "broker_inv n s" and "owner (th_signal s) = Some t"
  shows "ready n s t"
proof -
  from broker_parts(1) [OF assms(1)] assms(2) have h: "holds_mutex (pcs (th_signal s) t)"
    by (simp add: closing_inv_def mutex_inv_def)
  then have not_out: "pcs (th_signal s) t \<noteq> Outside" by auto
  consider "t = main_id" | "t = refresher_id" | i where "t = sender_id i" using id_cases by blast
  then have "\<exists>s'. moves n t s s'"
  proof cases
    case 1
    with not_out signal_places(3) [OF assms(1)] have "th_main s = M_Begin" by simp
    with main_begin_moves [OF assms(1)] assms(2) 1 show ?thesis by simp
  next
    case 2
    with not_out signal_places(2) [OF assms(1)] have "th_refresher s = R_Nap" by simp
    with refresher_nap_moves [OF assms(1)] assms(2) 2 show ?thesis by simp
  next
    case 3
    with not_out signal_places(1) [OF assms(1), of i] have "th_sender s i = S_Nap" by simp
    with sender_nap_moves [OF assms(1)] assms(2) 3 show ?thesis by simp
  qed
  with h show ?thesis by (auto simp: ready_def)
qed


text \<open>Once the flag is raised and \<open>closing_begin\<close> is over, nobody waits for a signal any more.\<close>

lemma signal_position:
  assumes "broker_inv n s" and "pcs (th_signal s) t = BeginBroadcast"
  shows "th_main s = M_Begin"
proof -
  consider "t = main_id" | "t = refresher_id" | i where "t = sender_id i" using id_cases by blast
  then show ?thesis
  proof cases
    case 1
    with signal_places(3) [OF assms(1)] assms(2) show ?thesis by simp
  next
    case 2
    with signal_places(2) [OF assms(1)] assms(2) show ?thesis by auto
  next
    case (3 i)
    with signal_places(1) [OF assms(1), of i] assms(2) show ?thesis by auto
  qed
qed

lemma nobody_waits:
  assumes "broker_inv n s" and "flag (th_signal s)" and "th_main s \<noteq> M_Begin"
  shows "pcs (th_signal s) t \<noteq> SleepWait d"
  using broker_parts(1) [OF assms(1)] assms(2,3) signal_position [OF assms(1)]
  unfolding closing_inv_def wake_inv_def by blast

lemma sender_moves_on:
  assumes "broker_inv n s" and "i < n" and "th_sender s i \<noteq> S_Exited" and "th_sender s i \<noteq> S_Nap"
  shows "\<exists>s'. sender_step i s s'"
proof (cases "th_sender s i")
  case S_Off
  with broker_parts(9) [OF assms(1), of i] assms(2) show ?thesis by simp
next
  case (S_Sends b)
  with broker_parts(3) [OF assms(1), of i] show ?thesis
    by (auto simp: sender_at_def intro: s_send s_no_list)
next
  case (S_Release b)
  with broker_parts(3) [OF assms(1), of i] have g: "giving (cache_pcs (th_cache s) (sender_id i))"
    by (simp add: sender_at_def)
  show ?thesis
  proof (cases "cache_pcs (th_cache s) (sender_id i) = Idle")
    case True
    with S_Release show ?thesis by (cases b) (auto intro: s_leave s_nap)
  next
    case False
    from giving_back_enabled [OF g False] S_Release show ?thesis by (auto intro: s_release)
  qed
qed (use assms in \<open>auto intro: s_test s_acquire\<close>)

lemma sender_ready:
  assumes "broker_inv n s" and "flag (th_signal s)" and "th_main s \<noteq> M_Begin"
    and "i < n" and "th_sender s i \<noteq> S_Exited"
  shows "\<exists>t. ready n s t"
proof (cases "owner (th_signal s)")
  case None
  have "\<exists>s'. moves n (sender_id i) s s'"
    using sender_nap_moves [OF assms(1), of i] sender_moves_on [OF assms(1,4,5)] None
      sender_moves [OF assms(4)] by blast
  then show ?thesis using nobody_waits [OF assms(1-3)] unfolding ready_def by blast
qed (blast intro: owner_ready [OF assms(1)])

lemma refresher_moves_on:
  assumes "broker_inv n s" and "th_refresher s \<noteq> R_Exited" and "th_refresher s \<noteq> R_Nap"
  shows "\<exists>s'. refresher_step s s'"
proof (cases "th_refresher s")
  case R_Fetch
  then show ?thesis by (cases "client (shared (th_cache s)) = None") (blast intro: r_no_client r_error)+
next
  case R_Got
  then show ?thesis by (cases "flag (th_signal s)") (blast intro: r_closing r_received)+
next
  case R_Drop
  with broker_parts(4) [OF assms(1)] show ?thesis
    by (auto simp: refresher_at_def intro: r_drop r_leave)
next
  case R_Store
  with broker_parts(4) [OF assms(1)] show ?thesis by (auto simp: refresher_at_def intro: r_refuse)
next
  case R_Swap
  with broker_parts(4) [OF assms(1)] show ?thesis by (auto simp: refresher_at_def intro: r_swap)
next
  case R_Release
  with broker_parts(4) [OF assms(1)] have g: "giving (cache_pcs (th_cache s) refresher_id)"
    by (simp add: refresher_at_def)
  from giving_back_enabled [OF g] R_Release show ?thesis
    by (cases "cache_pcs (th_cache s) refresher_id = Idle") (auto intro: r_release r_published)
next
  case R_Faulted
  with broker_parts(4) [OF assms(1)] show ?thesis by (simp add: refresher_at_def)
qed (use assms in \<open>auto intro: r_test r_reported\<close>)

lemma refresher_ready:
  assumes "broker_inv n s" and "flag (th_signal s)" and "th_main s \<noteq> M_Begin"
    and "th_refresher s \<noteq> R_Exited"
  shows "\<exists>t. ready n s t"
proof (cases "owner (th_signal s)")
  case None
  have "\<exists>s'. moves n refresher_id s s'"
    using refresher_nap_moves [OF assms(1)] refresher_moves_on [OF assms(1,4)] None
      refresher_moves by blast
  then show ?thesis using nobody_waits [OF assms(1-3)] unfolding ready_def by blast
qed (blast intro: owner_ready [OF assms(1)])

lemma main_ready:
  assumes "broker_inv n s" and "main_step n s s'"
  shows "ready n s main_id"
  using main_moves [OF assms(2)] broker_parts(5) [OF assms(1)]
  by (auto simp: ready_def main_at_def split: if_splits)

lemma shutdown_ready:
  assumes "broker_inv n s" and "th_main s \<noteq> M_Run" and "th_main s \<noteq> M_Done"
  shows "\<exists>t. ready n s t"
proof (cases "th_main s")
  case M_Begin
  then show ?thesis
  proof (cases "owner (th_signal s)")
    case None
    from main_begin_moves [OF assms(1) M_Begin] None obtain s' where "moves n main_id s s'" by auto
    with broker_parts(5) [OF assms(1)] M_Begin show ?thesis
      by (intro exI [of _ main_id]) (auto simp: ready_def main_at_def)
  qed (blast intro: owner_ready [OF assms(1)])
next
  case (M_Join k)
  with broker_parts(6) [OF assms(1)] have f: "flag (th_signal s)" by (simp add: raised_def)
  consider "\<not> k < n" | "k < n" "th_sender s k = S_Exited" | "k < n" "th_sender s k \<noteq> S_Exited" by blast
  then show ?thesis
  proof cases
    case 1
    from main_ready [OF assms(1) m_joined [OF M_Join 1]] show ?thesis by blast
  next
    case 2
    from main_ready [OF assms(1) m_join [OF M_Join 2]] show ?thesis by blast
  next
    case 3
    with M_Join show ?thesis by (intro sender_ready [OF assms(1) f _ 3]) simp
  qed
next
  case M_Stop
  with broker_parts(6) [OF assms(1)] have f: "flag (th_signal s)" by (simp add: raised_def)
  show ?thesis
  proof (cases "th_refresher s = R_Exited")
    case True
    have "refresher_running (shared (th_cache s))"
      using broker_parts(7) [OF assms(1)] M_Stop by (simp add: joined_def)
    from main_ready [OF assms(1) m_stop [OF p_join [OF M_Stop this True]]] show ?thesis by blast
  next
    case False
    with M_Stop show ?thesis by (intro refresher_ready [OF assms(1) f]) simp_all
  qed
next
  case M_Release
  with broker_parts(5) [OF assms(1)] have g: "giving (cache_pcs (th_cache s) main_id)"
    by (simp add: main_at_def)
  have "\<exists>s'. main_step n s s'"
    using giving_back_enabled [OF g] M_Release
    by (cases "cache_pcs (th_cache s) main_id = Idle") (auto intro: m_stop p_release p_done)
  then show ?thesis using main_ready [OF assms(1)] by blast
next
  case M_Destroy
  from main_ready [OF assms(1) m_stop [OF p_destroy [OF M_Destroy]]] show ?thesis by blast
next
  case M_Clear
  from main_ready [OF assms(1) m_stop [OF p_clear [OF M_Clear]]] show ?thesis by blast
qed (use assms in simp_all)

text \<open>
  C18. A shutdown never gets stuck. From the moment \<open>cleanup_threads\<close> is called until it has
  returned, in every state some thread can take a step, and it is not one that only waits to be
  woken: no join waits for a thread that is blocked for good, and no wake-up that somebody needs
  is still to be sent by a thread that waits itself.
\<close>

theorem shutdown_never_stuck:
  assumes "threads_reachable n s" and "th_main s \<noteq> M_Run" and "th_main s \<noteq> M_Done"
  shows "\<exists>t s'. moves n t s s' \<and> (\<forall>d. pcs (th_signal s) t \<noteq> SleepWait d)"
  using shutdown_ready [OF broker.reachable_inv [OF assms(1)] assms(2,3)] unfolding ready_def by blast


section \<open>The shutdown comes to an end\<close>

text \<open>How many more steps a thread can take once the flag is up, by where it is.\<close>

fun nap_rank :: "closing_pc \<Rightarrow> nat" where
  "nap_rank Outside = 8"
| "nap_rank g = sleep_rank g"

fun sender_work :: "sender_pc \<Rightarrow> cache_pc \<Rightarrow> closing_pc \<Rightarrow> nat" where
  "sender_work S_Off c g = 0"
| "sender_work S_Exited c g = 0"
| "sender_work (S_Release b) c g = (if b then 1 else 16) + give_rank c"
| "sender_work (S_Sends b) c g = (if b then 5 else 20)"
| "sender_work (S_Pass b) c g = (if b then 6 else 21)"
| "sender_work S_Top c g = 7"
| "sender_work S_Nap c g = 7 + nap_rank g"

fun refresher_work :: "refresher_pc \<Rightarrow> cache_pc \<Rightarrow> closing_pc \<Rightarrow> nat" where
  "refresher_work R_Top c g = 1"
| "refresher_work R_Fetch c g = 4"
| "refresher_work R_Got c g = 3"
| "refresher_work R_Drop c g = (case c of Fetched l \<Rightarrow> 2 | _ \<Rightarrow> 1)"
| "refresher_work R_Store c g = 14"
| "refresher_work R_Swap c g = 13"
| "refresher_work R_Release c g = 10 + give_rank c"
| "refresher_work (R_Failed k) c g = 10 + k"
| "refresher_work R_Nap c g = 1 + nap_rank g"
| "refresher_work R_Exited c g = 0"
| "refresher_work R_Faulted c g = 0"

fun main_work :: "nat \<Rightarrow> main_pc \<Rightarrow> cache_pc \<Rightarrow> closing_pc \<Rightarrow> nat" where
  "main_work n M_Run c g = 0"
| "main_work n M_Begin c g = n + (if g = BeginUnlock then 9 else 10)"
| "main_work n (M_Join k) c g = 8 + (n - k)"
| "main_work n M_Stop c g = 7"
| "main_work n M_Destroy c g = 6"
| "main_work n M_Clear c g = 5"
| "main_work n M_Release c g = 1 + give_rank c"
| "main_work n M_Done c g = 0"

definition sender_left :: "threads \<Rightarrow> nat \<Rightarrow> nat" where
  "sender_left s i =
     sender_work (th_sender s i) (cache_pcs (th_cache s) (sender_id i)) (pcs (th_signal s) (sender_id i))"

definition refresher_left :: "threads \<Rightarrow> nat" where
  "refresher_left s =
     refresher_work (th_refresher s) (cache_pcs (th_cache s) refresher_id) (pcs (th_signal s) refresher_id)"

definition main_left :: "nat \<Rightarrow> threads \<Rightarrow> nat" where
  "main_left n s = main_work n (th_main s) (cache_pcs (th_cache s) main_id) (pcs (th_signal s) main_id)"

definition work :: "nat \<Rightarrow> threads \<Rightarrow> nat" where
  "work n s = main_left n s + refresher_left s + (\<Sum>i<n. sender_left s i)"

lemma nap_rank_le: "nap_rank g \<le> 8"
  by (cases g) auto

lemma nap_rank_wake: "nap_rank (wake g) \<le> nap_rank g"
  by (cases g) auto

lemma give_rank_le: "give_rank c \<le> 3"
  by (cases c) auto

lemma sleep_lowers:
  "sleep_step t g g' \<Longrightarrow> flag g \<Longrightarrow> \<forall>d r. pcs g t \<noteq> SleepReturned d r \<Longrightarrow>
     nap_rank (pcs g' t) < nap_rank (pcs g t)"
  by (induction rule: sleep_step.induct) (auto split: if_split)

lemma giving_back_others: "giving_back t s s' \<Longrightarrow> u \<noteq> t \<Longrightarrow> cache_pcs s' u = cache_pcs s u"
  by (induction rule: giving_back.induct) auto

lemma giving_back_lowers: "giving_back t s s' \<Longrightarrow> give_rank (cache_pcs s' t) < give_rank (cache_pcs s t)"
  by (induction rule: giving_back.induct) (auto simp: after_decrement_def split: option.split)

text \<open>What a step leaves alone.\<close>

lemma sender_step_frame:
  "sender_step i s s' \<Longrightarrow>
     th_main s' = th_main s \<and> th_refresher s' = th_refresher s
     \<and> (\<forall>j. j \<noteq> i \<longrightarrow> th_sender s' j = th_sender s j)
     \<and> (\<forall>u. u \<noteq> sender_id i \<longrightarrow>
          pcs (th_signal s') u = pcs (th_signal s) u \<and> cache_pcs (th_cache s') u = cache_pcs (th_cache s) u)"
  by (induction rule: sender_step.induct) (auto simp: giving_back_others dest: sleep_frame)

lemma refresher_step_frame:
  "refresher_step s s' \<Longrightarrow>
     th_main s' = th_main s \<and> th_sender s' = th_sender s
     \<and> (\<forall>u. u \<noteq> refresher_id \<longrightarrow>
          pcs (th_signal s') u = pcs (th_signal s) u \<and> cache_pcs (th_cache s') u = cache_pcs (th_cache s) u)"
  by (induction rule: refresher_step.induct) (auto simp: giving_back_others dest: sleep_frame)

lemma stop_step_frame:
  "stop_step s s' \<Longrightarrow>
     th_refresher s' = th_refresher s \<and> th_sender s' = th_sender s \<and> th_passes s' = th_passes s
     \<and> th_signal s' = th_signal s
     \<and> (\<forall>u. u \<noteq> main_id \<longrightarrow> cache_pcs (th_cache s') u = cache_pcs (th_cache s) u)"
  by (induction rule: stop_step.induct) (auto simp: giving_back_others)

lemma main_step_frame:
  "main_step n s s' \<Longrightarrow>
     th_refresher s' = th_refresher s \<and> th_sender s' = th_sender s \<and> th_passes s' = th_passes s
     \<and> (\<forall>u. u \<noteq> main_id \<longrightarrow> cache_pcs (th_cache s') u = cache_pcs (th_cache s) u
          \<and> (pcs (th_signal s') u = pcs (th_signal s) u \<or> pcs (th_signal s') u = wake (pcs (th_signal s) u)))"
  by (induction rule: main_step.induct) (auto simp: stop_step_frame dest: begin_frame)

text \<open>A step of a thread lowers its own number.\<close>

lemma sender_step_lowers: "sender_step i s s' \<Longrightarrow> flag (th_signal s) \<Longrightarrow> sender_left s' i < sender_left s i"
  unfolding sender_left_def
proof (induction rule: sender_step.induct)
  case (s_nap s)
  then show ?case using nap_rank_le [of "pcs (th_signal s) (sender_id i)"] by simp
qed (auto simp: sleep_lowers sleep_returned giving_back_lowers split: option.split)

lemma refresher_step_lowers:
  "refresher_step s s' \<Longrightarrow> flag (th_signal s) \<Longrightarrow> refresher_left s' < refresher_left s"
  unfolding refresher_left_def
proof (induction rule: refresher_step.induct)
  case (r_published s)
  then show ?case using nap_rank_le [of "pcs (th_signal s) refresher_id"] by simp
next
  case (r_reported s k)
  then show ?case using nap_rank_le [of "pcs (th_signal s) refresher_id"] by simp
next
  case (r_closing s)
  then show ?case by (simp split: cache_pc.split)
qed (auto simp: sleep_lowers sleep_returned giving_back_lowers split: option.split)

lemma stop_step_lowers: "stop_step s s' \<Longrightarrow> main_left n s' < main_left n s"
  unfolding main_left_def
  by (induction rule: stop_step.induct) (auto simp: giving_back_lowers split: option.split)

lemma main_step_lowers:
  "main_step n s s' \<Longrightarrow> broker_inv n s \<Longrightarrow> flag (th_signal s) \<Longrightarrow> main_left n s' < main_left n s"
proof (induction rule: main_step.induct)
  case (m_call s g)
  with broker_parts(6) [OF m_call(3)] show ?case by (simp add: raised_def)
next
  case (m_begin s g)
  with broker_parts(6) [OF m_begin(4)] have "pcs (th_signal s) main_id = BeginBroadcast"
    by (simp add: raised_def)
  with m_begin show ?case by (auto simp: main_left_def elim: begin_step.cases)
next
  case (m_stop s s')
  then show ?case by (simp add: stop_step_lowers)
qed (auto simp: main_left_def dest: begin_ends)

text \<open>It does not raise the number of another thread: the broadcast only lowers that of a sleeper.\<close>

lemma refresher_work_wake: "refresher_work pc c (wake g) \<le> refresher_work pc c g"
  by (cases pc) (simp_all add: nap_rank_wake)

lemma sender_work_wake: "sender_work pc c (wake g) \<le> sender_work pc c g"
  by (cases pc) (simp_all add: nap_rank_wake)

lemma main_step_others:
  assumes "main_step n s s'"
  shows "sender_left s' i \<le> sender_left s i" and "refresher_left s' \<le> refresher_left s"
  using main_step_frame [OF assms] sender_work_wake refresher_work_wake
  unfolding sender_left_def refresher_left_def by (metis ids_differ(1,6) order_refl)+

lemma sum_lowers:
  assumes "(i::nat) < n" and "(f' i::nat) < f i" and "\<forall>j. j \<noteq> i \<longrightarrow> f' j = f j"
  shows "(\<Sum>j<n. f' j) < (\<Sum>j<n. f j)"
proof (rule sum_strict_mono_ex1)
  show "\<forall>j\<in>{..<n}. f' j \<le> f j" using assms by (metis le_less order_refl)
qed (use assms in auto)


lemma work_lowers:
  assumes "moves n t s s'" and "broker_inv n s" and "flag (th_signal s)"
  shows "work n s' < work n s"
  using assms(1)
proof cases
  case main_moves
  have "(\<Sum>i<n. sender_left s' i) \<le> (\<Sum>i<n. sender_left s i)"
    by (intro sum_mono main_step_others(1) [OF main_moves(2)])
  with main_step_others(2) [OF main_moves(2)] main_step_lowers [OF main_moves(2) assms(2,3)]
  show ?thesis unfolding work_def by linarith
next
  case refresher_moves
  from refresher_step_frame [OF refresher_moves(2)]
  have "main_left n s' = main_left n s" "sender_left s' = sender_left s"
    by (auto simp: main_left_def sender_left_def fun_eq_iff)
  with refresher_step_lowers [OF refresher_moves(2) assms(3)] show ?thesis unfolding work_def by simp
next
  case (sender_moves i)
  from sender_step_frame [OF sender_moves(3)]
  have "main_left n s' = main_left n s" "refresher_left s' = refresher_left s"
    and others: "\<forall>j. j \<noteq> i \<longrightarrow> sender_left s' j = sender_left s j"
    by (auto simp: main_left_def refresher_left_def sender_left_def)
  with sum_lowers [OF sender_moves(2), of "sender_left s'" "sender_left s"]
    sender_step_lowers [OF sender_moves(3) assms(3)]
  show ?thesis unfolding work_def by simp
qed

lemma work_tick [simp]: "work n (s\<lparr>th_signal := (th_signal s)\<lparr>clock := now\<rparr>\<rparr>) = work n s"
  by (simp add: work_def main_left_def refresher_left_def sender_left_def)

text \<open>How much it can be when the flag is up.\<close>

lemma left_bounds:
  assumes "broker_inv n s"
  shows "main_left n s \<le> n + 10" and "refresher_left s \<le> 14" and "sender_left s i \<le> 21"
proof -
  show "main_left n s \<le> n + 10"
    using give_rank_le [of "cache_pcs (th_cache s) main_id"]
    by (cases "th_main s") (auto simp: main_left_def)
  show "refresher_left s \<le> 14"
    using broker_parts(4) [OF assms] give_rank_le [of "cache_pcs (th_cache s) refresher_id"]
      nap_rank_le [of "pcs (th_signal s) refresher_id"]
    by (cases "th_refresher s") (auto simp: refresher_left_def refresher_at_def split: cache_pc.split)
  show "sender_left s i \<le> 21"
    using give_rank_le [of "cache_pcs (th_cache s) (sender_id i)"]
      nap_rank_le [of "pcs (th_signal s) (sender_id i)"]
    by (cases "th_sender s i") (auto simp: sender_left_def)
qed

lemma work_bound:
  assumes "broker_inv n s"
  shows "work n s \<le> 22 * n + 24"
proof -
  have "(\<Sum>i<n. sender_left s i) \<le> n * 21"
    using sum_bounded_above [of "{..<n}" "sender_left s" 21] left_bounds(3) [OF assms] by simp
  then show ?thesis using left_bounds(1,2) [OF assms] unfolding work_def by linarith
qed

text \<open>
  A step of some thread, the clock having advanced by any amount before it.
\<close>

definition next_move :: "nat \<Rightarrow> threads \<Rightarrow> threads \<Rightarrow> bool" where
  "next_move n s s' \<longleftrightarrow>
     (\<exists>t now. clock (th_signal s) \<le> now \<and> moves n t (s\<lparr>th_signal := (th_signal s)\<lparr>clock := now\<rparr>\<rparr>) s')"

lemma begin_keeps_flag: "begin_step t g g' \<Longrightarrow> flag g \<Longrightarrow> flag g'"
  by (induction rule: begin_step.induct) auto

lemma moves_flag: "moves n t s s' \<Longrightarrow> flag (th_signal s) \<Longrightarrow> flag (th_signal s')"
  by (induction rule: moves.induct)
     (auto elim!: main_step.cases refresher_step.cases sender_step.cases
       simp: stop_step_frame dest: sleep_frame begin_keeps_flag)

lemma next_move_work:
  assumes "next_move n s s'" and "broker_inv n s" and "flag (th_signal s)"
  shows "broker_inv n s' \<and> flag (th_signal s') \<and> work n s' < work n s"
proof -
  from assms(1) obtain t now where now: "clock (th_signal s) \<le> now"
    and m: "moves n t (s\<lparr>th_signal := (th_signal s)\<lparr>clock := now\<rparr>\<rparr>) s'"
    unfolding next_move_def by blast
  note inv = tick_inv [OF now assms(2)]
  from moves_inv [OF m inv] moves_flag [OF m] work_lowers [OF m inv] assms(3) show ?thesis by simp
qed

lemma moves_work:
  "(next_move n ^^ k) s s' \<Longrightarrow> broker_inv n s \<Longrightarrow> flag (th_signal s) \<Longrightarrow>
     broker_inv n s' \<and> flag (th_signal s') \<and> work n s' + k \<le> work n s"
proof (induction k arbitrary: s')
  case (Suc k)
  from Suc.prems(1) obtain u where "(next_move n ^^ k) s u" and "next_move n u s'" by auto
  with Suc.IH [of u] Suc.prems(2,3) next_move_work [of n u s'] show ?case by fastforce
qed simp

lemma next_move_exists:
  assumes "broker_inv n s" and "th_main s \<noteq> M_Run" and "th_main s \<noteq> M_Done"
  shows "\<exists>s'. next_move n s s'"
proof -
  from shutdown_ready [OF assms] obtain t s' where "moves n t s s'" unfolding ready_def by blast
  then have "moves n t (s\<lparr>th_signal := (th_signal s)\<lparr>clock := clock (th_signal s)\<rparr>\<rparr>) s'" by simp
  then show ?thesis unfolding next_move_def by blast
qed

text \<open>
  C6. The shutdown ends. Once the flag is raised, the threads can take \<open>22 * n + 24\<close> more steps
  altogether, \<open>n\<close> being the number of senders, in whatever order they take them, however long the
  clock runs in between and however often a waiting thread wakes up by itself; and when none can
  take another one, \<open>cleanup_threads\<close> has returned. Nothing depends on the intervals and the
  time-outs that are configured.
\<close>

theorem shutdown_terminates:
  assumes "threads_reachable n s" and "flag (th_signal s)" and "(next_move n ^^ k) s s'"
  shows "k \<le> 22 * n + 24 \<and> ((\<nexists>s''. next_move n s' s'') \<longrightarrow> th_main s' = M_Done)"
proof -
  note inv = broker.reachable_inv [OF assms(1)]
  from moves_work [OF assms(3) inv assms(2)]
  have inv': "broker_inv n s'" and f: "flag (th_signal s')" and "work n s' + k \<le> work n s" by blast+
  moreover have "th_main s' \<noteq> M_Run" using broker_parts(6) [OF inv'] f by (auto simp: raised_def)
  ultimately show ?thesis using work_bound [OF inv] next_move_exists [OF inv'] by fastforce
qed


section \<open>The last announcements\<close>

text \<open>Whether a sender is in a pass that it began before the flag went up.\<close>

definition up_due :: "threads \<Rightarrow> nat \<Rightarrow> nat" where
  "up_due s i = (if th_sender s i = S_Pass False \<or> th_sender s i = S_Sends False then 1 else 0)"

definition ups_in :: "(message_kind \<times> PodList option) list \<Rightarrow> nat" where
  "ups_in ps = length (filter (\<lambda>k. k = Up) (map fst ps))"

lemma sender_step_passes:
  "sender_step i s s' \<Longrightarrow> flag (th_signal s) \<Longrightarrow>
     (\<exists>ys. th_passes s' i = th_passes s i @ ys \<and> ups_in ys + up_due s' i \<le> up_due s i)
     \<and> (\<forall>j. j \<noteq> i \<longrightarrow> th_passes s' j = th_passes s j)"
  by (induction rule: sender_step.induct) (auto simp: up_due_def ups_in_def)

lemma refresher_step_passes: "refresher_step s s' \<Longrightarrow> th_passes s' = th_passes s"
  by (induction rule: refresher_step.induct) simp_all

lemma moves_passes:
  assumes "moves n t s s'" and "flag (th_signal s)"
  shows "\<exists>ys. th_passes s' i = th_passes s i @ ys \<and> ups_in ys + up_due s' i \<le> up_due s i"
  using assms(1)
proof cases
  case main_moves
  with main_step_frame show ?thesis by (fastforce simp: up_due_def ups_in_def)
next
  case refresher_moves
  with refresher_step_passes refresher_step_frame show ?thesis by (fastforce simp: up_due_def ups_in_def)
next
  case (sender_moves j)
  show ?thesis
  proof (cases "j = i")
    case True
    with sender_step_passes [OF sender_moves(3) assms(2)] show ?thesis by blast
  next
    case False
    with sender_step_passes [OF sender_moves(3) assms(2)] sender_step_frame [OF sender_moves(3)]
    show ?thesis by (auto simp: up_due_def ups_in_def)
  qed
qed

lemma run_passes:
  "(next_move n)\<^sup>*\<^sup>* s s' \<Longrightarrow> broker_inv n s \<Longrightarrow> flag (th_signal s) \<Longrightarrow>
     broker_inv n s' \<and> flag (th_signal s')
     \<and> (\<exists>ys. th_passes s' i = th_passes s i @ ys \<and> ups_in ys + up_due s' i \<le> up_due s i)"
proof (induction rule: rtranclp_induct)
  case base
  then show ?case by (auto simp: ups_in_def)
next
  case (step u s')
  then obtain ys where inv: "broker_inv n u" "flag (th_signal u)"
    and ys: "th_passes u i = th_passes s i @ ys" "ups_in ys + up_due u i \<le> up_due s i" by blast
  from step(2) obtain t now where
    "moves n t (u\<lparr>th_signal := (th_signal u)\<lparr>clock := now\<rparr>\<rparr>) s'" unfolding next_move_def by blast
  from moves_passes [OF this, of i] inv(2) obtain zs where
    "th_passes s' i = th_passes u i @ zs" "ups_in zs + up_due s' i \<le> up_due u i"
    by (auto simp: up_due_def)
  with ys have "th_passes s' i = th_passes s i @ (ys @ zs)" "ups_in (ys @ zs) + up_due s' i \<le> up_due s i"
    by (auto simp: ups_in_def)
  with next_move_work [OF step(2) inv] show ?case by blast
qed

lemma passes_end:
  assumes "passes_ok f pc (map fst (ps @ ys))" and "ups_in ys \<le> 1"
  shows "map fst ys \<in> {[], [Up], [Down], [Up, Down]}"
proof (cases "map fst ys" rule: rev_cases)
  case (snoc zs c)
  from assms(1) have "Down \<notin> set (butlast (map fst (ps @ ys)))"
    by (cases pc) (auto simp: passes_ok_def ups_def simp del: set_map map_append dest: in_set_butlastD)
  with snoc have zs: "Down \<notin> set zs" by (simp add: butlast_append)
  then have "filter (\<lambda>k. k = Up) zs = zs" by (auto simp: filter_id_conv) (metis message_kind.exhaust)
  with assms(2) snoc have "length zs + (if c = Down then 0 else 1) \<le> 1"
    unfolding ups_in_def snoc by (cases c) simp_all
  with snoc zs show ?thesis by (cases zs; cases c) (auto, metis message_kind.exhaust)
qed simp

text \<open>
  C27. At most one stale announcement. From the moment the flag is up, a sender makes at most two
  more passes: it may finish the \<open>up\<close> it had already decided on, and then announces \<open>down\<close>; it
  never announces \<open>up\<close> after \<open>down\<close>.
\<close>

theorem at_most_one_stale_up:
  assumes "threads_reachable n s" and "flag (th_signal s)" and "(next_move n)\<^sup>*\<^sup>* s s'"
  shows "\<exists>more. th_passes s' i = th_passes s i @ more
     \<and> map fst more \<in> {[], [Up], [Down], [Up, Down]}"
proof -
  from run_passes [OF assms(3) broker.reachable_inv [OF assms(1)] assms(2), of i] obtain ys where
    inv: "broker_inv n s'" and ys: "th_passes s' i = th_passes s i @ ys" "ups_in ys + up_due s' i \<le> up_due s i"
    by blast
  from ys(2) have "ups_in ys \<le> 1" by (simp add: up_due_def split: if_splits)
  with broker_parts(8) [OF inv, of i] ys(1) passes_end show ?thesis by metis
qed

section \<open>From the start to the end\<close>

text \<open>The configured age limit is never written after the start.\<close>

lemma giving_back_age: "giving_back t s s' \<Longrightarrow> max_age (shared s') = max_age (shared s)"
  by (induction rule: giving_back.induct)
     (auto simp: after_decrement_def release_locked_def free_snapshot_def pod_list_free_def
       split: option.splits)

lemma moves_age: "moves n t s s' \<Longrightarrow> max_age (shared (th_cache s')) = max_age (shared (th_cache s))"
  by (induction rule: moves.induct)
     (auto elim!: main_step.cases stop_step.cases refresher_step.cases sender_step.cases
       simp: giving_back_age after_acquire_def pod_cache_acquire_def pod_list_free_def publish_alloc_def
       split: option.splits if_splits)

lemma steps_age:
  "(threads_step n)\<^sup>*\<^sup>* s s' \<Longrightarrow> max_age (shared (th_cache s')) = max_age (shared (th_cache s))"
proof (induction rule: rtranclp_induct)
  case (step s' s'')
  from step(2) have "max_age (shared (th_cache s'')) = max_age (shared (th_cache s'))"
    by cases (simp_all add: moves_age)
  with step show ?case by simp
qed simp

text \<open>A module that runs can be stopped.\<close>

lemma next_move_steps: "next_move n s s' \<Longrightarrow> (threads_step n)\<^sup>*\<^sup>* s s'"
  unfolding next_move_def
  by (blast intro: clock_ticks thread_moves converse_rtranclp_into_rtranclp r_into_rtranclp)

lemma next_moves_steps: "(next_move n)\<^sup>*\<^sup>* s s' \<Longrightarrow> (threads_step n)\<^sup>*\<^sup>* s s'"
  by (induction rule: rtranclp_induct) (auto dest: next_move_steps)

lemma runs_to_the_end:
  "broker_inv n s \<Longrightarrow> flag (th_signal s) \<Longrightarrow> \<exists>s'. (next_move n)\<^sup>*\<^sup>* s s' \<and> th_main s' = M_Done"
proof (induction "work n s" arbitrary: s rule: less_induct)
  case less
  have "th_main s \<noteq> M_Run" using broker_parts(6) [OF less.prems(1)] less.prems(2)
    by (auto simp: raised_def)
  show ?case
  proof (cases "th_main s = M_Done")
    case False
    from next_move_exists [OF less.prems(1) \<open>th_main s \<noteq> M_Run\<close> False] obtain u where
      u: "next_move n s u" by blast
    with next_move_work [OF u less.prems] less.hyps [of u] show ?thesis
      by (meson converse_rtranclp_into_rtranclp)
  qed blast
qed

lemma moves_next: "moves n t s s' \<Longrightarrow> next_move n s s'"
  unfolding next_move_def by (intro exI [of _ t] exI [of _ "clock (th_signal s)"]) simp

lemma stopped_from:
  assumes "broker_inv n s" and "th_main s = M_Run" and "owner (th_signal s) = None"
  shows "\<exists>s'. (next_move n)\<^sup>*\<^sup>* s s' \<and> th_main s' = M_Done"
proof -
  define at where "at = (\<lambda>f own g. s\<lparr>th_main := M_Begin,
    th_signal := \<lparr>flag = f, clock = clock (th_signal s), owner = own,
      pcs = (pcs (th_signal s))(main_id := g)\<rparr>\<rparr>)"
  have s: "pcs (th_signal s) main_id = Outside" "flag (th_signal s) = False"
    using broker_parts(5,6) [OF assms(1)] assms(2) by (simp_all add: main_at_def raised_def)
  have "main_step n s (at False None BeginLock)"
  proof -
    have "s\<lparr>th_signal := (th_signal s)\<lparr>pcs := (pcs (th_signal s))(main_id := BeginLock)\<rparr>, th_main := M_Begin\<rparr>
        = at False None BeginLock"
      using s assms(3) by (auto simp: at_def intro!: threads.equality closing_sys.equality)
    with m_call [OF assms(2) begin_call [OF s(1)], of n] show ?thesis by simp
  qed
  moreover have "main_step n (at False None BeginLock) (at False (Some main_id) BeginStore)"
    using m_begin [OF _ begin_lock, of "at False None BeginLock" n] by (simp add: at_def)
  moreover have "main_step n (at False (Some main_id) BeginStore) (at True (Some main_id) BeginBroadcast)"
    using m_begin [OF _ begin_store, of "at False (Some main_id) BeginStore" n] by (simp add: at_def)
  ultimately have run: "(next_move n)\<^sup>*\<^sup>* s (at True (Some main_id) BeginBroadcast)"
    by (meson moves_next main_moves converse_rtranclp_into_rtranclp r_into_rtranclp)
  have "broker_inv n (at True (Some main_id) BeginBroadcast)"
    by (rule broker.steps_inv [OF next_moves_steps [OF run] assms(1)])
  then obtain s' where "(next_move n)\<^sup>*\<^sup>* (at True (Some main_id) BeginBroadcast) s'" "th_main s' = M_Done"
    using runs_to_the_end [of n "at True (Some main_id) BeginBroadcast"] by (auto simp: at_def)
  with rtranclp_trans [OF run] show ?thesis by blast
qed

lemma start_to_end:
  assumes "threads_start n s"
  shows "\<exists>s'. (threads_step n)\<^sup>*\<^sup>* s s' \<and> th_main s' = M_Done"
  using stopped_from [OF threads_start_inv [OF assms]] next_moves_steps assms
  by (force simp: threads_start_def closing_init_def)

text \<open>
  The threads of a module as \<open>start_broadcasting\<close> has just created them, the clock reading
  \<open>now\<close>: every sender of \<open>m_senders\<close> and the refresh thread before their first instruction.
\<close>

definition threads_of :: "int \<Rightarrow> module \<Rightarrow> threads" where
  "threads_of now m =
     \<lparr>th_signal = \<lparr>flag = is_closing (m_signal m), clock = now, owner = None, pcs = \<lambda>_. Outside\<rparr>,
      th_cache = \<lparr>shared = m_cache m, cache_pcs = \<lambda>_. Idle\<rparr>,
      th_main = M_Run, th_refresher = R_Top,
      th_sender = \<lambda>i. if i < length (m_senders m) then S_Top else S_Off, th_passes = \<lambda>_. []\<rparr>"

lemma off_is_empty: "cache_off c \<Longrightarrow> c = empty_cache\<lparr>max_age := max_age c\<rparr>"
  by (auto simp: cache_off_def empty_cache_def intro!: cache.equality)

lemma off_unique: "cache_off c \<Longrightarrow> cache_off d \<Longrightarrow> max_age c = max_age d \<Longrightarrow> c = d"
  by (metis off_is_empty)

text \<open>What \<open>start_broadcasting\<close> leaves of a clean module, when the refresh thread could be created.\<close>

lemma start_broadcasting_cache:
  assumes "clean m" and "copies_ok (sw_udp w)" and "new_threads (sw_udp w)"
    and "start_broadcasting w m = Some (m', es)" and "refresher_running (m_cache m')"
  shows "(\<exists>age h. m_cache m' = empty_cache\<lparr>max_age := age, client := Some h, refresher_running := True\<rparr>)
     \<and> m_signal m' = m_signal m"
proof -
  from assms(1) have off: "cache_off (m_cache m)" "no_senders m" by (simp_all add: clean_def)
  obtain ok c where s: "pod_cache_start (uw_getenv (sw_udp w)) (sw_malloc w) (sw_curl_init w)
      (sw_refresher w) (m_cache m) = (ok, c)" by fastforce
  have m1: "no_senders (m\<lparr>m_cache := c\<rparr>)" using off(2) by (simp add: no_senders_def)
  from s off(1) have "snapshots c = (\<lambda>_. None)" "lists c = (\<lambda>_. None)" "current c = None"
    by (auto simp: pod_cache_start_def cache_off_def Let_def split: if_splits)
  then have c: "c = empty_cache\<lparr>max_age := max_age c, client := client c,
      refresher_running := refresher_running c\<rparr>"
    by (auto simp: empty_cache_def intro!: cache.equality)
  show ?thesis
  proof (cases ok)
    case True
    from send_udp_ok [OF assms(2) m1 assms(3), of "m_port m" "m_tls m"] True s assms(4)
    have "m_cache m' = c" "same_module (m\<lparr>m_cache := c\<rparr>) m'"
      by (auto simp: start_broadcasting_def Let_def)
    moreover have "refresher_running c" "client c \<noteq> None"
      using True s off(1) by (auto simp: pod_cache_start_def cache_off_def Let_def split: if_splits)
    ultimately show ?thesis using c unfolding same_module_def
      by (intro conjI) (metis option.exhaust, simp)
  next
    case False
    with s assms(4,5) off(1) show ?thesis
      by (auto simp: start_broadcasting_def pod_cache_start_def cache_off_def Let_def split: if_splits)
  qed
qed

lemma threads_of_start:
  assumes "m_cache m = empty_cache\<lparr>max_age := age, client := Some h, refresher_running := True\<rparr>"
    and "\<not> is_closing (m_signal m)"
  shows "threads_start (length (m_senders m)) (threads_of now m)"
  using assms by (auto simp: threads_start_def threads_of_def closing_init_def fun_eq_iff)

text \<open>The cache at the end is what \<open>pod_cache_stop\<close> leaves of it, run alone.\<close>

lemma end_of_run:
  assumes "threads_start n s" and "(threads_step n)\<^sup>*\<^sup>* s s'" and "th_main s' = M_Done"
  shows "cache_off (shared (th_cache s'))" and "max_age (shared (th_cache s')) = max_age (shared (th_cache s))"
    and "\<forall>i<n. th_sender s' i = S_Exited" and "th_refresher s' = R_Exited" and "flag (th_signal s')"
proof -
  have inv: "broker_inv n s'"
    by (rule broker.steps_inv [OF assms(2) threads_start_inv [OF assms(1)]])
  note ended = all_idle_at_end [OF inv assms(3)]
  show "\<forall>i<n. th_sender s' i = S_Exited" and "th_refresher s' = R_Exited" using ended by blast+
  show "flag (th_signal s')" using broker_parts(6) [OF inv] assms(3) by (simp add: raised_def)
  show "max_age (shared (th_cache s')) = max_age (shared (th_cache s))" by (rule steps_age [OF assms(2)])
  have "snapshots (shared (th_cache s')) = (\<lambda>_. None)" "lists (shared (th_cache s')) = (\<lambda>_. None)"
    using idle_leaks_nothing [OF broker_parts(2) [OF inv] ended(3)] ended(4) by (simp_all add: dom_eq_empty_conv)
  with broker_parts(7) [OF inv] assms(3) ended(4) show "cache_off (shared (th_cache s'))"
    by (auto simp: cache_off_def joined_def)
qed

section \<open>Witnesses\<close>

text \<open>
  A broker with one sender that is stopped before its first pass: the flag goes up, the sender
  announces \<open>down\<close> to nobody, the refresh thread leaves, and the client is destroyed.
\<close>

definition demo_threads ::
  "bool \<Rightarrow> nat option \<Rightarrow> closing_pc \<Rightarrow> bool \<Rightarrow> bool \<Rightarrow> main_pc \<Rightarrow> refresher_pc \<Rightarrow> sender_pc \<Rightarrow>
    (message_kind \<times> PodList option) list \<Rightarrow> threads"
  where
  "demo_threads f own g handle running m r sd ps =
     \<lparr>th_signal = \<lparr>flag = f, clock = 0, owner = own, pcs = (\<lambda>_. Outside)(main_id := g)\<rparr>,
      th_cache = \<lparr>shared = empty_cache\<lparr>client := if handle then Some new_handle else None, refresher_running := running\<rparr>,
                  cache_pcs = \<lambda>_. Idle\<rparr>,
      th_main = m, th_refresher = r, th_sender = (\<lambda>_. S_Off)(0 := sd), th_passes = (\<lambda>_. [])(0 := ps)\<rparr>"

lemma const_upd [simp]: "(\<lambda>_. c)(x := c) = (\<lambda>_. c)"
  by auto

lemma wake_upd [simp]: "(\<lambda>u. wake (if u = t then g else Outside))(t := g') = (\<lambda>_. Outside)(t := g')"
  by auto

lemma demo_by:
  "threads_reachable 1 s \<Longrightarrow> main_step 1 s s' \<Longrightarrow> threads_reachable 1 s'"
  "threads_reachable 1 s \<Longrightarrow> refresher_step s s' \<Longrightarrow> threads_reachable 1 s'"
  "threads_reachable 1 s \<Longrightarrow> sender_step 0 s s' \<Longrightarrow> threads_reachable 1 s'"
  by (blast intro: reach_step threads_step.intros moves.intros zero_less_one)+

lemma demo_started: "threads_reachable 1 (demo_threads False None Outside True True M_Run R_Top S_Top [])"
proof (rule reach_init)
  have "empty_cache\<lparr>client := Some new_handle, refresher_running := True\<rparr>
      = empty_cache\<lparr>max_age := 0, client := Some new_handle, refresher_running := True\<rparr>"
    by (simp add: empty_cache_def)
  then show "threads_start 1 (demo_threads False None Outside True True M_Run R_Top S_Top [])"
    by (auto simp: threads_start_def demo_threads_def closing_init_def fun_eq_iff)
qed

lemma demo_raised: "threads_reachable 1 (demo_threads True (Some main_id) BeginBroadcast True True M_Begin R_Top S_Top [])"
proof -
  have "main_step 1 (demo_threads False None Outside True True M_Run R_Top S_Top [])
      (demo_threads False None BeginLock True True M_Begin R_Top S_Top [])"
    using m_call [OF _ begin_call [of "th_signal (demo_threads False None Outside True True M_Run R_Top S_Top [])" main_id]]
    by (simp add: demo_threads_def)
  from demo_by(1) [OF demo_started this]
  have s0: "threads_reachable 1 (demo_threads False None BeginLock True True M_Begin R_Top S_Top [])" .
  have "main_step 1 (demo_threads False None BeginLock True True M_Begin R_Top S_Top [])
      (demo_threads False (Some main_id) BeginStore True True M_Begin R_Top S_Top [])"
    using m_begin [OF _ begin_lock [of "th_signal (demo_threads False None BeginLock True True M_Begin R_Top S_Top [])" main_id]]
    by (simp add: demo_threads_def)
  from demo_by(1) [OF s0 this]
  have s1: "threads_reachable 1 (demo_threads False (Some main_id) BeginStore True True M_Begin R_Top S_Top [])" .
  have "main_step 1 (demo_threads False (Some main_id) BeginStore True True M_Begin R_Top S_Top [])
      (demo_threads True (Some main_id) BeginBroadcast True True M_Begin R_Top S_Top [])"
    using m_begin [OF _ begin_store [of "th_signal (demo_threads False (Some main_id) BeginStore True True M_Begin R_Top S_Top [])" main_id]]
    by (simp add: demo_threads_def)
  from demo_by(1) [OF s1 this]
  have s2: "threads_reachable 1 (demo_threads True (Some main_id) BeginBroadcast True True M_Begin R_Top S_Top [])" .
  show ?thesis by (rule s2)
qed

lemma demo_announced: "threads_reachable 1 (demo_threads True None Outside True True (M_Join 0) R_Top S_Exited [(Down, None)])"
proof -
  have "main_step 1 (demo_threads True (Some main_id) BeginBroadcast True True M_Begin R_Top S_Top [])
      (demo_threads True (Some main_id) BeginUnlock True True M_Begin R_Top S_Top [])"
    using m_begin [OF _ begin_broadcast [of "th_signal (demo_threads True (Some main_id) BeginBroadcast True True M_Begin R_Top S_Top [])" main_id]]
    by (simp add: demo_threads_def)
  from demo_by(1) [OF demo_raised this]
  have s0: "threads_reachable 1 (demo_threads True (Some main_id) BeginUnlock True True M_Begin R_Top S_Top [])" .
  have "main_step 1 (demo_threads True (Some main_id) BeginUnlock True True M_Begin R_Top S_Top [])
      (demo_threads True None Outside True True (M_Join 0) R_Top S_Top [])"
    using m_begun [OF _ begin_unlock [of "th_signal (demo_threads True (Some main_id) BeginUnlock True True M_Begin R_Top S_Top [])" main_id]]
    by (simp add: demo_threads_def)
  from demo_by(1) [OF s0 this]
  have s1: "threads_reachable 1 (demo_threads True None Outside True True (M_Join 0) R_Top S_Top [])" .
  have "sender_step 0 (demo_threads True None Outside True True (M_Join 0) R_Top S_Top [])
      (demo_threads True None Outside True True (M_Join 0) R_Top (S_Pass True) [])"
    using s_test [of "demo_threads True None Outside True True (M_Join 0) R_Top S_Top []" 0]
    by (simp add: demo_threads_def)
  from demo_by(3) [OF s1 this]
  have s2: "threads_reachable 1 (demo_threads True None Outside True True (M_Join 0) R_Top (S_Pass True) [])" .
  have "sender_step 0 (demo_threads True None Outside True True (M_Join 0) R_Top (S_Pass True) [])
      (demo_threads True None Outside True True (M_Join 0) R_Top (S_Sends True) [])"
    using s_acquire [of "demo_threads True None Outside True True (M_Join 0) R_Top (S_Pass True) []" 0]
    by (simp add: demo_threads_def resume_def pod_cache_acquire_def after_acquire_def empty_cache_def)
  from demo_by(3) [OF s2 this]
  have s3: "threads_reachable 1 (demo_threads True None Outside True True (M_Join 0) R_Top (S_Sends True) [])" .
  have "sender_step 0 (demo_threads True None Outside True True (M_Join 0) R_Top (S_Sends True) [])
      (demo_threads True None Outside True True (M_Join 0) R_Top (S_Release True) [(Down, None)])"
    using s_no_list [of "demo_threads True None Outside True True (M_Join 0) R_Top (S_Sends True) []" 0]
    by (simp add: demo_threads_def)
  from demo_by(3) [OF s3 this]
  have s4: "threads_reachable 1 (demo_threads True None Outside True True (M_Join 0) R_Top (S_Release True) [(Down, None)])" .
  have "sender_step 0 (demo_threads True None Outside True True (M_Join 0) R_Top (S_Release True) [(Down, None)])
      (demo_threads True None Outside True True (M_Join 0) R_Top S_Exited [(Down, None)])"
    using s_leave [of "demo_threads True None Outside True True (M_Join 0) R_Top (S_Release True) [(Down, None)]" 0]
    by (simp add: demo_threads_def)
  from demo_by(3) [OF s4 this]
  have s5: "threads_reachable 1 (demo_threads True None Outside True True (M_Join 0) R_Top S_Exited [(Down, None)])" .
  show ?thesis by (rule s5)
qed

lemma demo_stopped: "threads_reachable 1 (demo_threads True None Outside False False M_Done R_Exited S_Exited [(Down, None)])"
proof -
  have "main_step 1 (demo_threads True None Outside True True (M_Join 0) R_Top S_Exited [(Down, None)])
      (demo_threads True None Outside True True (M_Join 1) R_Top S_Exited [(Down, None)])"
    using m_join [of "demo_threads True None Outside True True (M_Join 0) R_Top S_Exited [(Down, None)]"]
    by (simp add: demo_threads_def)
  from demo_by(1) [OF demo_announced this]
  have s0: "threads_reachable 1 (demo_threads True None Outside True True (M_Join 1) R_Top S_Exited [(Down, None)])" .
  have "main_step 1 (demo_threads True None Outside True True (M_Join 1) R_Top S_Exited [(Down, None)])
      (demo_threads True None Outside True True M_Stop R_Top S_Exited [(Down, None)])"
    using m_joined [of "demo_threads True None Outside True True (M_Join 1) R_Top S_Exited [(Down, None)]"]
    by (simp add: demo_threads_def)
  from demo_by(1) [OF s0 this]
  have s1: "threads_reachable 1 (demo_threads True None Outside True True M_Stop R_Top S_Exited [(Down, None)])" .
  have "refresher_step (demo_threads True None Outside True True M_Stop R_Top S_Exited [(Down, None)])
      (demo_threads True None Outside True True M_Stop R_Exited S_Exited [(Down, None)])"
    using r_test [of "demo_threads True None Outside True True M_Stop R_Top S_Exited [(Down, None)]"]
    by (simp add: demo_threads_def)
  from demo_by(2) [OF s1 this]
  have s2: "threads_reachable 1 (demo_threads True None Outside True True M_Stop R_Exited S_Exited [(Down, None)])" .
  have "main_step 1 (demo_threads True None Outside True True M_Stop R_Exited S_Exited [(Down, None)])
      (demo_threads True None Outside True False M_Destroy R_Exited S_Exited [(Down, None)])"
    using m_stop [OF p_join [of "demo_threads True None Outside True True M_Stop R_Exited S_Exited [(Down, None)]"]]
    by (simp add: demo_threads_def)
  from demo_by(1) [OF s2 this]
  have s3: "threads_reachable 1 (demo_threads True None Outside True False M_Destroy R_Exited S_Exited [(Down, None)])" .
  have "main_step 1 (demo_threads True None Outside True False M_Destroy R_Exited S_Exited [(Down, None)])
      (demo_threads True None Outside False False M_Clear R_Exited S_Exited [(Down, None)])"
    using m_stop [OF p_destroy [of "demo_threads True None Outside True False M_Destroy R_Exited S_Exited [(Down, None)]"]]
    by (simp add: demo_threads_def pod_list_client_destroy_def empty_cache_def)
  from demo_by(1) [OF s3 this]
  have s4: "threads_reachable 1 (demo_threads True None Outside False False M_Clear R_Exited S_Exited [(Down, None)])" .
  have "main_step 1 (demo_threads True None Outside False False M_Clear R_Exited S_Exited [(Down, None)])
      (demo_threads True None Outside False False M_Release R_Exited S_Exited [(Down, None)])"
    using m_stop [OF p_clear [of "demo_threads True None Outside False False M_Clear R_Exited S_Exited [(Down, None)]"]]
    by (simp add: demo_threads_def resume_def empty_cache_def)
  from demo_by(1) [OF s4 this]
  have s5: "threads_reachable 1 (demo_threads True None Outside False False M_Release R_Exited S_Exited [(Down, None)])" .
  have "main_step 1 (demo_threads True None Outside False False M_Release R_Exited S_Exited [(Down, None)])
      (demo_threads True None Outside False False M_Done R_Exited S_Exited [(Down, None)])"
    using m_stop [OF p_done [of "demo_threads True None Outside False False M_Release R_Exited S_Exited [(Down, None)]"]]
    by (simp add: demo_threads_def)
  from demo_by(1) [OF s5 this]
  have s6: "threads_reachable 1 (demo_threads True None Outside False False M_Done R_Exited S_Exited [(Down, None)])" .
  show ?thesis by (rule s6)
qed

lemma nothing_used_after_shutdown_witness:
  "th_refresher (demo_threads True (Some main_id) BeginBroadcast True True M_Begin R_Top S_Top []) \<noteq> R_Faulted"
  using nothing_used_after_shutdown [OF demo_raised] by blast

lemma shutdown_leaves_nothing_witness:
  "th_passes (demo_threads True None Outside False False M_Done R_Exited S_Exited [(Down, None)]) 0 = [] @ [(Down, None)]
   \<and> client (shared (th_cache (demo_threads True None Outside False False M_Done R_Exited S_Exited [(Down, None)]))) = None"
proof -
  have "th_main (demo_threads True None Outside False False M_Done R_Exited S_Exited [(Down, None)]) = M_Done"
    by (simp add: demo_threads_def)
  from shutdown_leaves_nothing [OF demo_stopped this] show ?thesis by (simp add: demo_threads_def)
qed

lemma shutdown_never_stuck_witness:
  "\<exists>t s'. moves 1 t (demo_threads True (Some main_id) BeginBroadcast True True M_Begin R_Top S_Top []) s'"
proof -
  have "th_main (demo_threads True (Some main_id) BeginBroadcast True True M_Begin R_Top S_Top []) = M_Begin"
    by (simp add: demo_threads_def)
  with shutdown_never_stuck [OF demo_raised] show ?thesis by auto
qed

lemma shutdown_terminates_witness:
  "\<exists>k s'. (next_move 1 ^^ k) (demo_threads True (Some main_id) BeginBroadcast True True M_Begin R_Top S_Top []) s'
     \<and> th_main s' = M_Done \<and> k \<le> 46"
proof -
  have f: "flag (th_signal (demo_threads True (Some main_id) BeginBroadcast True True M_Begin R_Top S_Top []))"
    by (simp add: demo_threads_def)
  from runs_to_the_end [OF broker.reachable_inv [OF demo_raised] f] obtain s' k where
    s': "(next_move 1 ^^ k) (demo_threads True (Some main_id) BeginBroadcast True True M_Begin R_Top S_Top []) s'" "th_main s' = M_Done"
    by (auto dest: rtranclp_imp_relpowp)
  from shutdown_terminates [OF demo_raised f s'(1)] s' show ?thesis by auto
qed

lemma at_most_one_stale_up_witness:
  "\<exists>s' more. (next_move 1)\<^sup>*\<^sup>* (demo_threads True (Some main_id) BeginBroadcast True True M_Begin R_Top S_Top []) s' \<and> th_main s' = M_Done
     \<and> th_passes s' 0 = more \<and> map fst more \<in> {[], [Up], [Down], [Up, Down]}"
proof -
  have f: "flag (th_signal (demo_threads True (Some main_id) BeginBroadcast True True M_Begin R_Top S_Top []))"
    and p: "th_passes (demo_threads True (Some main_id) BeginBroadcast True True M_Begin R_Top S_Top []) 0 = []"
    by (simp_all add: demo_threads_def)
  from runs_to_the_end [OF broker.reachable_inv [OF demo_raised] f] obtain s' where
    s': "(next_move 1)\<^sup>*\<^sup>* (demo_threads True (Some main_id) BeginBroadcast True True M_Begin R_Top S_Top []) s'" "th_main s' = M_Done"
    by blast
  from at_most_one_stale_up [OF demo_raised f s'(1), of 0] s' p show ?thesis by auto
qed

end
