(* ===== verification/Announcements.thy ===== *)
theory Announcements
  imports Shutdown
begin

text \<open>
  To whom the senders of a running module announce, while the refresh thread publishes new lists
  and the module is stopped: a pass reaches the list that was visible when it acquired its
  snapshot, whatever happens during the pass, and the last pass, which says \<open>down\<close>, reaches a list
  whenever there is one. That is what lets theory \<open>Sender\<close> run a pass as one operation.
\<close>

section \<open>What a step does to the cache\<close>

text \<open>A section of the cache, a change of the client or of the flag of the refresh thread, or nothing.\<close>

definition cache_moves :: "cache_sys \<Rightarrow> cache_sys \<Rightarrow> bool" where
  "cache_moves c c' \<longleftrightarrow> c' = c \<or> cache_step c c'
     \<or> (\<exists>h r. c' = c\<lparr>shared := (shared c)\<lparr>client := h, refresher_running := r\<rparr>\<rparr>)"

lemma cache_moves_intros [intro]:
  "cache_moves c c" "cache_step c c' \<Longrightarrow> cache_moves c c'"
  "cache_moves c (c\<lparr>shared := (shared c)\<lparr>refresher_running := r\<rparr>\<rparr>)"
  "cache_moves c (c\<lparr>shared := (shared c)\<lparr>client := h\<rparr>\<rparr>)"
proof -
  have "(shared c)\<lparr>refresher_running := r\<rparr> = (shared c)\<lparr>client := client (shared c), refresher_running := r\<rparr>"
    "(shared c)\<lparr>client := h\<rparr> = (shared c)\<lparr>client := h, refresher_running := refresher_running (shared c)\<rparr>"
    by simp_all
  then show "cache_moves c (c\<lparr>shared := (shared c)\<lparr>refresher_running := r\<rparr>\<rparr>)"
    "cache_moves c (c\<lparr>shared := (shared c)\<lparr>client := h\<rparr>\<rparr>)"
    unfolding cache_moves_def by metis+
qed (auto simp: cache_moves_def)

lemma sender_cache: "sender_step i s s' \<Longrightarrow> broker_inv n s \<Longrightarrow> cache_moves (th_cache s) (th_cache s')"
proof (induction rule: sender_step.induct)
  case (s_acquire s b)
  with broker_parts(3) [OF s_acquire(2), of i] show ?case
    by (auto simp: sender_at_def intro!: cache_step.cache_acquire)
qed (auto intro: cache_step.intros giving_back_cache)

lemma refresher_cache: "refresher_step s s' \<Longrightarrow> broker_inv n s \<Longrightarrow> cache_moves (th_cache s) (th_cache s')"
proof (induction rule: refresher_step.induct)
  case (r_list s l pods)
  with broker_parts(4) [OF r_list(5)] show ?case
    by (auto simp: refresher_at_def intro!: cache_step.cache_fetch)
next
  case (r_describe s k age)
  with broker_parts(4) [OF r_describe(2)] show ?case
    by (auto simp: refresher_at_def intro!: cache_step.cache_describe)
qed (auto intro: cache_step.intros giving_back_cache simp del: swap_frame)

lemma stop_cache: "stop_step s s' \<Longrightarrow> broker_inv n s \<Longrightarrow> cache_moves (th_cache s) (th_cache s')"
proof (induction rule: stop_step.induct)
  case (p_clear s)
  with broker_parts(5) [OF p_clear(2)] show ?case
    by (auto simp: main_at_def simp del: swap_frame intro!: cache_step.cache_stop)
qed (auto intro: giving_back_cache)

lemma main_cache: "main_step n s s' \<Longrightarrow> broker_inv n s \<Longrightarrow> cache_moves (th_cache s) (th_cache s')"
  by (induction rule: main_step.induct) (auto intro: stop_cache)

lemma moves_cache: "moves n t s s' \<Longrightarrow> broker_inv n s \<Longrightarrow> cache_moves (th_cache s) (th_cache s')"
  by (induction rule: moves.induct) (auto intro: main_cache refresher_cache sender_cache)

lemma pods_of_frame [simp]: "pods_of (c\<lparr>client := h, refresher_running := r\<rparr>) p = pods_of c p"
  by (simp add: pods_of_def split: option.split)

lemma moves_keep_list:
  assumes "moves n t s s'" and "broker_inv n s" and "cache_pcs (th_cache s) u = Reading p"
  shows "pods_of (shared (th_cache s')) p = pods_of (shared (th_cache s)) p"
proof -
  have "0 < held_by (cache_pcs (th_cache s)) p"
    using assms(3) by (intro threads_held_pos [OF broker_parts(2) [OF assms(2)], of u]) simp
  with moves_cache [OF assms(1,2)] step_keeps_list [OF _ broker_parts(2) [OF assms(2)]] show ?thesis
    unfolding cache_moves_def by auto
qed

section \<open>A pass reaches the list visible at its start\<close>

text \<open>A step of any other thread, or of the clock.\<close>

definition others :: "nat \<Rightarrow> nat \<Rightarrow> threads \<Rightarrow> threads \<Rightarrow> bool" where
  "others n i s s' \<longleftrightarrow> (\<exists>t. t \<noteq> sender_id i \<and> moves n t s s')
     \<or> (\<exists>now. clock (th_signal s) \<le> now \<and> s' = s\<lparr>th_signal := (th_signal s)\<lparr>clock := now\<rparr>\<rparr>)"

lemma moves_others:
  assumes "moves n t s s'" and "t \<noteq> sender_id i"
  shows "th_sender s' i = th_sender s i \<and> th_passes s' i = th_passes s i
     \<and> cache_pcs (th_cache s') (sender_id i) = cache_pcs (th_cache s) (sender_id i)"
  using assms
proof (induction rule: moves.induct)
  case (main_moves s s')
  then show ?case using main_step_frame by simp
next
  case (refresher_moves s s')
  then show ?case using refresher_step_frame refresher_step_passes by simp
next
  case (sender_moves j s s')
  then have "j \<noteq> i" by auto
  moreover have "th_passes s' i = th_passes s i"
    using sender_moves(2) \<open>j \<noteq> i\<close> by (induction rule: sender_step.induct) auto
  ultimately show ?case using sender_step_frame [OF sender_moves(2)] by simp
qed

text \<open>What stays of sender \<open>i\<close> and its list while the others run.\<close>

definition pass_frame :: "nat \<Rightarrow> threads \<Rightarrow> threads \<Rightarrow> bool" where
  "pass_frame i s s' \<longleftrightarrow> th_sender s' i = th_sender s i \<and> th_passes s' i = th_passes s i
     \<and> cache_pcs (th_cache s') (sender_id i) = cache_pcs (th_cache s) (sender_id i)
     \<and> (\<forall>p. cache_pcs (th_cache s) (sender_id i) = Reading p \<longrightarrow>
          pods_of (shared (th_cache s')) p = pods_of (shared (th_cache s)) p)"

lemma others_frame: "others n i s s' \<Longrightarrow> broker_inv n s \<Longrightarrow> broker_inv n s' \<and> pass_frame i s s'"
  unfolding others_def pass_frame_def
  by (auto simp: moves_others moves_keep_list intro: moves_inv tick_inv)

lemma others_run: "(others n i)\<^sup>*\<^sup>* s s' \<Longrightarrow> broker_inv n s \<Longrightarrow> broker_inv n s' \<and> pass_frame i s s'"
proof (induction rule: rtranclp_induct)
  case base
  then show ?case by (simp add: pass_frame_def)
next
  case (step u s')
  with others_frame [OF step(2)] show ?case by (auto simp: pass_frame_def)
qed

text \<open>Acquiring finds what is visible.\<close>

lemma acquired_is_visible:
  assumes "cache_inv held dying loose c" and "pod_cache_acquire now c = Some (r, c')"
  shows "(case r of None \<Rightarrow> None | Some p \<Rightarrow> pods_of c' p) = visible_list now c"
proof (cases "current c")
  case None
  with assms(2) show ?thesis by (auto simp: pod_cache_acquire_def visible_list_def cache_view_def)
next
  case (Some p)
  with inv_pods_of [OF assms(1), of p] obtain l where l: "pods_of c p = Some l" by auto
  with Some assms(2) show ?thesis
    by (auto simp: pod_cache_acquire_def visible_list_def cache_view_def pods_of_def split: option.splits if_splits)
qed


text \<open>The two steps of a sender that make a pass: taking a snapshot, and sending to its pods.\<close>

lemma sender_moves_only: "moves n (sender_id i) s s' \<Longrightarrow> i < n \<and> sender_step i s s'"
  by (auto elim: moves.cases)

lemma acquire_step:
  assumes "broker_inv n s" and "moves n (sender_id i) s s'" and "th_sender s i = S_Pass b"
  defines "now \<equiv> now_seconds (clock (th_signal s))"
  shows "th_sender s' i = S_Sends b \<and> th_passes s' i = th_passes s i
     \<and> (case cache_pcs (th_cache s') (sender_id i) of
          Reading p \<Rightarrow> pods_of (shared (th_cache s')) p = visible_list now (shared (th_cache s))
        | _ \<Rightarrow> visible_list now (shared (th_cache s)) = None)"
proof -
  have s': "s' = s\<lparr>th_cache := resume (sender_id i) (th_cache s)
        (map_option after_acquire (pod_cache_acquire now (shared (th_cache s)))),
      th_sender := (th_sender s)(i := S_Sends b)\<rparr>"
    using sender_moves_only [OF assms(2)] assms(3) by (auto elim!: sender_step.cases simp: now_def)
  have "threads_inv (th_cache s')" using moves_inv [OF assms(2,1)] broker_parts(2) by blast
  then have "threads_inv (resume (sender_id i) (th_cache s)
      (map_option after_acquire (pod_cache_acquire now (shared (th_cache s)))))" by (simp add: s')
  from resumed_some [OF this] obtain r c where
    r: "pod_cache_acquire now (shared (th_cache s)) = Some (r, c)" by auto
  note acquired_is_visible [OF threads_cache_inv [OF broker_parts(2) [OF assms(1)]] r]
  with r show ?thesis by (auto simp: s' after_acquire_def split: option.split)
qed

lemma send_step:
  assumes "broker_inv n s" and "moves n (sender_id i) s s'" and "th_sender s i = S_Sends b"
  shows "th_passes s' i = th_passes s i @ [(chosen_message b, case cache_pcs (th_cache s) (sender_id i) of
      Reading p \<Rightarrow> pods_of (shared (th_cache s)) p | _ \<Rightarrow> None)]"
  using sender_moves_only [OF assms(2)] assms(3) by (auto elim!: sender_step.cases)

text \<open>
  C12. A pass of a sender is as good as atomic. Between the step in which a sender acquires its
  snapshot and the step in which it sends, the other threads may do anything any number of times -
  publish newer lists, give up old ones, raise the flag, and time may pass - and still the sender
  announces, with the message it had decided on, to exactly the list that was visible when it
  acquired the snapshot: the last published one, or none if there was none or it had expired then.
\<close>

theorem pass_is_atomic:
  assumes "threads_reachable n s" and "th_sender s i = S_Pass b"
    and "moves n (sender_id i) s s1" and "(others n i)\<^sup>*\<^sup>* s1 s2" and "moves n (sender_id i) s2 s3"
  shows "th_passes s3 i = th_passes s i
     @ [(if b then Down else Up, visible_list (now_seconds (clock (th_signal s))) (shared (th_cache s)))]"
proof -
  note inv = broker.reachable_inv [OF assms(1)]
  note acquired = acquire_step [OF inv assms(3,2)]
  from others_run [OF assms(4) moves_inv [OF assms(3) inv]]
  have inv2: "broker_inv n s2" and frame: "pass_frame i s1 s2" by blast+
  from frame acquired have "th_sender s2 i = S_Sends b" by (simp add: pass_frame_def)
  from send_step [OF inv2 assms(5) this] frame acquired show ?thesis
    by (auto simp: pass_frame_def split: cache_pc.splits)
qed

section \<open>The last pass reaches somebody\<close>

text \<open>
  What holds of sender \<open>i\<close> once the flag is up, as long as the list cannot expire: there is a
  current list until the cache is cleared, and a sender that says \<open>down\<close> says it to a list.
\<close>

definition last_words :: "sender_pc \<Rightarrow> cache_pc \<Rightarrow> (message_kind \<times> PodList option) list \<Rightarrow> bool" where
  "last_words pc c passes \<longleftrightarrow>
     (case pc of
        S_Sends True \<Rightarrow> \<exists>p. c = Reading p
      | S_Release True \<Rightarrow> \<exists>ps l. passes = ps @ [(Down, Some l)] \<and> good_list l
      | S_Exited \<Rightarrow> \<exists>ps l. passes = ps @ [(Down, Some l)] \<and> good_list l
      | _ \<Rightarrow> True)"

definition farewell :: "nat \<Rightarrow> threads \<Rightarrow> bool" where
  "farewell i s \<longleftrightarrow>
     (current (shared (th_cache s)) \<noteq> None \<or> refresher_joined (th_main s))
     \<and> last_words (th_sender s i) (cache_pcs (th_cache s) (sender_id i)) (th_passes s i)"

lemmas farewell_defs = farewell_def last_words_def

lemma reads_current:
  assumes "threads_inv c" and "current (shared c) \<noteq> None" and "max_age (shared c) \<le> 0"
    and "threads_inv (resume t c (map_option after_acquire (pod_cache_acquire now (shared c))))"
  shows "\<exists>p. cache_pcs (resume t c (map_option after_acquire (pod_cache_acquire now (shared c)))) t = Reading p"
  using resumed_some [OF assms(4)] assms(2,3)
  by (auto simp: pod_cache_acquire_def after_acquire_def split: option.splits if_splits)

lemma giving_back_current: "giving_back t c c' \<Longrightarrow> current (shared c') = current (shared c)"
  by (induction rule: giving_back.induct)
     (auto simp: after_decrement_def dest: release_locked_frame free_snapshot_frame split: option.split)

text \<open>Only \<open>pod_cache_stop\<close> takes the current list away.\<close>

lemma sender_current:
  "sender_step i s s' \<Longrightarrow> current (shared (th_cache s')) = current (shared (th_cache s))"
  by (induction rule: sender_step.induct)
     (auto simp: giving_back_current after_acquire_def dest: acquire_fields split: option.split)

lemma refresher_current:
  "refresher_step s s' \<Longrightarrow> current (shared (th_cache s)) \<noteq> None \<Longrightarrow> current (shared (th_cache s')) \<noteq> None"
  by (induction rule: refresher_step.induct)
     (auto simp: giving_back_current publish_alloc_def dest: list_free_frame split: option.split)

lemma main_current:
  "main_step n s s' \<Longrightarrow> current (shared (th_cache s)) \<noteq> None \<or> refresher_joined (th_main s) \<Longrightarrow>
     current (shared (th_cache s')) \<noteq> None \<or> refresher_joined (th_main s')"
  by (induction rule: main_step.induct) (auto elim!: stop_step.cases)


lemma farewell_sender:
  assumes "sender_step i s s'" and "broker_inv n s" and "broker_inv n s'" and "i < n"
    and "max_age (shared (th_cache s)) \<le> 0" and "farewell i s"
  shows "farewell i s'"
  using assms
proof (induction rule: sender_step.induct)
  case (s_test s)
  then show ?case by (simp add: farewell_defs)
next
  case (s_acquire s b)
  have "\<not> refresher_joined (th_main s)"
  proof
    assume "refresher_joined (th_main s)"
    then have "th_sender s i = S_Exited" using broker_parts(7) [OF s_acquire(2)] \<open>i < n\<close>
      by (cases "th_main s") (auto simp: joined_def)
    with s_acquire(1) show False by simp
  qed
  with s_acquire.prems(5) have c: "current (shared (th_cache s)) \<noteq> None" by (simp add: farewell_def)
  have "threads_inv (resume (sender_id i) (th_cache s) (map_option after_acquire
      (pod_cache_acquire (now_seconds (clock (th_signal s))) (shared (th_cache s)))))"
    using broker_parts(2) [OF s_acquire.prems(2)] by simp
  from reads_current [OF broker_parts(2) [OF s_acquire.prems(1)] c s_acquire.prems(4) this]
    sender_current [OF sender_step.s_acquire [OF s_acquire(1)]] c show ?case
    by (auto simp: farewell_defs split: bool.split simp del: resume_pcs)
next
  case (s_send s b p)
  from read_step_ok [OF broker_parts(2) [OF s_send.prems(1)] s_send(2)] s_send show ?case
    by (auto simp: farewell_defs split: bool.split)
next
  case (s_no_list s b)
  then show ?case by (auto simp: farewell_defs split: bool.splits)
next
  case (s_release s b c)
  then show ?case by (auto simp: farewell_defs giving_back_current split: bool.splits)
qed (auto simp: farewell_defs split: bool.splits)

lemma farewell_moves:
  assumes "moves n t s s'" and "broker_inv n s" and "max_age (shared (th_cache s)) \<le> 0" and "farewell i s"
    and "i < n"
  shows "farewell i s'"
proof (cases "t = sender_id i")
  case True
  with farewell_sender [of i s s' n] sender_moves_only [of n i s s'] moves_inv [OF assms(1,2)] assms
  show ?thesis by blast
next
  case False
  have "current (shared (th_cache s')) \<noteq> None \<or> refresher_joined (th_main s')"
    using assms(1,4) unfolding farewell_def
    by (induction rule: moves.induct)
       (use main_current refresher_current refresher_step_frame sender_current sender_step_frame in metis)+
  with moves_others [OF assms(1) False] assms(4) show ?thesis by (auto simp: farewell_def)
qed

lemma farewell_run:
  "(next_move n)\<^sup>*\<^sup>* s s' \<Longrightarrow> broker_inv n s \<Longrightarrow> max_age (shared (th_cache s)) \<le> 0 \<Longrightarrow> i < n \<Longrightarrow>
     farewell i s \<Longrightarrow> broker_inv n s' \<and> max_age (shared (th_cache s')) \<le> 0 \<and> farewell i s'"
proof (induction rule: rtranclp_induct)
  case (step u s')
  then have u: "broker_inv n u" "max_age (shared (th_cache u)) \<le> 0" "farewell i u" "i < n" by blast+
  from step(2) obtain t now where now: "clock (th_signal u) \<le> now"
    and m: "moves n t (u\<lparr>th_signal := (th_signal u)\<lparr>clock := now\<rparr>\<rparr>) s'" unfolding next_move_def by blast
  note inv = tick_inv [OF now u(1)]
  have "farewell i (u\<lparr>th_signal := (th_signal u)\<lparr>clock := now\<rparr>\<rparr>)" using u(3) by (simp add: farewell_def)
  with farewell_moves [OF m inv] moves_inv [OF m inv] moves_age [OF m] u show ?case by simp
qed blast

text \<open>
  C13. Everybody is told. Suppose the flag goes up while there is a current list and lists do not
  expire, and a sender has not yet taken the snapshot of its last pass. Then, whatever the refresh
  thread still publishes and however the threads interleave, when \<open>cleanup_threads\<close> has returned
  the last thing that sender did was to announce \<open>down\<close> to a list with at least one valid address.
\<close>

theorem down_reaches_a_list:
  assumes "threads_reachable n s" and "current (shared (th_cache s)) \<noteq> None"
    and "max_age (shared (th_cache s)) \<le> 0" and "i < n"
    and "th_sender s i = S_Top \<or> th_sender s i = S_Nap \<or> (\<exists>b. th_sender s i = S_Pass b)
           \<or> th_sender s i = S_Sends False \<or> th_sender s i = S_Release False"
    and "(next_move n)\<^sup>*\<^sup>* s s'" and "th_main s' = M_Done"
  shows "\<exists>before l. th_passes s' i = before @ [(Down, Some l)] \<and> good_list l"
proof -
  have "farewell i s" using assms(2,5) by (auto simp: farewell_defs split: bool.split)
  with farewell_run [OF assms(6) broker.reachable_inv [OF assms(1)] assms(3,4)]
  have "broker_inv n s'" "farewell i s'" by blast+
  moreover have "th_sender s' i = S_Exited"
    using all_idle_at_end(1) [OF \<open>broker_inv n s'\<close> assms(7)] assms(4) by simp
  ultimately show ?thesis by (simp add: farewell_defs)
qed


section \<open>Witnesses\<close>

text \<open>
  A broker with one sender: the refresh thread receives a list and publishes it, the sender
  acquires it, the refresh thread goes to sleep, and the sender announces.
\<close>

definition demo_broker ::
  "cache \<Rightarrow> cache_pc \<Rightarrow> cache_pc \<Rightarrow> refresher_pc \<Rightarrow> sender_pc \<Rightarrow> (message_kind \<times> PodList option) list \<Rightarrow> threads"
  where
  "demo_broker c rc sc r sd ps =
     \<lparr>th_signal = \<lparr>flag = False, clock = 0, owner = None, pcs = \<lambda>_. Outside\<rparr>,
      th_cache = \<lparr>shared = c\<lparr>client := Some new_handle, refresher_running := True\<rparr>,
                  cache_pcs = (\<lambda>_. Idle)(refresher_id := rc, sender_id 0 := sc)\<rparr>,
      th_main = M_Run, th_refresher = r, th_sender = (\<lambda>_. S_Off)(0 := sd), th_passes = (\<lambda>_. [])(0 := ps)\<rparr>"

definition demo_published_at :: "int \<Rightarrow> cache" where
  "demo_published_at refs = \<lparr>snapshots = (\<lambda>_. None)(3 \<mapsto> \<lparr>ps_refs = refs, ps_received_at = 0, ps_pods = 7\<rparr>),
     lists = (\<lambda>_. None)(7 \<mapsto> demo_list), current = Some 3, max_age = 0, refresher_running = False,
     client = None\<rparr>"

lemmas demo_defs = demo_broker_def demo_published_at_def resume_def empty_cache_def

lemma demo_updates [simp]:
  "((\<lambda>_. Idle)(x := a))(y := Idle) = (if x = y then (\<lambda>_. Idle) else (\<lambda>_. Idle)(x := a))"
  "((\<lambda>_. Idle)(refresher_id := a, sender_id 0 := b))(refresher_id := a')
     = (\<lambda>_. Idle)(refresher_id := a', sender_id 0 := b)"
  by auto

lemma demo_begins: "threads_reachable 1 (demo_broker empty_cache Idle Idle R_Top S_Top [])"
proof (rule reach_init)
  have "empty_cache\<lparr>client := Some new_handle, refresher_running := True\<rparr>
      = empty_cache\<lparr>max_age := 0, client := Some new_handle, refresher_running := True\<rparr>"
    by (simp add: empty_cache_def)
  then show "threads_start 1 (demo_broker empty_cache Idle Idle R_Top S_Top [])"
    by (auto simp: threads_start_def demo_broker_def closing_init_def fun_eq_iff)
qed

lemma demo_list_published: "threads_reachable 1 (demo_broker (demo_published_at 1) Idle Idle R_Release S_Top [])"
proof -
  have "refresher_step (demo_broker empty_cache Idle Idle R_Top S_Top [])
      (demo_broker empty_cache Idle Idle R_Fetch S_Top [])"
    using r_test [of "demo_broker empty_cache Idle Idle R_Top S_Top []"]
    by (simp add: demo_defs)
  from demo_by(2) [OF demo_begins this] have s0: "threads_reachable 1
      (demo_broker empty_cache Idle Idle R_Fetch S_Top [])" .
  have "refresher_step (demo_broker empty_cache Idle Idle R_Fetch S_Top [])
      (demo_broker (empty_cache\<lparr>lists := (\<lambda>_. None)(7 \<mapsto> demo_list)\<rparr>) (Fetched 7) Idle R_Got S_Top [])"
    using r_list [of "demo_broker empty_cache Idle Idle R_Fetch S_Top []" 7 demo_list]
    by (simp add: demo_defs demo_list_ok)
  from demo_by(2) [OF s0 this] have s1: "threads_reachable 1
      (demo_broker (empty_cache\<lparr>lists := (\<lambda>_. None)(7 \<mapsto> demo_list)\<rparr>) (Fetched 7) Idle R_Got S_Top [])" .
  have "refresher_step (demo_broker (empty_cache\<lparr>lists := (\<lambda>_. None)(7 \<mapsto> demo_list)\<rparr>) (Fetched 7) Idle R_Got S_Top [])
      (demo_broker (empty_cache\<lparr>lists := (\<lambda>_. None)(7 \<mapsto> demo_list)\<rparr>) (Fetched 7) Idle R_Store S_Top [])"
    using r_received [of "demo_broker (empty_cache\<lparr>lists := (\<lambda>_. None)(7 \<mapsto> demo_list)\<rparr>) (Fetched 7) Idle R_Got S_Top []"]
    by (simp add: demo_defs)
  from demo_by(2) [OF s1 this] have s2: "threads_reachable 1
      (demo_broker (empty_cache\<lparr>lists := (\<lambda>_. None)(7 \<mapsto> demo_list)\<rparr>) (Fetched 7) Idle R_Store S_Top [])" .
  have "refresher_step (demo_broker (empty_cache\<lparr>lists := (\<lambda>_. None)(7 \<mapsto> demo_list)\<rparr>) (Fetched 7) Idle R_Store S_Top [])
      (demo_broker ((demo_published_at 1)\<lparr>current := None\<rparr>) (Allocated 3) Idle R_Swap S_Top [])"
    using r_alloc [of "demo_broker (empty_cache\<lparr>lists := (\<lambda>_. None)(7 \<mapsto> demo_list)\<rparr>) (Fetched 7) Idle R_Store S_Top []" 7 demo_list 3]
    by (simp add: demo_defs publish_alloc_def now_seconds_def demo_list_def)
  from demo_by(2) [OF s2 this] have s3: "threads_reachable 1
      (demo_broker ((demo_published_at 1)\<lparr>current := None\<rparr>) (Allocated 3) Idle R_Swap S_Top [])" .
  have "refresher_step (demo_broker ((demo_published_at 1)\<lparr>current := None\<rparr>) (Allocated 3) Idle R_Swap S_Top [])
      (demo_broker (demo_published_at 1) Idle Idle R_Release S_Top [])"
    using r_swap [of "demo_broker ((demo_published_at 1)\<lparr>current := None\<rparr>) (Allocated 3) Idle R_Swap S_Top []" 3]
    by (simp add: demo_defs)
  from demo_by(2) [OF s3 this] have s4: "threads_reachable 1
      (demo_broker (demo_published_at 1) Idle Idle R_Release S_Top [])" .
  show ?thesis by (rule s4)
qed


lemma demo_pass_begun: "threads_reachable 1
    (demo_broker (demo_published_at 1) Idle Idle R_Release (S_Pass False) [])"
proof -
  have "sender_step 0 (demo_broker (demo_published_at 1) Idle Idle R_Release S_Top [])
      (demo_broker (demo_published_at 1) Idle Idle R_Release (S_Pass False) [])"
    using s_test [of "demo_broker (demo_published_at 1) Idle Idle R_Release S_Top []" 0]
    by (simp add: demo_defs)
  from demo_by(3) [OF demo_list_published this] show ?thesis .
qed

lemma demo_acquires: "moves 1 (sender_id 0)
    (demo_broker (demo_published_at 1) Idle Idle R_Release (S_Pass False) [])
    (demo_broker (demo_published_at 2) Idle (Reading 3) R_Release (S_Sends False) [])"
proof -
  have "sender_step 0 (demo_broker (demo_published_at 1) Idle Idle R_Release (S_Pass False) [])
      (demo_broker (demo_published_at 2) Idle (Reading 3) R_Release (S_Sends False) [])"
    using s_acquire [of "demo_broker (demo_published_at 1) Idle Idle R_Release (S_Pass False) []" 0 False]
    by (simp add: demo_defs pod_cache_acquire_def after_acquire_def now_seconds_def)
  then show ?thesis by (intro sender_moves) simp_all
qed

lemma demo_goes_to_sleep: "others 1 0
    (demo_broker (demo_published_at 2) Idle (Reading 3) R_Release (S_Sends False) [])
    (demo_broker (demo_published_at 2) Idle (Reading 3) R_Nap (S_Sends False) [])"
proof -
  have "refresher_step (demo_broker (demo_published_at 2) Idle (Reading 3) R_Release (S_Sends False) [])
      (demo_broker (demo_published_at 2) Idle (Reading 3) R_Nap (S_Sends False) [])"
    using r_published [of "demo_broker (demo_published_at 2) Idle (Reading 3) R_Release (S_Sends False) []"]
    by (simp add: demo_defs)
  then show ?thesis unfolding others_def using refresher_moves ids_differ(4) by blast
qed

lemma demo_sends: "moves 1 (sender_id 0)
    (demo_broker (demo_published_at 2) Idle (Reading 3) R_Nap (S_Sends False) [])
    (demo_broker (demo_published_at 2) Idle (Reading 3) R_Nap (S_Release False) [(Up, Some demo_list)])"
proof -
  have "sender_step 0 (demo_broker (demo_published_at 2) Idle (Reading 3) R_Nap (S_Sends False) [])
      (demo_broker (demo_published_at 2) Idle (Reading 3) R_Nap (S_Release False) [(Up, Some demo_list)])"
    using s_send [of "demo_broker (demo_published_at 2) Idle (Reading 3) R_Nap (S_Sends False) []" 0 False 3]
    by (simp add: demo_defs pods_of_def)
  then show ?thesis by (intro sender_moves) simp_all
qed

lemma pass_is_atomic_witness:
  "visible_list 0 (shared (th_cache (demo_broker (demo_published_at 1) Idle Idle R_Release (S_Pass False) []))) = Some demo_list"
proof -
  have "th_sender (demo_broker (demo_published_at 1) Idle Idle R_Release (S_Pass False) []) 0 = S_Pass False"
    by (simp add: demo_broker_def)
  from pass_is_atomic [OF demo_pass_begun this demo_acquires r_into_rtranclp [of "others 1 0", OF demo_goes_to_sleep] demo_sends]
  show ?thesis by (simp add: demo_broker_def now_seconds_def)
qed

lemma down_reaches_a_list_witness:
  "\<exists>s' before l. (next_move 1)\<^sup>*\<^sup>* (demo_broker (demo_published_at 1) Idle Idle R_Release S_Top []) s'
     \<and> th_main s' = M_Done \<and> th_passes s' 0 = before @ [(Down, Some l)] \<and> good_list l"
proof -
  let ?s = "demo_broker (demo_published_at 1) Idle Idle R_Release S_Top []"
  have s: "current (shared (th_cache ?s)) \<noteq> None" "max_age (shared (th_cache ?s)) \<le> 0" "th_sender ?s 0 = S_Top"
    "th_main ?s = M_Run" "owner (th_signal ?s) = None"
    by (simp_all add: demo_broker_def demo_published_at_def)
  from stopped_from [OF broker.reachable_inv [OF demo_list_published] s(4,5)] obtain s' where
    run: "(next_move 1)\<^sup>*\<^sup>* ?s s'" "th_main s' = M_Done" by blast
  from down_reaches_a_list [OF demo_list_published s(1,2) zero_less_one _ run] s(3) run show ?thesis by blast
qed

end
