(* ===== verification/Redis_Events.thy ===== *)
theory Redis_Events
  imports Module_System
begin

text \<open>
  How the server events reach the module: what \<open>RedisModule_OnLoad\<close> subscribed decides which callback
  a Redis that fires any sequence of events calls. Which callbacks are called for an event is up to
  Redis, a parameter here; what is assumed of it is what its manual says of
  \<open>RedisModule_SubscribeToServerEvent\<close>.
\<close>

section \<open>Firing an event\<close>

text \<open>The callbacks called, in order, for the subscriptions of a module and the identifier of an event.\<close>

type_synonym dispatcher = "(64 word \<times> hook) list \<Rightarrow> 64 word \<Rightarrow> hook list"

definition calls_subscribed :: "dispatcher \<Rightarrow> bool" where
  "calls_subscribed calls \<longleftrightarrow>
     (\<forall>hooks n. distinct (map fst hooks) \<longrightarrow>
        calls hooks n = (case map_of hooks n of None \<Rightarrow> [] | Some callback \<Rightarrow> [callback]))"

text \<open>
  A call through the function pointer. Both callbacks ignore the event, the subevent and the data
  they are handed; what the calls of \<open>cron_broadcast_once\<close> find is the argument \<open>w\<close>.
\<close>

definition run_hook :: "hook \<Rightarrow> start_world \<Rightarrow> module \<Rightarrow> (module \<times> module_event list) option" where
  "run_hook callback w m =
     (case callback of
        Shutdown_callback \<Rightarrow> map_option (\<lambda>m'. (m', [])) (shutdown_callback m)
      | Cron_broadcast_once \<Rightarrow> cron_broadcast_once w m)"

fun run_hooks :: "hook list \<Rightarrow> start_world \<Rightarrow> module \<Rightarrow> (module \<times> module_event list) option" where
  "run_hooks [] w m = Some (m, [])"
| "run_hooks (callback # callbacks) w m =
     do {
       (m1, es) \<leftarrow> run_hook callback w m;
       (m2, es') \<leftarrow> run_hooks callbacks w m1;
       Some (m2, es @ es')
     }"

text \<open>An event, its subevent, and what the callbacks find when it is fired.\<close>

type_synonym fired = "redis_event \<times> 64 word \<times> start_world"

definition fire :: "dispatcher \<Rightarrow> fired \<Rightarrow> module \<Rightarrow> (module \<times> module_event list) option" where
  "fire calls f m =
     (case f of (e, subevent, w) \<Rightarrow> run_hooks (calls (m_hooks m) (ev_id (RedisModuleEvent_of e))) w m)"

fun fire_all :: "dispatcher \<Rightarrow> fired list \<Rightarrow> module \<Rightarrow> (module \<times> module_event list) option" where
  "fire_all calls [] m = Some (m, [])"
| "fire_all calls (f # fs) m =
     do {
       (m1, es) \<leftarrow> fire calls f m;
       (m2, es') \<leftarrow> fire_all calls fs m1;
       Some (m2, es @ es')
     }"

text \<open>What may be found: memory for the patterns, and different identifiers of different threads.\<close>

definition fired_ok :: "fired \<Rightarrow> bool" where
  "fired_ok f \<longleftrightarrow> (case f of (e, subevent, w) \<Rightarrow> copies_ok (sw_udp w) \<and> new_threads (sw_udp w))"

text \<open>A cron event comes before any shutdown event.\<close>

fun tick_first :: "fired list \<Rightarrow> bool" where
  "tick_first [] = False"
| "tick_first (f # fs) = (fst f = CronLoop \<or> fst f \<noteq> Shutdown_event \<and> tick_first fs)"

section \<open>What the module subscribed\<close>

text \<open>The subscriptions of a loaded module: the shutdown, and the cron when \<open>b\<close>.\<close>

definition subscribed :: "bool \<Rightarrow> module \<Rightarrow> bool" where
  "subscribed b m \<longleftrightarrow> m_hooks m =
     (if b then [(ev_id (RedisModuleEvent_of CronLoop), Cron_broadcast_once)] else [])
     @ [(ev_id (RedisModuleEvent_of Shutdown_event), Shutdown_callback)]"

lemma calls_value:
  assumes "calls_subscribed calls" and "subscribed b m"
  shows "calls (m_hooks m) (ev_id (RedisModuleEvent_of e)) =
     (if e = CronLoop \<and> b then [Cron_broadcast_once]
      else if e = Shutdown_event then [Shutdown_callback] else [])"
proof -
  have "distinct (map fst (m_hooks m))" using assms(2) by (auto simp: subscribed_def event_id_inj)
  with assms show ?thesis by (auto simp: calls_subscribed_def subscribed_def event_id_inj)
qed

lemma cron_hooks:
  assumes "module_ok m" and "copies_ok (sw_udp w)" and "new_threads (sw_udp w)"
    and "cron_broadcast_once w m = Some (m', es)"
  shows "m_hooks m' = m_hooks m \<and> m_signal m' = m_signal m"
proof (cases "m_announced m \<or> is_closing (m_signal m)")
  case True
  with assms(4) show ?thesis by (auto simp: cron_broadcast_once_def)
next
  case False
  with assms(1) have "clean (m\<lparr>m_announced := True\<rparr>)" by (auto simp: module_ok_def module_simps)
  from start_value [OF this assms(2,3)] False assms(4) show ?thesis
    by (auto simp: cron_broadcast_once_def same_module_def)
qed

text \<open>What an event changes of the two flags.\<close>

definition flags_after :: "bool \<Rightarrow> module \<Rightarrow> bool \<Rightarrow> bool \<Rightarrow> module \<Rightarrow> bool" where
  "flags_after b m tick stopped m' \<longleftrightarrow> subscribed b m'
     \<and> is_closing (m_signal m') = (is_closing (m_signal m) \<or> stopped)
     \<and> m_announced m' = (m_announced m \<or> b \<and> tick \<and> \<not> is_closing (m_signal m))"

lemma fire_step:
  assumes "calls_subscribed calls" and "module_reachable apis s" and "ms_loaded s" and "fired_ok f"
    and "subscribed b (ms_module s)"
  shows "\<exists>m' es. fire calls f (ms_module s) = Some (m', es)
     \<and> module_reachable apis (s\<lparr>ms_module := m'\<rparr>)
     \<and> flags_after b (ms_module s) (fst f = CronLoop) (fst f = Shutdown_event) m'"
proof -
  obtain e sub w where f: "f = (e, sub, w)" by (cases f)
  note ok = reachable_ok(1) [OF assms(2)]
  note calls = calls_value [OF assms(1,5), of e]
  have hook: "m_shutdown_hook (ms_module s)" "b \<Longrightarrow> m_cron_hook (ms_module s)"
    using assms(5) by (simp_all add: subscribed_def)
  consider (stop) "e = Shutdown_event" | (tick) "e = CronLoop" b
    | (none) "e \<noteq> Shutdown_event" "\<not> (e = CronLoop \<and> b)" by blast
  then show ?thesis
  proof cases
    case stop
    from cleanup_clean [OF ok] obtain m' where m': "cleanup_threads (ms_module s) = Some m'"
      "is_closing (m_signal m')" "m_hooks m' = m_hooks (ms_module s)"
      "m_announced m' = m_announced (ms_module s)" by blast
    then have "module_reachable apis (s\<lparr>ms_module := m'\<rparr>)"
      using reach_step [OF assms(2) module_shutdown [OF assms(3) hook(1)]] by (simp add: shutdown_callback_def)
    with m' stop f calls assms(5) show ?thesis
      by (simp add: fire_def run_hook_def shutdown_callback_def flags_after_def subscribed_def)
  next
    case tick
    have w: "copies_ok (sw_udp w)" "new_threads (sw_udp w)" using assms(4) f by (auto simp: fired_ok_def)
    from cron_ok [OF ok w] obtain m' es where c: "cron_broadcast_once w (ms_module s) = Some (m', es)" by blast
    have "m_announced m' = (m_announced (ms_module s) \<or> \<not> is_closing (m_signal (ms_module s)))"
      using cron_announces [OF c ok w] c by (auto simp: cron_broadcast_once_def)
    with reach_step [OF assms(2) module_cron [OF assms(3) hook(2) [OF tick(2)] w c]]
      cron_hooks [OF ok w c] c tick f calls assms(5) show ?thesis
      by (simp add: fire_def run_hook_def flags_after_def subscribed_def)
  next
    case none
    with f calls assms(2,5) show ?thesis by (auto simp: fire_def flags_after_def)
  qed
qed

lemma fire_all_steps:
  assumes "calls_subscribed calls" and "module_reachable apis s" and "ms_loaded s"
    and "list_all fired_ok fs" and "subscribed b (ms_module s)"
  shows "\<exists>m' es. fire_all calls fs (ms_module s) = Some (m', es)
     \<and> module_reachable apis (s\<lparr>ms_module := m'\<rparr>)
     \<and> flags_after b (ms_module s) (tick_first fs) (Shutdown_event \<in> fst ` set fs) m'"
  using assms(2-5)
proof (induction fs arbitrary: s)
  case Nil
  then show ?case by (simp add: flags_after_def)
next
  case (Cons f fs)
  then have "fired_ok f" and fs: "list_all fired_ok fs" by simp_all
  from fire_step [OF assms(1) Cons.prems(1,2) this(1) Cons.prems(4)] obtain m1 es where
    f: "fire calls f (ms_module s) = Some (m1, es)" "module_reachable apis (s\<lparr>ms_module := m1\<rparr>)"
      "flags_after b (ms_module s) (fst f = CronLoop) (fst f = Shutdown_event) m1" by blast
  then have "ms_loaded (s\<lparr>ms_module := m1\<rparr>)" "subscribed b (ms_module (s\<lparr>ms_module := m1\<rparr>))"
    using Cons.prems(2) by (simp_all add: flags_after_def)
  from Cons.IH [OF f(2) this(1) fs this(2)] obtain m2 es' where
    i: "fire_all calls fs m1 = Some (m2, es')" "module_reachable apis (s\<lparr>ms_module := m2\<rparr>)"
      "flags_after b m1 (tick_first fs) (Shutdown_event \<in> fst ` set fs) m2" by auto
  have "flags_after b (ms_module s) (tick_first (f # fs)) (Shutdown_event \<in> fst ` set (f # fs)) m2"
    using f(3) i(3) by (auto simp: flags_after_def)
  with f(1) i(1,2) show ?case by simp
qed

text \<open>What a load subscribes.\<close>

lemma load_subscribes:
  fixes w :: "'r load_world"
  assumes "load_ok w" and "m_hooks m = []" and "module_ok m"
    and "RedisModule_OnLoad w m = Some (True, m', es)"
  shows "subscribed (0 < m_port m' \<and> lw_cron w) m' \<and> \<not> m_announced m' \<and> \<not> is_closing (m_signal m')"
proof -
  obtain port tls logs where r: "resolve_announced_port (lw_api w) (lw_getenv w) = (port, tls, logs)"
    by (cases "resolve_announced_port (lw_api w) (lw_getenv w)")
  from load_value [OF assms(1)] obtain api where l: "RedisModule_OnLoad w m =
     (let m1 = m\<lparr>m_guid := lw_guid w, m_api := api\<rparr>
      in if name_free w then Some (set_up w m1)
         else map_option (\<lambda>m2. (False, m2, [])) (cleanup_threads m1))" by blast
  with assms(4) have "set_up w (m\<lparr>m_guid := lw_guid w, m_api := api\<rparr>) = (True, m', es)"
    by (auto simp: Let_def split: if_splits)
  with r assms(2) show ?thesis
    by (auto simp: set_up_def subscribe_def subscribed_def event_id_inj Let_def split: if_splits)
qed

text \<open>
  C19. Whatever Redis fires. Take a module that was just loaded, and any sequence of the eighteen
  server events with any subevents, dispatched by what the load subscribed. No callback faults and
  the module stays in a reachable state. It has announced exactly when its listener was resolved,
  the cron hook was accepted, and a cron event was fired before any shutdown event: no other event
  makes it announce. It is closing exactly when a shutdown event was fired, and then none of
  its threads runs and nothing it allocated is left, whatever is fired afterwards.
\<close>

theorem events_are_harmless:
  fixes w :: "'r load_world"
  assumes "calls_subscribed calls" and "module_reachable apis s" and "\<not> ms_loaded s"
    and "lw_api w = apis n" and "load_ok w"
    and "RedisModule_OnLoad w (ms_module s) = Some (True, m, es0)" and "list_all fired_ok fs"
  shows "\<exists>m' es. fire_all calls fs m = Some (m', es)
     \<and> module_reachable apis \<lparr>ms_loaded = True, ms_module = m'\<rparr>
     \<and> m_announced m' = (0 < m_port m \<and> lw_cron w \<and> tick_first fs)
     \<and> is_closing (m_signal m') = (Shutdown_event \<in> fst ` set fs)
     \<and> (Shutdown_event \<in> fst ` set fs \<longrightarrow> clean m')"
proof -
  have "m_hooks (ms_module s) = []" "module_ok (ms_module s)"
    using module_system.reachable_inv [OF assms(2)] assms(3) by (simp_all add: module_inv_def)
  from load_subscribes [OF assms(5) this assms(6)]
  have m: "subscribed (0 < m_port m \<and> lw_cron w) m" "\<not> m_announced m" "\<not> is_closing (m_signal m)" by blast+
  from reach_step [OF assms(2) module_load [of s w apis n True m es0]] assms(3-6)
  have "module_reachable apis \<lparr>ms_loaded = True, ms_module = m\<rparr>" by simp
  from fire_all_steps [OF assms(1) this _ assms(7), of "0 < m_port m \<and> lw_cron w"] m(1)
  obtain m' es where
    r: "fire_all calls fs m = Some (m', es)" "module_reachable apis \<lparr>ms_loaded = True, ms_module = m'\<rparr>"
      "flags_after (0 < m_port m \<and> lw_cron w) m (tick_first fs) (Shutdown_event \<in> fst ` set fs) m'" by auto
  have "is_closing (m_signal m') \<longrightarrow> clean m'"
    using reachable_ok(1) [OF r(2)] by (simp add: module_ok_def)
  with r m show ?thesis by (auto simp: flags_after_def)
qed

section \<open>Witnesses\<close>

text \<open>A dispatcher that looks the identifier up.\<close>

definition demo_calls :: dispatcher where
  "demo_calls hooks n = (case map_of hooks n of None \<Rightarrow> [] | Some callback \<Rightarrow> [callback])"

text \<open>A module that ignores a flush, announces at a cron event, is shut down and hears another cron event.\<close>

lemma events_are_harmless_witness:
  "\<exists>m' es. fire_all demo_calls [(FlushDB, 1, demo_start), (CronLoop, 0, demo_start),
       (Shutdown_event, 0, demo_start), (CronLoop, 0, demo_start)] demo_loaded = Some (m', es)
     \<and> m_announced m' \<and> clean m'"
proof -
  let ?fs = "[(FlushDB, 1, demo_start), (CronLoop, 0, demo_start), (Shutdown_event, 0, demo_start),
      (CronLoop, 0, demo_start)]"
  have calls: "calls_subscribed demo_calls" by (simp add: calls_subscribed_def demo_calls_def)
  have init: "module_reachable demo_apis \<lparr>ms_loaded = False, ms_module = initial_module\<rparr>"
    by (rule reach_init) (simp add: module_start_def)
  have "list_all fired_ok ?fs" using demo_start_ok by (simp add: fired_ok_def)
  moreover have "0 < m_port demo_loaded" "lw_cron (demo_load True)"
    by (simp_all add: demo_loaded_def demo_load_def)
  ultimately show ?thesis
    using events_are_harmless [OF calls init, of "demo_load True" 0 demo_loaded "[Curl_global_init]" ?fs]
      demo_load_step by auto
qed

end
