(* ===== verification/Spec2Isabelle.thy ===== *)
theory Spec2Isabelle
  imports Settings Closing Response_Body Pod_Request Pod_Fetch Cache_Ownership Cache_Threads
    Cache_Register Refresher Ip_Patterns Announce Sender Redis_Api Module_Lifecycle Module_System
    Module_Types Broker_Threads Shutdown Announcements Redis_Events
begin

text \<open>
  A verification development of the Redis module \<^emph>\<open>unicaster\<close>: a module that announces its broker
  to the pods of its Kubernetes namespace. A refresh thread asks the API server for the pods of
  the namespace and keeps the last good list; one sender thread for each selected network
  interface tells every pod of that list, once per interval and over UDP, where the broker
  listens, and says \<open>down\<close> when the module stops.

  \<^bold>\<open>The program and the theories.\<close> Each theory follows the order of its C file; a function of the
  program keeps its name, a part of a function has a definition of its own.

  \<^item> \<^verbatim>\<open>settings.c\<close>: theory \<open>Settings\<close> - \<open>parse_int\<close> and the getters. The environment is a function
    argument. \<open>C_Strings\<close> and \<open>C_Inet\<close> model what the program uses of the C library: \<open>strtol\<close>,
    \<open>snprintf\<close>, \<open>strtok\<close>, \<open>strncmp\<close>, \<open>strcasecmp\<close>, \<open>inet_pton\<close>, \<open>inet_ntop\<close>.
  \<^item> \<^verbatim>\<open>closing.c\<close>: theory \<open>Closing\<close> - the flag as sequential operations, and \<open>closing_begin\<close> and
    \<open>closing_sleep\<close> as a step relation over mutex, flag, condition variable and clock.
  \<^item> \<^verbatim>\<open>pod_list.c\<close>: \<open>Response_Body\<close> (the write callback), \<open>Pod_Request\<close> (token, namespace, URL),
    \<open>C_Sort\<close> and \<open>Pod_List\<close> (sorting, removing duplicates, parsing), \<open>Pod_Fetch\<close> (the client and
    \<open>pod_list_fetch\<close>).
  \<^item> \<^verbatim>\<open>pod_cache.c\<close>: \<open>Pod_Cache\<close> (snapshots on an explicit heap, starting, stopping, the retry delay),
    \<open>Cache_Ownership\<close> (who holds which reference), \<open>Cache_Threads\<close> (the interleavings),
    \<open>Cache_Register\<close> (the register they implement) and \<open>Refresher\<close> (\<open>log_failure\<close>, \<open>refresh_pods\<close>).
  \<^item> \<^verbatim>\<open>unicaster.c\<close>: \<open>Ip_Patterns\<close> (SELECTED_INTERFACES), \<open>Announce\<close> (the configuration, the announced
    port, the texts of the datagrams), \<open>Sender\<close> (\<open>send_unicast_message\<close>, \<open>unicast_thread\<close>),
    \<open>Module_Lifecycle\<close> (every handler over the file-scope variables), \<open>Module_System\<close> (every
    sequence of handlers) and \<open>Module_Types\<close> (the types of the variables).
  \<^item> \<^verbatim>\<open>redismodule.h\<close>: \<open>Redis_Api\<close> (\<open>RedisModule_Init\<close>) and \<open>Server_Events\<close> (the identifiers, structures
    and subevents of the server events). \<open>Redis_Events\<close> composes them with the subscriptions
    \<open>RedisModule_OnLoad\<close> makes: which callback runs when Redis fires a sequence of events.
  \<^item> All C files at once: \<open>Broker_Threads\<close> (the loops of \<open>unicast_thread\<close> and \<open>refresh_pods\<close>, and
    \<open>cleanup_threads\<close> with \<open>pod_cache_stop\<close>, as steps over the product of the closing signal and the
    cache), \<open>Shutdown\<close> (what stopping a running module amounts to) and \<open>Announcements\<close> (which list a
    sender reaches while the others run).
  \<^item> \<open>Prelude\<close> holds what they share: ranges of C integers, transition systems, lists.

  \<^bold>\<open>State.\<close> The statics of \<^verbatim>\<open>pod_cache.c\<close> are the record \<open>cache\<close>: pointers are numbers, the heap is
  two maps (snapshots and lists), a freed block is \<open>None\<close>. The statics of \<^verbatim>\<open>unicaster.c\<close> are the
  record \<open>module\<close>, which contains the cache and the closing flag, the subscriptions Redis holds -
  pairs of the identifier of an event and a callback -, and the threads that exist; \<open>thread_ids\<close> is
  \<open>NULL\<close>, an array, or memory that was freed. The calls that send a datagram work on the record
  \<open>net_state\<close>: the open descriptors, \<open>errno\<close> and the calls made. The locals of the two thread functions are the records \<open>refresher\<close>
  and \<open>sender\<close>.

  \<^bold>\<open>Errors.\<close> Errors the program reports are values (\<open>Inl\<close> with the text it writes, \<open>NULL\<close> as
  \<open>None\<close>, false). A result \<open>None\<close> of an operation on the heap or of a handler is an access C
  leaves undefined: through \<open>NULL\<close>, to a freed block, past an array, a signed overflow. That this
  never happens is proved; the one thing assumed is memory for the copies \<open>strdup\<close> makes of the
  patterns, which the code does not test (\<open>copies_ok\<close>, \<open>unchecked_strdup\<close>).

  \<^bold>\<open>Loops.\<close> Every loop is a total function: structural over its list, or with a measure, so no
  fuel is used. The one loop that might not end, the doubling of the capacity in \<open>write_body\<close>
  (it would spin once the capacity wraps to 0), is a \<open>partial_function\<close>, and that it
  returns is part of \<open>write_body_appends\<close>. The endless loops of the two threads run over a list of
  rounds of any length, with what each round finds as its element; the theorems hold for every
  list.

  \<^bold>\<open>Threads.\<close> \<open>Cache_Threads\<close> interleaves the mutex-protected sections of any number of threads;
  \<open>Cache_Register\<close> proves that the outcome is that of one atomic register. That justifies the
  sequential use of the operations in \<open>Refresher\<close>, where the readers hold any references, and in
  \<open>Sender\<close>, where \<open>sr_before\<close> is whatever the others did to the cache before a round: \<open>pass_is_atomic\<close>
  shows that what they do during a round does not change what it sends. In
  \<open>Module_System\<close> the threads are the step \<open>module_threads\<close>: any change that keeps the cache
  well-formed; \<open>refresher_inside_module\<close> below shows that a run of the refresh thread is such a step.
  \<open>Module_System\<close> also runs \<open>cleanup_threads\<close> as one step; \<open>Broker_Threads\<close> interleaves it with the
  threads it stops, and \<open>shutdown_refines_cleanup\<close> below shows that nothing else comes out. There
  a step is one operation on the mutex, the flag or the condition variable, one section of the
  cache, or one join; the requests and the sends are steps that end, their outcome open, because
  libcurl gives up as soon as the module closes (\<open>abort_when_closing\<close>) and \<open>sendto\<close> does not wait
  for a receiver. The clock counts nanoseconds there, and \<open>now_seconds\<close> is what the cache sees of
  it. \<open>shutdown_terminates\<close> counts from the moment the flag is up; before it, only the
  wait for the mutex in \<open>closing_begin\<close> depends on the fairness of the mutex. The bound
  \<open>22 * n + 24\<close> is the sum over the threads of the longest way out: 21 steps for a sender, 14 for
  the refresh thread, \<open>n + 10\<close> for the thread that joins them.

  \<^bold>\<open>What the theorems show.\<close> Of the settings: exact reading and ranges. Of the request: the
  namespace is validated and stays in its segment of the URL, the answer of a 200 response is
  parsed whole, and the list is exactly the sorted distinct addresses of the unfinished pods among
  the first \<open>MAX_PODS\<close> items.
  Of the cache: no interleaving uses freed memory, nothing leaks, a reader's list never changes,
  and the whole refines a register. Of the refresh thread: only a good answer replaces the
  list, every request is followed by one sleep of a bounded time, and while requests fail a warning
  is never a minute old. Of the senders: the \<open>up\<close> text to the pods of the list until the module
  closes and then the \<open>down\<close> text once - one \<open>sendto\<close> for each pod a socket can be opened for -,
  every socket closed again, and the datagrams can be read back. Of the module: no sequence of handlers faults, senders exist only while announcing,
  stopping leaves nothing, the fixed arrays are never overrun, and a load followed by a tick announces
  the resolved listener on the selected interfaces. Of all the threads together: nothing is used
  after it was freed or destroyed, a shutdown never gets stuck and ends within a bound that does
  not depend on the configured times, after it every sender has said \<open>down\<close> once and last, and no
  sender makes more than one stale \<open>up\<close> once the flag is up; a pass reaches the list that was visible
  when it acquired its snapshot, and the last one, which says \<open>down\<close>, reaches a list when lists do not
  expire. Of the server: whatever events it fires at a module that was just loaded, no callback
  faults, it announces exactly when a cron event comes before any shutdown event, and nothing is left
  once a shutdown was among them. Where the code does not do what it means to
  do, the theorem says so: \<open>long_namespace_is_cut\<close>, \<open>long_name_cuts_datagram\<close>,
  \<open>second_load_silences\<close>, \<open>logging_is_never_switched_off\<close>, \<open>unchecked_strdup\<close>.

  \<^bold>\<open>Interfaces.\<close> The contracts between components are locales, each interpreted on the code's own
  definitions: \<open>invariant_system\<close> (a transition system with an invariant: the closing signal, the
  cache's threads, all threads together, the module, the module's types), \<open>c_comparator\<close> (what \<open>qsort\<close> is given) and
  \<open>pod_source\<close> (what a sender relies on of the cache).

  \<^bold>\<open>Parameters.\<close> Code outside the repository is an argument of the definitions that use it: libcurl
  (\<open>curl_api\<close>), json-c (\<open>json_api\<close>), the replies of Redis (\<open>reply_api\<close>, \<open>redis_ctx\<close>), libuuid, the
  environment, the clock, \<open>malloc\<close>, \<open>strdup\<close>, \<open>pthread_create\<close>, \<open>getifaddrs\<close>, the socket calls and
  \<open>strerror\<close>. What is assumed of them are named predicates: \<open>redis_ok\<close>, \<open>load_ok\<close> (libuuid
  writes 36 characters), \<open>calls_subscribed\<close> (Redis calls what is subscribed to an event), \<open>new_threads\<close>,
  \<open>copies_ok\<close>, \<open>fresh_blocks\<close>, \<open>rounds_ok\<close>, and those of \<open>Pod_List\<close> and \<open>Pod_Fetch\<close>.

  \<^bold>\<open>Not modelled.\<close> The rest of \<^verbatim>\<open>redismodule.h\<close> (types and flags of parts of the API
  the module does not use, and the declarations of the function pointers); what libuuid writes (the
  argument \<open>lw_guid\<close> of a load); the debug line of \<open>ip_matches_pattern\<close>, which prints a number \<open>strncmp\<close> does not
  specify; the log lines of \<open>RedisModule_Log\<close> are kept as text with their level, not their
  delivery; build files and documentation.
\<close>

section \<open>The refresh thread inside the module\<close>

lemma publish_running: "publish block now l c = Some (ok, c') \<Longrightarrow> refresher_running c' = refresher_running c"
  by (auto simp: publish_def pod_list_free_def publish_alloc_def publish_swap_def
      dest: release_frame split: option.splits)

lemma take_list_running:
  "take_list w r c = Some (taken, c') \<Longrightarrow> refresher_running c' = refresher_running c"
  by (auto simp: take_list_def pod_list_free_def dest: publish_running
      split: sum.splits option.splits if_splits)

lemma refresh_round_running:
  assumes "refresh_round api name refresh timeout w rf c = Some (go_on, events, rf', c')"
  shows "refresher_running c' = refresher_running c"
proof (cases "rw_closing w")
  case False
  with assms obtain h r h' where f: "client c = Some h"
    "pod_list_fetch api (rw_curl w) (rw_fetch w) h timeout 512 = Some (r, h')"
    by (auto simp: refresh_round_def bind_eq_Some_conv)
  let ?c = "c\<lparr>client := Some h',
    lists := (case r of Inl e \<Rightarrow> lists c | Inr l \<Rightarrow> (lists c)(rw_list w \<mapsto> l))\<rparr>"
  show ?thesis
  proof (cases "rw_closing_after w")
    case True
    with assms False f show ?thesis
      by (auto simp: refresh_round_def Let_def pod_list_free_def split: option.splits)
  next
    case nclose: False
    with assms False f obtain taken c2 where t: "take_list w r ?c = Some (taken, c2)"
      by (auto simp: refresh_round_def Let_def bind_eq_Some_conv)
    with assms False nclose f have "c' = c2"
      by (cases taken) (auto simp: refresh_round_def Let_def bind_eq_Some_conv split: prod.splits)
    with take_list_running [OF t] show ?thesis by simp
  qed
qed (use assms in \<open>simp add: refresh_round_def\<close>)

lemma refresh_pods_running:
  "refresh_pods api name refresh timeout ws rf c = Some (left, events, rf', c') \<Longrightarrow>
     refresher_running c' = refresher_running c"
proof (induction ws arbitrary: rf c left events)
  case (Cons w ws)
  then obtain go_on ev rf1 c1 where r: "refresh_round api name refresh timeout w rf c = Some (go_on, ev, rf1, c1)"
    by (auto simp: bind_eq_Some_conv)
  from refresh_round_running [OF r] Cons r show ?case by (cases go_on) auto
qed simp

text \<open>
  C25. The refresh thread and the module together. Whatever a refresh thread of a reachable module
  receives over any number of rounds, it never faults, the module is again in a reachable
  state, so that everything above holds of it, and stopping it then joins every thread
  and frees every snapshot, every list, the client, the patterns and the array.
\<close>

theorem refresher_inside_module:
  assumes "module_reachable apis s" and "refresher_running (m_cache (ms_module s))"
    and "refresher_ok (m_cache (ms_module s)) refresh rf (length ws)"
    and "rounds_ok api name refresh timeout ws rf (m_cache (ms_module s))"
  shows "\<exists>events rf' c m'.
     refresh_pods api name refresh timeout ws rf (m_cache (ms_module s)) = Some (list_ex leaving ws, events, rf', c)
     \<and> module_reachable apis (s\<lparr>ms_module := (ms_module s)\<lparr>m_cache := c\<rparr>\<rparr>)
     \<and> cleanup_threads ((ms_module s)\<lparr>m_cache := c\<rparr>) = Some m' \<and> clean m'"
proof -
  have "cache_inv (\<lambda>_. 0) {} {} (m_cache (ms_module s))"
    using reachable_ok(1) [OF assms(1)] by (simp add: module_ok_def)
  from refresh_pods_run [OF this assms(3,4)] obtain events rf' c where
    r: "refresh_pods api name refresh timeout ws rf (m_cache (ms_module s))
          = Some (list_ex leaving ws, events, rf', c)" "cache_inv (\<lambda>_. 0) {} {} c" "client c \<noteq> None" by blast
  let ?s = "s\<lparr>ms_module := (ms_module s)\<lparr>m_cache := c\<rparr>\<rparr>"
  from refresh_pods_running [OF r(1)] assms(2) have "refresher_running c" by simp
  from reach_step [OF assms(1) module_threads [OF assms(2) r(2) this r(3)]]
  have reach: "module_reachable apis ?s" .
  from cleanup_clean [OF reachable_ok(1) [OF this]] obtain m' where
    "cleanup_threads ((ms_module s)\<lparr>m_cache := c\<rparr>) = Some m'" "clean m'" by auto
  with r(1) reach show ?thesis by blast
qed

section \<open>From the load to the datagrams\<close>

text \<open>What \<open>unicast_thread\<close> reads before its loop: the settings, the identifier, its task.\<close>

definition new_sender :: "environ \<Rightarrow> (int \<Rightarrow> string) \<Rightarrow> module \<Rightarrow> BroadcastTask \<Rightarrow> sender" where
  "new_sender getenv strerror m task = \<lparr>se_name = get_service_name getenv, se_guid = m_guid m,
     se_task = task, se_interval = get_interval getenv, se_port = get_port getenv,
     se_logging = m_logging m, se_strerror = strerror\<rparr>"

text \<open>What a reader of the datagram for an address should find in it.\<close>

definition announcement :: "environ \<Rightarrow> string \<Rightarrow> int \<Rightarrow> bool \<Rightarrow> in_addr \<Rightarrow> string list" where
  "announcement getenv guid port tls addr =
     [get_service_name getenv, guid, ''up'', inet_ntop addr @ '':'' @ show_int port,
      show_int (get_interval getenv), if tls then ''tls'' else ''plain'']"

lemma set_up_result:
  assumes "lw_curl w" and "lw_cron w" and "resolve_announced_port (lw_api w) (lw_getenv w) = (port, tls, logs)"
    and "0 < port"
  shows "\<exists>m' es. set_up w m = (True, m', es) \<and> m_port m' = port \<and> m_tls m' = tls \<and> m_guid m' = m_guid m
     \<and> m_cron_hook m' \<and> \<not> m_announced m' \<and> \<not> is_closing (m_signal m') \<and> (clean m \<longrightarrow> clean m')"
  using assms by (simp add: set_up_def subscribe_def Let_def module_simps is_closing_def closing_reset_def)

lemma start_senders_guid: "start_senders w port tls ifas m = Some (m', es) \<Longrightarrow> m_guid m' = m_guid m"
proof (induction ifas arbitrary: m es)
  case (Cons ifa ifas)
  then obtain m1 e1 e2 where s: "start_sender w port tls ifa m = Some (m1, e1)"
    "start_senders w port tls ifas m1 = Some (m', e2)" by (auto simp: bind_eq_Some_conv)
  from s(1) have "m_guid m1 = m_guid m"
    by (auto simp: start_sender_def store_thread_def Let_def
        split: prod.splits option.splits bool.splits thread_block.splits if_splits)
  with Cons.IH [OF s(2)] show ?case by simp
qed simp

lemma cron_guid: "cron_broadcast_once v m = Some (m', es) \<Longrightarrow> m_guid m' = m_guid m"
  by (auto simp: cron_broadcast_once_def start_broadcasting_def send_udp_message_def Let_def
      bind_eq_Some_conv dest!: start_senders_guid split: if_splits prod.splits option.splits)

lemma interval_int: "in_int (get_interval getenv)"
  unfolding get_interval_def by (rule get_env_seconds_int) (simp add: defaults in_int_def)

text \<open>
  C1. What the whole program is for. Loaded into a Redis where the name is free and a listener is
  up, the module waits for the first cron tick and then announces: with every call it depends on
  succeeding, there is one sender for each IPv4 address of the host that SELECTED_INTERFACES
  accepts, in the order of the interfaces, and a reader that splits its \<open>up\<close> datagram at tabs finds
  the service name, the UUID of this load, the address with the port of the resolved listener, the
  interval and its transport.
\<close>

theorem load_then_tick_announces:
  assumes "clean m" and "load_ok w" and "name_free w" and "lw_curl w" and "lw_cron w"
    and "resolve_announced_port (lw_api w) (lw_getenv w) = (port, tls, logs)" and "0 < port"
    and "sw_malloc v" and "sw_curl_init v" and "sw_refresher v" and "copies_ok (sw_udp v)"
    and "uw_ifaddrs (sw_udp v) \<noteq> None" and "uw_array (sw_udp v)"
    and "\<forall>i. uw_task (sw_udp v) i \<and> uw_thread (sw_udp v) i \<noteq> None"
    and "length (get_service_name getenv) + length (lw_guid w) \<le> 205"
    and "ch_tab \<notin> set (get_service_name getenv)" and "ch_tab \<notin> set (lw_guid w)"
  shows "\<exists>m1 es1 m2 es2. RedisModule_OnLoad w m = Some (True, m1, es1) \<and> m_cron_hook m1 \<and> m_senders m1 = []
     \<and> cron_broadcast_once v m1 = Some (m2, es2)
     \<and> map (\<lambda>s. split_on ch_tab (up_of (new_sender getenv strerror m2 (snd s)))) (m_senders m2)
       = map (announcement getenv (lw_guid w) port tls)
           (filter (\<lambda>a. accepts (uw_getenv (sw_udp v)) (inet_ntop a))
              (List.map_filter id (the (uw_ifaddrs (sw_udp v)))))"
proof -
  from load_value [OF assms(2), of m] assms(3) obtain api where
    l: "RedisModule_OnLoad w m = Some (set_up w (m\<lparr>m_guid := lw_guid w, m_api := api\<rparr>))" by auto
  have "clean (m\<lparr>m_guid := lw_guid w, m_api := api\<rparr>)" using assms(1) by (simp only: registered_ok)
  with set_up_result [OF assms(4-7), of "m\<lparr>m_guid := lw_guid w, m_api := api\<rparr>"] l
  obtain m1 es1 where m1: "RedisModule_OnLoad w m = Some (True, m1, es1)" "m_port m1 = port" "m_tls m1 = tls"
    "m_guid m1 = lw_guid w" "m_cron_hook m1" "\<not> m_announced m1" "\<not> is_closing (m_signal m1)" "clean m1"
    by auto
  from cron_senders [OF m1(8,6,7) assms(8-14)] obtain m2 es2 where
    c: "cron_broadcast_once v m1 = Some (m2, es2)"
      "map snd (m_senders m2) = map (task_for port tls)
         (filter (\<lambda>a. accepts (uw_getenv (sw_udp v)) (inet_ntop a))
            (List.map_filter id (the (uw_ifaddrs (sw_udp v)))))" by (auto simp: m1)
  have guid: "m_guid m2 = lw_guid w" using cron_guid [OF c(1)] m1(4) by simp
  have "in_int port" using announced_range [OF assms(6)] by simp
  then have "split_on ch_tab (up_of (new_sender getenv strerror m2 (task_for port tls a)))
      = announcement getenv (lw_guid w) port tls a" for a
    using up_split [OF task_for_ok interval_int assms(15-17)] guid
    by (simp add: up_of_def round_message_text new_sender_def announcement_def address_field_def task_for_def)
  then have "map (\<lambda>t. split_on ch_tab (up_of (new_sender getenv strerror m2 t))) (map snd (m_senders m2))
      = map (announcement getenv (lw_guid w) port tls)
           (filter (\<lambda>a. accepts (uw_getenv (sw_udp v)) (inet_ntop a))
              (List.map_filter id (the (uw_ifaddrs (sw_udp v)))))"
    unfolding c(2) by simp
  moreover have "m_senders m1 = []" using m1(8) by (simp add: module_simps)
  ultimately show ?thesis using m1(1,5) c(1) by (auto simp: comp_def)
qed

section \<open>The handlers and the threads\<close>

text \<open>
  C7. Stopping, as one step and as it happens. \<open>Module_System\<close> runs \<open>cleanup_threads\<close> as one
  operation. Take a loaded module that announces at its first cron tick, let the threads it then
  has run with the thread of Redis in any interleaving until \<open>cleanup_threads\<close> has returned: the
  cache is exactly the one \<open>cleanup_threads\<close> computes, the flag is up in both, and the threads
  \<open>cleanup_threads\<close> removes from the module are the ones that have returned.
\<close>

theorem shutdown_refines_cleanup:
  assumes "module_reachable apis ms" and "ms_loaded ms" and "m_cron_hook (ms_module ms)"
    and "\<not> m_announced (ms_module ms)" and "copies_ok (sw_udp w)" and "new_threads (sw_udp w)"
    and "cron_broadcast_once w (ms_module ms) = Some (m, es)" and "refresher_running (m_cache m)"
    and "(threads_step (length (m_senders m)))\<^sup>*\<^sup>* (threads_of now m) s" and "th_main s = M_Done"
  shows "\<exists>m'. cleanup_threads m = Some m' \<and> m_cache m' = shared (th_cache s)
     \<and> is_closing (m_signal m') = flag (th_signal s)
     \<and> m_senders m' = [] \<and> (\<forall>i<length (m_senders m). th_sender s i = S_Exited)
     \<and> \<not> refresher_running (m_cache m') \<and> th_refresher s = R_Exited"
proof -
  have clean: "clean (ms_module ms)"
    using reachable_ok(1) [OF assms(1)] assms(4) by (simp add: module_ok_def)
  then have "\<not> refresher_running (m_cache (ms_module ms))" by (simp add: clean_def cache_off_def)
  with assms(4,7,8) have open_flag: "\<not> is_closing (m_signal (ms_module ms))"
    and "start_broadcasting w ((ms_module ms)\<lparr>m_announced := True\<rparr>) = Some (m, es)"
    by (auto simp: cron_broadcast_once_def split: if_splits)
  moreover have "clean ((ms_module ms)\<lparr>m_announced := True\<rparr>)" using clean by (simp add: module_simps)
  ultimately obtain age h where c: "m_cache m = empty_cache\<lparr>max_age := age, client := Some h,
      refresher_running := True\<rparr>" and "\<not> is_closing (m_signal m)"
    using start_broadcasting_cache [OF _ assms(5,6) _ assms(8)] by fastforce
  note ended = end_of_run [OF threads_of_start [OF this] assms(9,10)]
  from reach_step [OF assms(1) module_cron [OF assms(2,3,5,6,7)]]
  have "module_ok m" using reachable_ok(1) by force
  then obtain d where d: "cleanup_threads m = Some (m\<lparr>m_signal := closing_begin (m_signal m), m_senders := [],
       m_thread_ids := None, m_thread_count := 0, m_cache := d, m_patterns := []\<rparr>)"
    "cache_off d" "max_age d = max_age (m_cache m)"
    using cleanup_value [of m] by (auto simp: module_ok_def)
  have "d = shared (th_cache s)"
    using ended(2) d(3) by (intro off_unique [OF d(2) ended(1)]) (simp add: threads_of_def)
  with d(1,2) ended show ?thesis by (auto simp: cache_off_def)
qed

section \<open>Witnesses\<close>

text \<open>The module of the demonstration, run to its end in some interleaving.\<close>

lemma shutdown_refines_cleanup_witness:
  "\<exists>s m'. (threads_step (length (m_senders demo_running)))\<^sup>*\<^sup>* (threads_of 0 demo_running) s
     \<and> m_senders demo_running \<noteq> [] \<and> cleanup_threads demo_running = Some m'
     \<and> m_cache m' = shared (th_cache s) \<and> flag (th_signal s)"
proof -
  obtain es where cron: "cron_broadcast_once demo_start demo_loaded = Some (demo_running, es)"
    and senders: "m_senders demo_running \<noteq> []" using demo_cron by auto
  have running: "refresher_running (m_cache demo_running)"
    using senders reachable_ok(1) [OF demo_reach_running] by (auto simp: module_ok_def)
  have "start_broadcasting demo_start (demo_loaded\<lparr>m_announced := True\<rparr>) = Some (demo_running, es)"
    using cron demo_loaded_facts by (simp add: cron_broadcast_once_def)
  moreover have "clean (demo_loaded\<lparr>m_announced := True\<rparr>)" using demo_loaded_facts(5) by (simp add: module_simps)
  ultimately obtain age h where
    "m_cache demo_running = empty_cache\<lparr>max_age := age, client := Some h, refresher_running := True\<rparr>"
    "\<not> is_closing (m_signal demo_running)"
    using start_broadcasting_cache [OF _ demo_start_ok _ running] demo_loaded_facts(3) by fastforce
  note start = threads_of_start [OF this, of 0]
  from start_to_end [OF start] obtain s where
    s: "(threads_step (length (m_senders demo_running)))\<^sup>*\<^sup>* (threads_of 0 demo_running) s" "th_main s = M_Done"
    by blast
  from shutdown_refines_cleanup [OF demo_reach_loaded _ _ _ demo_start_ok _ running s, of es]
    cron demo_loaded_facts(1,2) obtain m' where
    "cleanup_threads demo_running = Some m'" "m_cache m' = shared (th_cache s)" by auto
  with s senders end_of_run(5) [OF start s] show ?thesis by blast
qed

text \<open>Two interfaces, one of them selected, and a Redis that listens on 6379 only.\<close>

lemma load_then_tick_announces_witness:
  "\<exists>m2. map (\<lambda>s. split_on ch_tab (up_of (new_sender (\<lambda>_. None) (\<lambda>_. []) m2 (snd s)))) (m_senders m2)
     = [announcement (\<lambda>_. None) demo_guid 6379 False (In_addr 10 0 0 1)]"
proof -
  have c: "lw_curl (demo_load True)" "lw_cron (demo_load True)"
    "resolve_announced_port (lw_api (demo_load True)) (lw_getenv (demo_load True)) = (6379, False, [])"
    "(0::int) < 6379"
    by (simp_all add: demo_answers) (simp_all add: demo_load_def demo_answers)
  have p: "sw_malloc demo_start" "sw_curl_init demo_start" "sw_refresher demo_start"
    "uw_ifaddrs (sw_udp demo_start) \<noteq> None" "uw_array (sw_udp demo_start)"
    "\<forall>i. uw_task (sw_udp demo_start) i \<and> uw_thread (sw_udp demo_start) i \<noteq> None"
    and u: "sw_udp demo_start = demo_udp"
    by (simp_all add: demo_start_def demo_udp_def)
  have n: "length (get_service_name (\<lambda>_. None)) + length (lw_guid (demo_load True)) \<le> 205"
    "ch_tab \<notin> set (get_service_name (\<lambda>_. None))" "ch_tab \<notin> set (lw_guid (demo_load True))"
    by (simp_all add: get_service_name_def defaults ch_defs demo_guid_def)
  have a: "accepts (uw_getenv demo_udp) (inet_ntop (In_addr 127 0 0 1)) = False"
    "accepts (uw_getenv demo_udp) (inet_ntop (In_addr 10 0 0 1)) = True" by code_simp+
  have i: "List.map_filter id (the (uw_ifaddrs demo_udp)) = [In_addr 127 0 0 1, In_addr 10 0 0 1]"
    by (simp add: demo_udp_def map_filter_simps)
  from load_then_tick_announces [OF initial_clean _ _ c p(1-3) demo_start_ok(1) p(4-6) n, of "\<lambda>_. []"]
  obtain m2 where "map (\<lambda>s. split_on ch_tab (up_of (new_sender (\<lambda>_. None) (\<lambda>_. []) m2 (snd s)))) (m_senders m2)
      = map (announcement (\<lambda>_. None) (lw_guid (demo_load True)) 6379 False)
           (filter (\<lambda>a. accepts (uw_getenv demo_udp) (inet_ntop a))
              (List.map_filter id (the (uw_ifaddrs demo_udp))))"
    unfolding u by auto
  then show ?thesis by (intro exI [of _ m2]) (simp add: i a del: inet_ntop.simps)
qed

text \<open>One answered request of the module's refresh thread.\<close>

definition demo_running_cache :: cache where
  "demo_running_cache = demo_cache\<lparr>refresher_running := True\<rparr>"

lemma demo_reach_running_cache:
  "module_reachable demo_apis \<lparr>ms_loaded = True, ms_module = demo_running\<lparr>m_cache := demo_running_cache\<rparr>\<rparr>"
proof -
  have "refresher_running (m_cache demo_running)"
    using demo_cron reachable_ok(1) [OF demo_reach_running] by (auto simp: module_ok_def)
  moreover have "cache_inv (\<lambda>_. 0) {} {} demo_running_cache"
    using demo_cache_inv by (simp add: demo_running_cache_def cache_inv_def refs_exact_def alive_def)
  moreover have "refresher_running demo_running_cache" "client demo_running_cache \<noteq> None"
    by (simp_all add: demo_running_cache_def demo_cache_def)
  ultimately show ?thesis using reach_step [OF demo_reach_running module_threads] by simp
qed

lemma refresher_inside_module_witness:
  "\<exists>events rf' c m'. refresh_pods demo_api ''b'' 5 5 [demo_round ''pods'' 1 30 False] new_refresher
       demo_running_cache = Some (False, events, rf', c)
     \<and> cleanup_threads (demo_running\<lparr>m_cache := c\<rparr>) = Some m' \<and> clean m'"
proof -
  let ?ws = "[demo_round ''pods'' 1 30 False]"
  have "fresh_blocks (demo_round ''pods'' 1 30 False) demo_running_cache"
    by (simp add: demo_running_cache_def fresh_blocks_def demo_round_def demo_cache_def empty_cache_def)
  then have r: "rounds_ok demo_api ''b'' 5 5 ?ws new_refresher demo_running_cache"
    by (simp add: demo_fetched_pods split: option.split bool.split)
  have "refresher_ok demo_running_cache 5 new_refresher (length ?ws)"
    using demo_refresher_ok [of "length ?ws"] by (simp add: demo_running_cache_def refresher_ok_def)
  then show ?thesis
    using refresher_inside_module [OF demo_reach_running_cache, of 5 new_refresher ?ws demo_api "''b''" 5] r
    by (auto simp: demo_running_cache_def)
qed

end
